(* ===== verification/Prelude.thy ===== *)
theory Prelude
  imports Main "HOL-Library.Word" "HOL-Library.Signed_Division" "HOL-Library.List_Lexorder" "HOL-Library.Monad_Syntax"
begin

text \<open>
  Shared vocabulary of the development: the machine types of the Go code, byte slices and the
  three operations of the standard library every component uses (\<open>bytes.Compare\<close>,
  \<open>sort.Search\<close>, \<open>encoding/binary.BigEndian\<close>), and the generic lemmas about them.

  Conventions.  A Go \<open>(T, error)\<close> result is a sum \<open>'e + 'a\<close>, the error on the left.
  A Go run-time panic (an index or a subslice bound out of range) is \<open>None\<close> of an option type.
  A subslice that the code updates in place is returned updated.
\<close>

unbundle bit_operations_syntax

type_synonym u8 = "8 word"
type_synonym u16 = "16 word"
type_synonym u32 = "32 word"
type_synonym u64 = "64 word"
type_synonym bytes = "u8 list"

lemma unat_u8: "unat (w :: u8) < 256"
  by (rule order_less_le_trans [OF unsigned_less]) simp

lemma unat_u16: "unat (w :: u16) < 65536"
  by (rule order_less_le_trans [OF unsigned_less]) simp

lemma unat_u32: "unat (w :: u32) < 4294967296"
  by (rule order_less_le_trans [OF unsigned_less]) simp

lemma unat_u64: "unat (w :: u64) < 18446744073709551616"
  by (rule order_less_le_trans [OF unsigned_less]) simp

text \<open>The wrap-around of a Go \<open>int\<close>, written out where a sum or a product can leave its 64 bits.\<close>

definition int64 :: "int \<Rightarrow> int" where
  "int64 x = (x + 2 ^ 63) mod 2 ^ 64 - 2 ^ 63"

lemma int64_id: "- (2 ^ 63) \<le> x \<Longrightarrow> x < 2 ^ 63 \<Longrightarrow> int64 x = x"
  by (simp add: int64_def)

lemma int64_over: "2 ^ 63 \<le> x \<Longrightarrow> x < 2 ^ 64 \<Longrightarrow> int64 x = x - 2 ^ 64"
proof -
  assume x: "2 ^ 63 \<le> x" "x < 2 ^ 64"
  have "x + 2 ^ 63 = (x - 2 ^ 63) + 2 ^ 64" by simp
  then have "(x + 2 ^ 63) mod 2 ^ 64 = (x - 2 ^ 63) mod 2 ^ 64" by (simp only: mod_add_self2)
  then show ?thesis using x by (simp add: int64_def)
qed

text \<open>Facts about reading back what was written into a byte subslice.\<close>
named_theorems slice_simps

section \<open>Indexing that can panic\<close>

definition idx :: "'a list \<Rightarrow> nat \<Rightarrow> 'a option" where
  "idx xs i = (if i < length xs then Some (xs ! i) else None)"

lemma idx_Some_iff: "idx xs i = Some x \<longleftrightarrow> i < length xs \<and> xs ! i = x"
  by (auto simp: idx_def)

lemma idx_in_range [simp]: "i < length xs \<Longrightarrow> idx xs i = Some (xs ! i)"
  by (simp add: idx_def)

lemma idx_out_of_range [simp]: "length xs \<le> i \<Longrightarrow> idx xs i = None"
  by (simp add: idx_def)

lemma idx_in_set: "idx xs i = Some x \<Longrightarrow> x \<in> set xs"
  by (auto simp: idx_Some_iff)

lemma idx_append_mid [simp]: "idx (xs @ y # ys) (length xs) = Some y"
  by (simp add: idx_def)

lemma size_idx [termination_simp]: "Some x = idx xs i \<Longrightarrow> size x < size_list size xs"
proof -
  assume "Some x = idx xs i"
  then have "x \<in> set xs" using idx_in_set [of xs i x] by simp
  then have "size x < Suc (size_list size xs) \<and> size x \<le> size_list size xs"
    by (simp add: le_imp_less_Suc size_list_estimation')
  moreover from \<open>x \<in> set xs\<close> have "size x < size_list size xs"
    by (induction xs) auto
  ultimately show ?thesis by simp
qed

lemma size_idx' [termination_simp]: "idx xs i = Some x \<Longrightarrow> size x < size_list size xs"
  using size_idx [of x xs i] by simp

text \<open>Updating, inserting and removing one element of a slice by position, and cutting a slice;
  each panics out of range.  Insertion is Go's \<open>append\<close> of a dummy followed by \<open>copy(s[i+1:],
  s[i:])\<close> and a store, removal is \<open>append(s[:i], s[i+1:]...)\<close>.\<close>

definition upd_at :: "'a list \<Rightarrow> nat \<Rightarrow> 'a \<Rightarrow> 'a list option" where
  "upd_at xs i x = (if i < length xs then Some (xs[i := x]) else None)"

definition ins_at :: "'a list \<Rightarrow> nat \<Rightarrow> 'a \<Rightarrow> 'a list option" where
  "ins_at xs i x = (if i \<le> length xs then Some (take i xs @ x # drop i xs) else None)"

definition del_at :: "'a list \<Rightarrow> nat \<Rightarrow> 'a list option" where
  "del_at xs i = (if i < length xs then Some (take i xs @ drop (i + 1) xs) else None)"

definition slice_to :: "'a list \<Rightarrow> nat \<Rightarrow> 'a list option" where
  "slice_to xs i = (if i \<le> length xs then Some (take i xs) else None)"

definition slice_from :: "'a list \<Rightarrow> nat \<Rightarrow> 'a list option" where
  "slice_from xs i = (if i \<le> length xs then Some (drop i xs) else None)"

lemma upd_at_mid [simp]: "n = length xs \<Longrightarrow> upd_at (xs @ y # ys) n x = Some (xs @ x # ys)"
  by (simp add: upd_at_def)

lemma ins_at_mid [simp]: "n = length xs \<Longrightarrow> ins_at (xs @ ys) n x = Some (xs @ x # ys)"
  by (simp add: ins_at_def)

lemma ins_at_mid_Suc [simp]:
  "n = length xs \<Longrightarrow> ins_at (xs @ y # ys) (Suc n) x = Some (xs @ y # x # ys)"
  using ins_at_mid [of "Suc n" "xs @ [y]" ys x] by simp

lemma del_at_mid [simp]: "n = length xs \<Longrightarrow> del_at (xs @ y # ys) n = Some (xs @ ys)"
  by (simp add: del_at_def)

lemma del_at_mid_Suc [simp]:
  "n = length xs \<Longrightarrow> del_at (xs @ y # z # ys) (Suc n) = Some (xs @ y # ys)"
  using del_at_mid [of "Suc n" "xs @ [y]" z ys] by simp

lemma slice_in_range [simp]:
  "i \<le> length xs \<Longrightarrow> slice_to xs i = Some (take i xs)"
  "i \<le> length xs \<Longrightarrow> slice_from xs i = Some (drop i xs)"
  by (simp_all add: slice_to_def slice_from_def)

lemma slice_append [simp]:
  "n = length xs \<Longrightarrow> slice_to (xs @ ys) n = Some xs"
  "n = length xs \<Longrightarrow> slice_from (xs @ ys) n = Some ys"
  by simp_all

section \<open>Slices\<close>

text \<open>\<open>subslice off n xs\<close> is Go's \<open>xs[off:off+n]\<close> where that is in range.\<close>

definition subslice :: "nat \<Rightarrow> nat \<Rightarrow> 'a list \<Rightarrow> 'a list" where
  "subslice off n xs = take n (drop off xs)"

definition overwrite :: "nat \<Rightarrow> 'a list \<Rightarrow> 'a list \<Rightarrow> 'a list" where
  "overwrite off b xs = take off xs @ b @ drop (off + length b) xs"

lemma length_subslice [simp]: "off + n \<le> length xs \<Longrightarrow> length (subslice off n xs) = n"
  by (simp add: subslice_def)

lemma length_overwrite [simp]:
  "off + length b \<le> length xs \<Longrightarrow> length (overwrite off b xs) = length xs"
  by (simp add: overwrite_def)

lemma subslice_overwrite_same [slice_simps]:
  "off + length b \<le> length xs \<Longrightarrow> n = length b \<Longrightarrow> subslice off n (overwrite off b xs) = b"
  by (simp add: subslice_def overwrite_def)

lemma subslice_overwrite_before [slice_simps]:
  "off' + length b \<le> length xs \<Longrightarrow> off + n \<le> off' \<Longrightarrow>
   subslice off n (overwrite off' b xs) = subslice off n xs"
proof -
  assume "off' + length b \<le> length xs" "off + n \<le> off'"
  then have "n - (off' - off) = 0" "off - off' = 0" "min n (off' - off) = n"
    and "min (length xs) off' = off'" by auto
  then show ?thesis by (simp add: subslice_def overwrite_def drop_take)
qed

lemma subslice_overwrite_after [slice_simps]:
  "off' + length b \<le> length xs \<Longrightarrow> off' + length b \<le> off \<Longrightarrow>
   subslice off n (overwrite off' b xs) = subslice off n xs"
  by (simp add: subslice_def overwrite_def min_def)

lemma nth_overwrite:
  "off + length b \<le> length xs \<Longrightarrow> i < length xs \<Longrightarrow>
   overwrite off b xs ! i = (if off \<le> i \<and> i < off + length b then b ! (i - off) else xs ! i)"
  by (auto simp: overwrite_def nth_append min_def)

lemma subslice_nth: "off + n \<le> length xs \<Longrightarrow> i < n \<Longrightarrow> subslice off n xs ! i = xs ! (off + i)"
  by (simp add: subslice_def)

lemma overwrite_Nil [simp]: "overwrite off [] xs = xs"
  by (simp add: overwrite_def)

lemma subslice_zero [simp]: "subslice off 0 xs = []"
  by (simp add: subslice_def)

text \<open>Go's \<open>xs[lo:hi]\<close>, which panics out of range.\<close>

definition slice_of :: "'a list \<Rightarrow> nat \<Rightarrow> nat \<Rightarrow> 'a list option" where
  "slice_of xs lo hi = (if lo \<le> hi \<and> hi \<le> length xs then Some (take (hi - lo) (drop lo xs)) else None)"

text \<open>Go's \<open>copy(dst[off:], b)\<close>: panics when the subslice bound is out of range, and copies
  no more than fits.\<close>

definition copy_at :: "'a list \<Rightarrow> nat \<Rightarrow> 'a list \<Rightarrow> 'a list option" where
  "copy_at xs off b =
     (if off \<le> length xs then Some (overwrite off (take (length xs - off) b) xs) else None)"

lemma copy_at_fits: "off + length b \<le> length xs \<Longrightarrow> copy_at xs off b = Some (overwrite off b xs)"
  by (simp add: copy_at_def)

lemma copy_at_length: "copy_at xs off b = Some ys \<Longrightarrow> length ys = length xs"
  by (auto simp: copy_at_def overwrite_def min_def split: if_splits)

section \<open>\<open>bytes.Compare\<close>\<close>

fun bytes_compare :: "bytes \<Rightarrow> bytes \<Rightarrow> int" where
  "bytes_compare [] [] = 0"
| "bytes_compare [] (b # bs) = -1"
| "bytes_compare (a # as) [] = 1"
| "bytes_compare (a # as) (b # bs) =
     (if a < b then -1 else if b < a then 1 else bytes_compare as bs)"

lemma bytes_compare_neg [simp]: "bytes_compare a b < 0 \<longleftrightarrow> a < b"
  by (induction a b rule: bytes_compare.induct) auto

lemma bytes_compare_zero [simp]: "bytes_compare a b = 0 \<longleftrightarrow> a = b"
  by (induction a b rule: bytes_compare.induct) auto

lemma bytes_compare_nonneg [simp]: "0 \<le> bytes_compare a b \<longleftrightarrow> b \<le> a"
  using bytes_compare_neg [of a b] by (metis linorder_not_less)

lemma bytes_compare_pos [simp]: "0 < bytes_compare a b \<longleftrightarrow> b < a"
proof -
  have "0 < bytes_compare a b \<longleftrightarrow> 0 \<le> bytes_compare a b \<and> bytes_compare a b \<noteq> 0" by linarith
  also have "\<dots> \<longleftrightarrow> b < a" by (simp add: order_less_le) blast
  finally show ?thesis .
qed

section \<open>\<open>sort.Search\<close>\<close>

text \<open>The binary search of the standard library, for a predicate on indices; the second form
  takes a predicate whose evaluation may panic.\<close>

function search_loop :: "(nat \<Rightarrow> bool) \<Rightarrow> nat \<Rightarrow> nat \<Rightarrow> nat" where
  "search_loop f i j =
     (if i < j then
        (let h = (i + j) div 2 in if f h then search_loop f i h else search_loop f (h + 1) j)
      else i)"
  by pat_completeness auto
termination
  by (relation "measure (\<lambda>(f, i, j). j - i)") auto

declare search_loop.simps [simp del]

definition sort_search :: "nat \<Rightarrow> (nat \<Rightarrow> bool) \<Rightarrow> nat" where
  "sort_search n f = search_loop f 0 n"

function search_loop_opt :: "(nat \<Rightarrow> bool option) \<Rightarrow> nat \<Rightarrow> nat \<Rightarrow> nat option" where
  "search_loop_opt f i j =
     (if i < j then
        (let h = (i + j) div 2 in
         case f h of None \<Rightarrow> None
         | Some b \<Rightarrow> if b then search_loop_opt f i h else search_loop_opt f (h + 1) j)
      else Some i)"
  by pat_completeness auto
termination
  by (relation "measure (\<lambda>(f, i, j). j - i)") auto

declare search_loop_opt.simps [simp del]

definition sort_search_opt :: "nat \<Rightarrow> (nat \<Rightarrow> bool option) \<Rightarrow> nat option" where
  "sort_search_opt n f = search_loop_opt f 0 n"

lemma search_loop_bounds: "i \<le> j \<Longrightarrow> i \<le> search_loop f i j \<and> search_loop f i j \<le> j"
proof (induction f i j rule: search_loop.induct)
  case (1 f i j)
  show ?case
  proof (cases "i < j")
    case True
    let ?h = "(i + j) div 2"
    have h: "i \<le> ?h" "?h < j" using True by auto
    show ?thesis
    proof (cases "f ?h")
      case f: True
      then show ?thesis using "1.IH"(1) [OF True refl] True h
        by (auto simp: search_loop.simps [of f i j])
    next
      case f: False
      then show ?thesis using "1.IH"(2) [OF True refl] True h
        by (auto simp: search_loop.simps [of f i j])
    qed
  qed (use "1.prems" in \<open>auto simp: search_loop.simps [of f j j]\<close>)
qed

text \<open>On a predicate that is false below some index and true from there on, the search finds
  that index.\<close>

lemma search_loop_threshold:
  assumes "i \<le> k" "k \<le> j"
    and "\<And>h. i \<le> h \<Longrightarrow> h < j \<Longrightarrow> f h \<longleftrightarrow> k \<le> h"
  shows "search_loop f i j = k"
  using assms
proof (induction f i j rule: search_loop.induct)
  case (1 f i j)
  show ?case
  proof (cases "i < j")
    case True
    let ?h = "(i + j) div 2"
    have h: "i \<le> ?h" "?h < j" using True by auto
    show ?thesis
    proof (cases "f ?h")
      case f: True
      then have "search_loop f i ?h = k"
        using "1.IH"(1) [OF True refl f] "1.prems" h by auto
      then show ?thesis using True f by (simp add: search_loop.simps [of f i j] Let_def)
    next
      case f: False
      then have "search_loop f (?h + 1) j = k"
        using "1.IH"(2) [OF True refl f] "1.prems" h by auto
      then show ?thesis using True f by (simp add: search_loop.simps [of f i j] Let_def)
    qed
  qed (use "1.prems" in \<open>simp add: search_loop.simps [of f i j]\<close>)
qed

lemma sort_search_threshold:
  "k \<le> n \<Longrightarrow> (\<And>h. h < n \<Longrightarrow> f h \<longleftrightarrow> k \<le> h) \<Longrightarrow> sort_search n f = k"
  by (simp add: sort_search_def search_loop_threshold)

lemma sort_search_le: "sort_search n f \<le> n"
  using search_loop_bounds [of 0 n f] by (simp add: sort_search_def)

lemma search_loop_opt_total:
  assumes "\<And>h. i \<le> h \<Longrightarrow> h < j \<Longrightarrow> f h = Some (g h)"
  shows "search_loop_opt f i j = Some (search_loop g i j)"
  using assms
proof (induction g i j rule: search_loop.induct)
  case (1 g i j)
  show ?case
  proof (cases "i < j")
    case True
    let ?h = "(i + j) div 2"
    have h: "i \<le> ?h" "?h < j" using True by auto
    with "1.prems" have fh: "f ?h = Some (g ?h)" by blast
    show ?thesis
    proof (cases "g ?h")
      case g: True
      have "search_loop_opt f i ?h = Some (search_loop g i ?h)"
        using "1.IH"(1) [OF True refl g] "1.prems" h by auto
      then show ?thesis using True g fh
        by (simp add: search_loop.simps [of g i j] search_loop_opt.simps [of f i j] Let_def)
    next
      case g: False
      have "search_loop_opt f (?h + 1) j = Some (search_loop g (?h + 1) j)"
        using "1.IH"(2) [OF True refl g] "1.prems" h by auto
      then show ?thesis using True g fh
        by (simp add: search_loop.simps [of g i j] search_loop_opt.simps [of f i j] Let_def)
    qed
  qed (simp add: search_loop.simps [of g i j] search_loop_opt.simps [of f i j])
qed

lemma sort_search_opt_total:
  "(\<And>h. h < n \<Longrightarrow> f h = Some (g h)) \<Longrightarrow> sort_search_opt n f = Some (sort_search n g)"
  by (simp add: sort_search_def sort_search_opt_def search_loop_opt_total)

text \<open>On a list that is partitioned by a predicate, the search is the length of the prefix.\<close>

lemma sort_search_partition:
  "(\<And>x. x \<in> set xs \<Longrightarrow> \<not> f' x) \<Longrightarrow> (\<And>y. y \<in> set ys \<Longrightarrow> f' y) \<Longrightarrow>
   n = length xs + length ys \<Longrightarrow> (\<And>i. i < n \<Longrightarrow> f i = f' ((xs @ ys) ! i)) \<Longrightarrow>
   sort_search n f = length xs"
  by (rule sort_search_threshold) (auto simp: nth_append)

section \<open>\<open>binary.BigEndian\<close>\<close>

primrec be_enc :: "nat \<Rightarrow> nat \<Rightarrow> bytes" where
  "be_enc 0 v = []"
| "be_enc (Suc n) v = word_of_nat (v div 256 ^ n) # be_enc n v"

definition be_dec :: "bytes \<Rightarrow> nat" where
  "be_dec bs = foldl (\<lambda>a b. a * 256 + unat b) 0 bs"

lemma length_be_enc [simp]: "length (be_enc n v) = n"
  by (induction n) auto

lemma be_dec_foldl: "foldl (\<lambda>a b. a * 256 + unat (b :: u8)) a bs = a * 256 ^ length bs + be_dec bs"
proof -
  have "foldl (\<lambda>a b. a * 256 + unat (b :: u8)) a bs
      = a * 256 ^ length bs + foldl (\<lambda>a b. a * 256 + unat (b :: u8)) 0 bs" for a
  proof (induction bs arbitrary: a)
    case (Cons b bs)
    have "foldl (\<lambda>a b. a * 256 + unat b) a (b # bs)
        = (a * 256 + unat b) * 256 ^ length bs + foldl (\<lambda>a b. a * 256 + unat b) 0 bs"
      by (simp only: foldl_Cons Cons [of "a * 256 + unat b"])
    also have "\<dots> = a * 256 ^ length (b # bs)
        + (unat b * 256 ^ length bs + foldl (\<lambda>a b. a * 256 + unat b) 0 bs)"
      by (simp add: distrib_right)
    also have "unat b * 256 ^ length bs + foldl (\<lambda>a b. a * 256 + unat b) 0 bs
        = foldl (\<lambda>a b. a * 256 + unat b) 0 (b # bs)"
      by (simp only: foldl_Cons Cons [of "0 * 256 + unat b"]) simp
    finally show ?case .
  qed simp
  then show ?thesis unfolding be_dec_def .
qed

lemma be_dec_Nil [simp]: "be_dec [] = 0"
  by (simp add: be_dec_def)

lemma be_dec_Cons [simp]: "be_dec (b # bs) = unat b * 256 ^ length bs + be_dec bs"
  using be_dec_foldl [of "unat b" bs] by (simp add: be_dec_def)

lemma be_dec_less: "be_dec bs < 256 ^ length bs"
proof (induction bs)
  case (Cons b bs)
  have "unat b < 256" using unat_u8 [of b] by simp
  then have "Suc (unat b) * 256 ^ length bs \<le> 256 * 256 ^ length bs"
    by (intro mult_le_mono1) simp
  then show ?case using Cons unfolding be_dec_Cons mult_Suc length_Cons power_Suc by linarith
qed simp

lemma be_dec_enc: "be_dec (be_enc n v) = v mod 256 ^ n"
proof (induction n)
  case (Suc n)
  have "v mod 256 ^ Suc n = v mod (256 ^ n * 256)" by (simp add: mult.commute)
  also have "\<dots> = 256 ^ n * (v div 256 ^ n mod 256) + v mod 256 ^ n"
    by (rule mod_mult2_eq)
  finally show ?case
    using Suc by (simp add: unat_of_nat take_bit_eq_mod mult.commute)
qed simp

lemma be_enc_dec_append: "be_enc (length bs) (a * 256 ^ length bs + be_dec bs) = bs"
proof (induction bs arbitrary: a)
  case (Cons b bs)
  have eq: "a * 256 ^ length (b # bs) + be_dec (b # bs)
      = (a * 256 + unat b) * 256 ^ length bs + be_dec bs"
    by (simp add: algebra_simps)
  have "(256 :: u8) = 0" by (simp add: word_unat_eq_iff)
  then have high: "word_of_nat a * (256 :: u8) = 0" by (simp only: mult_zero_right)
  have "(((a * 256 + unat b) * 256 ^ length bs + be_dec bs) div 256 ^ length bs)
      = a * 256 + unat b"
    using be_dec_less [of bs] by simp
  then have "be_enc (length (b # bs)) (a * 256 ^ length (b # bs) + be_dec (b # bs))
      = word_of_nat (a * 256 + unat b)
          # be_enc (length bs) ((a * 256 + unat b) * 256 ^ length bs + be_dec bs)"
    unfolding eq by simp
  also have "\<dots> = b # bs"
    unfolding Cons [of "a * 256 + unat b"] by (simp add: high)
  finally show ?case .
qed simp

lemma be_enc_dec: "n = length bs \<Longrightarrow> be_enc n (be_dec bs) = bs"
  using be_enc_dec_append [of bs 0] by simp

text \<open>Big-endian strings of one length compare as the numbers they encode: this is what makes
  them keys.\<close>

lemma be_dec_less_iff: "length xs = length ys \<Longrightarrow> be_dec xs < be_dec ys \<longleftrightarrow> xs < ys"
proof (induction xs ys rule: list_induct2)
  case (Cons x xs y ys)
  have bx: "be_dec xs < 256 ^ length ys" using be_dec_less [of xs] Cons by simp
  have by': "be_dec ys < 256 ^ length ys" using be_dec_less [of ys] by simp
  consider "x < y" | "x = y" | "y < x" by fastforce
  then show ?case
  proof cases
    case 1
    then have "Suc (unat x) \<le> unat y" by (simp add: word_less_nat_alt)
    then have "Suc (unat x) * 256 ^ length ys \<le> unat y * 256 ^ length ys"
      by (rule mult_le_mono1)
    with bx show ?thesis using 1 Cons(1) by simp
  next
    case 2
    then show ?thesis using Cons by simp
  next
    case 3
    then have "Suc (unat y) \<le> unat x" by (simp add: word_less_nat_alt)
    then have "Suc (unat y) * 256 ^ length ys \<le> unat x * 256 ^ length ys"
      by (rule mult_le_mono1)
    with by' have "be_dec (y # ys) < be_dec (x # xs)" using Cons(1) by simp
    then show ?thesis using 3 by auto
  qed
qed simp

text \<open>Fixed-width reads and writes at an offset, as \<open>BigEndian.Uint16(p[off:])\<close> and
  \<open>BigEndian.PutUint16(p[off:], v)\<close> where the subslice is long enough.\<close>

definition get16 :: "bytes \<Rightarrow> nat \<Rightarrow> u16" where
  "get16 p off = word_of_nat (be_dec (subslice off 2 p))"

definition get32 :: "bytes \<Rightarrow> nat \<Rightarrow> u32" where
  "get32 p off = word_of_nat (be_dec (subslice off 4 p))"

definition put16 :: "bytes \<Rightarrow> nat \<Rightarrow> u16 \<Rightarrow> bytes" where
  "put16 p off v = overwrite off (be_enc 2 (unat v)) p"

definition put32 :: "bytes \<Rightarrow> nat \<Rightarrow> u32 \<Rightarrow> bytes" where
  "put32 p off v = overwrite off (be_enc 4 (unat v)) p"

lemma length_put16 [simp]: "off + 2 \<le> length p \<Longrightarrow> length (put16 p off v) = length p"
  by (simp add: put16_def)

lemma length_put32 [simp]: "off + 4 \<le> length p \<Longrightarrow> length (put32 p off v) = length p"
  by (simp add: put32_def)

lemma get16_put16_same [slice_simps]: "off + 2 \<le> length p \<Longrightarrow> get16 (put16 p off v) off = v"
  using unat_u16 [of v]
  by (simp add: get16_def put16_def subslice_overwrite_same be_dec_enc)

lemma get32_put32_same [slice_simps]: "off + 4 \<le> length p \<Longrightarrow> get32 (put32 p off v) off = v"
  using unat_u32 [of v]
  by (simp add: get32_def put32_def subslice_overwrite_same be_dec_enc)

lemma subslice_put16_other [slice_simps]:
  "off' + 2 \<le> length p \<Longrightarrow> off + n \<le> off' \<or> off' + 2 \<le> off \<Longrightarrow>
   subslice off n (put16 p off' v) = subslice off n p"
  by (auto simp: put16_def subslice_overwrite_before subslice_overwrite_after)

lemma subslice_put32_other [slice_simps]:
  "off' + 4 \<le> length p \<Longrightarrow> off + n \<le> off' \<or> off' + 4 \<le> off \<Longrightarrow>
   subslice off n (put32 p off' v) = subslice off n p"
  by (auto simp: put32_def subslice_overwrite_before subslice_overwrite_after)

lemma get16_overwrite_other [slice_simps]:
  "off' + length b \<le> length p \<Longrightarrow> off + 2 \<le> off' \<or> off' + length b \<le> off \<Longrightarrow>
   get16 (overwrite off' b p) off = get16 p off"
  by (auto simp: get16_def subslice_overwrite_before subslice_overwrite_after)

lemma get32_overwrite_other [slice_simps]:
  "off' + length b \<le> length p \<Longrightarrow> off + 4 \<le> off' \<or> off' + length b \<le> off \<Longrightarrow>
   get32 (overwrite off' b p) off = get32 p off"
  by (auto simp: get32_def subslice_overwrite_before subslice_overwrite_after)

lemma get16_put_other [slice_simps]:
  "off' + 2 \<le> length p \<Longrightarrow> off + 2 \<le> off' \<or> off' + 2 \<le> off \<Longrightarrow>
   get16 (put16 p off' v) off = get16 p off"
  "off' + 4 \<le> length p \<Longrightarrow> off + 2 \<le> off' \<or> off' + 4 \<le> off \<Longrightarrow>
   get16 (put32 p off' w) off = get16 p off"
  by (auto simp: get16_def subslice_put16_other subslice_put32_other)

lemma get32_put_other [slice_simps]:
  "off' + 2 \<le> length p \<Longrightarrow> off + 4 \<le> off' \<or> off' + 2 \<le> off \<Longrightarrow>
   get32 (put16 p off' v) off = get32 p off"
  "off' + 4 \<le> length p \<Longrightarrow> off + 4 \<le> off' \<or> off' + 4 \<le> off \<Longrightarrow>
   get32 (put32 p off' w) off = get32 p off"
  by (auto simp: get32_def subslice_put16_other subslice_put32_other)

lemma get_cong_subslice:
  "subslice off 2 p = subslice off 2 q \<Longrightarrow> get16 p off = get16 q off"
  "subslice off 4 p = subslice off 4 q \<Longrightarrow> get32 p off = get32 q off"
  by (simp_all add: get16_def get32_def)

end
