(* ===== verification/Core.thy ===== *)
theory Core
  imports Prelude
begin

text \<open>
  Package \<open>core\<close>: page identifiers, row identifiers, and the three shared errors.  The
  errors of the other packages are datatypes of their own theories; a core error that one of
  them passes on is wrapped there.
\<close>

type_synonym PageID = u32

record RowID =
  Page :: PageID
  Slot :: u16

datatype core_error = ErrNotFound | ErrShortPage | ErrCoreCorrupt

text \<open>The zero value \<open>core.RowID{}\<close>.\<close>

definition zeroRowID :: RowID where
  "zeroRowID = \<lparr>Page = 0, Slot = 0\<rparr>"

end
