(* ===== verification/Codec.thy ===== *)
theory Codec
  imports Core
begin

text \<open>
  Package \<open>codec\<close>: the compact value encoding (\<open>varint.go\<close>, \<open>value.go\<close>) and the
  order-preserving key encoding (\<open>key.go\<close>).  An \<open>int64\<close> is a \<open>64 word\<close> read by
  \<open>sint\<close>; a \<open>float64\<close> is its IEEE-754 bit pattern, a \<open>64 word\<close>, which is how
  \<open>math.Float64bits\<close> shows it to this package.  A decoder returns the value and the
  number of bytes it used, or an error.
\<close>

type_synonym i64 = "64 word"
type_synonym f64 = "64 word"

datatype codec_error = ErrTruncated | ErrOverflow

section \<open>Varints (\<open>varint.go\<close>)\<close>

definition MaxVarintLen64 :: nat where
  "MaxVarintLen64 = 10"

lemma drop_bit7_less: "(0x80 :: u64) \<le> v \<Longrightarrow> unat (drop_bit 7 v) < unat v"
  by (simp add: drop_bit_eq_div word_le_nat_alt unat_div)

function AppendUvarint :: "bytes \<Rightarrow> u64 \<Rightarrow> bytes" where
  "AppendUvarint dst v =
     (if 0x80 \<le> v then AppendUvarint (dst @ [ucast v OR 0x80]) (drop_bit 7 v)
      else dst @ [ucast v])"
  by pat_completeness auto

termination
  by (relation "measure (\<lambda>(dst, v). unat v)") (auto simp: drop_bit7_less)

declare AppendUvarint.simps [simp del]

fun uvarint_loop :: "bytes \<Rightarrow> nat \<Rightarrow> u64 \<Rightarrow> nat \<Rightarrow> codec_error + u64 \<times> nat" where
  "uvarint_loop [] i x s = Inl ErrTruncated"
| "uvarint_loop (b # src) i x s =
     (if i = MaxVarintLen64 - 1 \<and> 1 < b then Inl ErrOverflow
      else if b < 0x80 then Inr (x OR push_bit s (ucast b), i + 1)
      else uvarint_loop src (i + 1) (x OR push_bit s (ucast (b AND 0x7f))) (s + 7))"

definition Uvarint :: "bytes \<Rightarrow> codec_error + u64 \<times> nat" where
  "Uvarint src = uvarint_loop src 0 0 0"

function uvarint_len_loop :: "u64 \<Rightarrow> nat \<Rightarrow> nat" where
  "uvarint_len_loop v n = (if 0x80 \<le> v then uvarint_len_loop (drop_bit 7 v) (n + 1) else n)"
  by pat_completeness auto
termination
  by (relation "measure (\<lambda>(v, n). unat v)") (auto simp: drop_bit7_less)

declare uvarint_len_loop.simps [simp del]

definition UvarintLen :: "u64 \<Rightarrow> nat" where
  "UvarintLen v = uvarint_len_loop v 1"

definition zigzag :: "i64 \<Rightarrow> u64" where
  "zigzag v = push_bit 1 v XOR signed_drop_bit 63 v"

definition unzigzag :: "u64 \<Rightarrow> i64" where
  "unzigzag u = drop_bit 1 u XOR (- (u AND 1))"

definition AppendVarint :: "bytes \<Rightarrow> i64 \<Rightarrow> bytes" where
  "AppendVarint dst v = AppendUvarint dst (zigzag v)"

definition Varint :: "bytes \<Rightarrow> codec_error + i64 \<times> nat" where
  "Varint src = (case Uvarint src of Inl e \<Rightarrow> Inl e | Inr (u, n) \<Rightarrow> Inr (unzigzag u, n))"

section \<open>Keys (\<open>key.go\<close>)\<close>

definition signBit :: u64 where
  "signBit = push_bit 63 1"

definition AppendKeyUint64 :: "bytes \<Rightarrow> u64 \<Rightarrow> bytes" where
  "AppendKeyUint64 dst v = dst @ be_enc 8 (unat v)"

definition KeyUint64 :: "bytes \<Rightarrow> codec_error + u64 \<times> nat" where
  "KeyUint64 src =
     (if length src < 8 then Inl ErrTruncated
      else Inr (word_of_nat (be_dec (take 8 src)), 8))"

definition AppendKeyInt64 :: "bytes \<Rightarrow> i64 \<Rightarrow> bytes" where
  "AppendKeyInt64 dst v = dst @ be_enc 8 (unat (v XOR signBit))"

definition KeyInt64 :: "bytes \<Rightarrow> codec_error + i64 \<times> nat" where
  "KeyInt64 src =
     (if length src < 8 then Inl ErrTruncated
      else Inr (word_of_nat (be_dec (take 8 src)) XOR signBit, 8))"

text \<open>The float primitives of the language and of package \<open>math\<close>, on bit patterns:
  comparison with zero, \<open>math.IsNaN\<close>, and the pattern of \<open>math.NaN()\<close>.\<close>

definition f64_abs :: "f64 \<Rightarrow> u64" where
  "f64_abs f = f AND mask 63"

definition f64_is_zero :: "f64 \<Rightarrow> bool" where
  "f64_is_zero f \<longleftrightarrow> f64_abs f = 0"

definition IsNaN :: "f64 \<Rightarrow> bool" where
  "IsNaN f \<longleftrightarrow> 0x7FF0000000000000 < f64_abs f"

definition f64_NaN :: f64 where
  "f64_NaN = 0x7FF8000000000001"

definition AppendKeyFloat64 :: "bytes \<Rightarrow> f64 \<Rightarrow> bytes" where
  "AppendKeyFloat64 dst f =
     (let f = (if f64_is_zero f then 0 else f);
          f = (if IsNaN f then f64_NaN else f);
          b = (if f AND signBit \<noteq> 0 then NOT f else f OR signBit)
      in dst @ be_enc 8 (unat b))"

definition KeyFloat64 :: "bytes \<Rightarrow> codec_error + f64 \<times> nat" where
  "KeyFloat64 src =
     (if length src < 8 then Inl ErrTruncated
      else
        (let b = word_of_nat (be_dec (take 8 src)) :: u64;
             b = (if b AND signBit \<noteq> 0 then b AND NOT signBit else NOT b)
         in Inr (b, 8)))"

definition AppendKeyString :: "bytes \<Rightarrow> bytes \<Rightarrow> bytes" where
  "AppendKeyString dst s = dst @ s"

section \<open>Values (\<open>value.go\<close>)\<close>

definition AppendUint64 :: "bytes \<Rightarrow> u64 \<Rightarrow> bytes" where
  "AppendUint64 dst v = AppendUvarint dst v"

definition Uint64 :: "bytes \<Rightarrow> codec_error + u64 \<times> nat" where
  "Uint64 src = Uvarint src"

definition AppendInt64 :: "bytes \<Rightarrow> i64 \<Rightarrow> bytes" where
  "AppendInt64 dst v = AppendVarint dst v"

definition Int64 :: "bytes \<Rightarrow> codec_error + i64 \<times> nat" where
  "Int64 src = Varint src"

definition AppendBool :: "bytes \<Rightarrow> bool \<Rightarrow> bytes" where
  "AppendBool dst b = (if b then dst @ [1] else dst @ [0])"

fun Bool :: "bytes \<Rightarrow> codec_error + bool \<times> nat" where
  "Bool [] = Inl ErrTruncated"
| "Bool (b # src) = Inr (b \<noteq> 0, 1)"

definition AppendFloat64 :: "bytes \<Rightarrow> f64 \<Rightarrow> bytes" where
  "AppendFloat64 dst f = dst @ be_enc 8 (unat f)"

definition Float64 :: "bytes \<Rightarrow> codec_error + f64 \<times> nat" where
  "Float64 src =
     (if length src < 8 then Inl ErrTruncated
      else Inr (word_of_nat (be_dec (take 8 src)), 8))"

text \<open>\<open>uint64(len(b))\<close>: the length of a Go slice is below \<open>2^63\<close>.\<close>

definition AppendBytes :: "bytes \<Rightarrow> bytes \<Rightarrow> bytes" where
  "AppendBytes dst b = AppendUvarint dst (word_of_nat (length b)) @ b"

definition BytesRef :: "bytes \<Rightarrow> codec_error + bytes \<times> nat" where
  "BytesRef src =
     (case Uvarint src of
        Inl e \<Rightarrow> Inl e
      | Inr (n, hdr) \<Rightarrow>
          if unat n > length src then Inl ErrTruncated
          else
            (let e = hdr + unat n in
             if e > length src \<or> e < hdr then Inl ErrTruncated
             else Inr (take (e - hdr) (drop hdr src), e)))"

definition Bytes :: "bytes \<Rightarrow> codec_error + bytes \<times> nat" where
  "Bytes src =
     (case BytesRef src of Inl e \<Rightarrow> Inl e
      | Inr (ref, n) \<Rightarrow> (let out = replicate (length ref) 0 in Inr (overwrite 0 ref out, n)))"

definition AppendString :: "bytes \<Rightarrow> bytes \<Rightarrow> bytes" where
  "AppendString dst s = AppendUvarint dst (word_of_nat (length s)) @ s"

definition String :: "bytes \<Rightarrow> codec_error + bytes \<times> nat" where
  "String src = (case BytesRef src of Inl e \<Rightarrow> Inl e | Inr (b, n) \<Rightarrow> Inr (b, n))"

section \<open>Varint round trip\<close>

text \<open>The bytes a varint appends, without the buffer it appends them to.\<close>


function uvarint_bytes :: "u64 \<Rightarrow> bytes" where
  "uvarint_bytes v =
     (if 0x80 \<le> v then (ucast v OR 0x80) # uvarint_bytes (drop_bit 7 v) else [ucast v])"
  by pat_completeness auto
termination
  by (relation "measure unat") (auto simp: drop_bit7_less)

declare uvarint_bytes.simps [simp del]

lemma AppendUvarint_bytes: "AppendUvarint dst v = dst @ uvarint_bytes v"
proof (induction dst v rule: AppendUvarint.induct)
  case (1 dst v)
  then show ?case
    by (cases "0x80 \<le> v") (simp_all add: AppendUvarint.simps [of dst v] uvarint_bytes.simps [of v])
qed

lemma uvarint_len_loop_bytes: "uvarint_len_loop v (Suc n) = n + length (uvarint_bytes v)"
proof (induction v "Suc n" arbitrary: n rule: uvarint_len_loop.induct)
  case (1 v)
  then show ?case
    by (cases "0x80 \<le> v")
      (simp_all add: uvarint_len_loop.simps [of v] uvarint_bytes.simps [of v])
qed

lemma UvarintLen_bytes: "UvarintLen v = length (uvarint_bytes v)"
  using uvarint_len_loop_bytes [of v 0] by (simp add: UvarintLen_def)

lemma bit_imp_exp_le: "bit (w :: 'a::len word) k \<Longrightarrow> 2 ^ k \<le> unat w"
proof (rule ccontr)
  assume "bit w k" "\<not> 2 ^ k \<le> unat w"
  then have "bit (unat w) k" by (simp add: bit_unsigned_iff)
  moreover have "unat w div 2 ^ k = 0" using \<open>\<not> 2 ^ k \<le> unat w\<close> by simp
  ultimately show False by (simp add: bit_iff_odd)
qed

lemma bit_0x80: "n < 8 \<Longrightarrow> bit (0x80 :: u8) n \<longleftrightarrow> n = 7"
proof -
  assume "n < 8"
  then have "n = 0 \<or> n = 1 \<or> n = 2 \<or> n = 3 \<or> n = 4 \<or> n = 5 \<or> n = 6 \<or> n = 7" by arith
  then show ?thesis by auto
qed

lemma low7: "(w OR 0x80 :: u8) AND 0x7f = w AND mask 7"
proof -
  have m: "(0x7f :: u8) = mask 7" by (simp add: mask_eq_exp_minus_1)
  have h: "\<not> bit (0x80 :: u8) n" if "n < 7" for n using that bit_0x80 [of n] by simp
  show ?thesis unfolding m
  proof (rule bit_word_eqI)
    fix n
    show "bit ((w OR 0x80 :: u8) AND mask 7) n = bit (w AND mask 7) n"
      unfolding bit_and_iff bit_or_iff bit_mask_iff using h by blast
  qed
qed

lemma join_low_high:
  "(x OR push_bit s (ucast ((ucast v OR 0x80 :: u8) AND 0x7f))) OR push_bit (s + 7) (drop_bit 7 v)
     = x OR push_bit s (v :: u64)"
  unfolding low7
proof (rule bit_word_eqI)
  fix n
  have "7 + (n - (s + 7)) = n - s" if "s + 7 \<le> n" using that by simp
  moreover have "n - s < 7" if "\<not> s + 7 \<le> n" using that by simp
  ultimately show "bit ((x OR push_bit s (ucast (ucast v AND mask 7 :: u8))) OR push_bit (s + 7) (drop_bit 7 v)) n
      = bit (x OR push_bit s v) n"
    by (cases "s + 7 \<le> n") (auto simp: bit_simps)
qed

lemma high_byte: "\<not> (ucast v OR 0x80 :: u8) < 0x80"
proof -
  have "bit (ucast v OR 0x80 :: u8) 7" by (simp add: bit_or_iff bit_0x80)
  from bit_imp_exp_le [OF this] show ?thesis by (simp add: word_less_nat_alt)
qed

lemma unat_drop7: "unat (drop_bit 7 v) = unat (v :: u64) div 128"
  by (simp add: drop_bit_eq_div unat_div)

lemma uvarint_loop_roundtrip:
  "unat v < 2 ^ (64 - 7 * i) \<Longrightarrow> i \<le> 9 \<Longrightarrow>
   uvarint_loop (uvarint_bytes v @ rest) i x (7 * i)
     = Inr (x OR push_bit (7 * i) v, i + length (uvarint_bytes v))"
proof (induction v arbitrary: i x rule: uvarint_bytes.induct)
  case (1 v)
  show ?case
  proof (cases "0x80 \<le> v")
    case True
    have i: "i < 9"
    proof (rule ccontr)
      assume "\<not> i < 9"
      with "1.prems" have "unat v < 2" by simp
      with True show False by (simp add: word_le_nat_alt)
    qed
    have "(2::nat) ^ (64 - 7 * i) = 2 ^ (64 - 7 * Suc i) * 128"
    proof -
      have "64 - 7 * i = (64 - 7 * Suc i) + 7" using i by simp
      then have "(2::nat) ^ (64 - 7 * i) = 2 ^ ((64 - 7 * Suc i) + 7)" by (rule arg_cong)
      also have "\<dots> = 2 ^ (64 - 7 * Suc i) * 2 ^ 7" by (rule power_add)
      finally show ?thesis by (simp only: power_numeral) simp
    qed
    with "1.prems" have "unat (drop_bit 7 v) < 2 ^ (64 - 7 * Suc i)"
      by (simp add: unat_drop7 less_mult_imp_div_less)
    from "1.IH" [OF True this, of "x OR push_bit (7 * i) (ucast ((ucast v OR 0x80 :: u8) AND 0x7f))"] i
    show ?thesis using True i
      by (simp add: uvarint_bytes.simps [of v] MaxVarintLen64_def high_byte join_low_high
          add.commute [of 7])
  next
    case False
    then have v: "unat v < 128" by (simp add: word_le_nat_alt)
    then have u: "ucast (ucast v :: u8) = v"
      by (simp add: word_unat_eq_iff unsigned_ucast_eq take_bit_eq_mod unat_mod)
    have small: "(ucast v :: u8) < 0x80"
      using v by (simp add: word_less_nat_alt unsigned_ucast_eq take_bit_eq_mod)
    have "\<not> (i = 9 \<and> 1 < (ucast v :: u8))"
      using "1.prems" v by (auto simp: word_less_nat_alt unsigned_ucast_eq take_bit_eq_mod)
    then show ?thesis using False small u
      by (auto simp: uvarint_bytes.simps [of v] MaxVarintLen64_def)
  qed
qed

lemma Uvarint_roundtrip:
  "Uvarint (AppendUvarint [] v @ rest) = Inr (v, UvarintLen v)"
  using uvarint_loop_roundtrip [of v 0 rest 0] unat_u64 [of v]
  by (simp add: Uvarint_def AppendUvarint_bytes UvarintLen_bytes)

lemma uvarint_loop_bounds:
  "uvarint_loop src i x s = Inr (v, n) \<Longrightarrow> i \<le> 9 \<Longrightarrow> i < n \<and> n \<le> i + length src \<and> n \<le> 10"
proof (induction src i x s rule: uvarint_loop.induct)
  case (2 b src i x s)
  show ?case
  proof (cases "b < 0x80")
    case False
    then have "\<not> (i = 9 \<and> 1 < b)" "uvarint_loop src (i + 1) (x OR push_bit s (ucast (b AND 0x7f))) (s + 7) = Inr (v, n)"
      using "2.prems" by (auto simp: MaxVarintLen64_def split: if_splits)
    moreover from this False have "i + 1 \<le> 9" 
      using \<open>i \<le> 9\<close> by (cases "i = 9") (auto simp: word_less_nat_alt)
    ultimately show ?thesis using "2.IH" False by (auto simp: MaxVarintLen64_def)
  qed (use "2.prems" in \<open>auto simp: MaxVarintLen64_def split: if_splits\<close>)
qed simp

section \<open>Zigzag and signed keys\<close>


lemma zigzag_alt: "zigzag v = push_bit 1 v XOR (if sint v < 0 then -1 else 0)"
proof -
  have s: "bit v 63 \<longleftrightarrow> sint v < 0" using bit_last_iff [of v] by simp
  have "signed_drop_bit 63 v = (if bit v 63 then -1 else 0)"
  proof (rule bit_word_eqI)
    fix n assume "n < LENGTH(64)"
    then show "bit (signed_drop_bit 63 v) n = bit (if bit v 63 then -1 else 0 :: i64) n"
      by (cases "n = 0") (auto simp: bit_signed_drop_bit_iff)
  qed
  then show ?thesis by (simp add: zigzag_def s)
qed

lemma bit_zigzag:
  "bit (zigzag v) n \<longleftrightarrow> ((1 \<le> n \<and> n < 64 \<and> bit v (n - 1)) \<noteq> (n < 64 \<and> sint v < 0))"
  unfolding zigzag_alt bit_xor_iff bit_push_bit_iff by auto

lemma unzigzag_zigzag: "unzigzag (zigzag v) = v"
proof -
  have s: "bit v 63 \<longleftrightarrow> sint v < 0" using bit_last_iff [of v] by simp
  have "odd (zigzag v) \<longleftrightarrow> sint v < 0"
    unfolding bit_0 [symmetric] bit_zigzag by simp
  then have m: "- (zigzag v AND 1) = (if sint v < 0 then -1 else 0)"
    by (simp add: and_one_eq mod_2_eq_odd)
  show ?thesis
  proof (rule bit_word_eqI)
    fix n assume "n < LENGTH(64)"
    then show "bit (unzigzag (zigzag v)) n = bit v n"
      unfolding unzigzag_def m bit_xor_iff bit_drop_bit_eq o_apply bit_zigzag
      by (cases "n = 63") (auto simp: s)
  qed
qed

lemma sint_bounds: "- (2 ^ 63) \<le> sint (v :: i64)" "sint v < 2 ^ 63"
  using sint_greater_eq [of v] sint_less [of v] by simp_all

lemma uint_zigzag: "uint (zigzag v) = (if sint v < 0 then - 2 * sint v - 1 else 2 * sint v)"
proof -
  have p: "push_bit 1 v = word_of_int (2 * sint v)" by (simp add: push_bit_eq_mult mult.commute)
  have "zigzag v = word_of_int (if sint v < 0 then - 2 * sint v - 1 else 2 * sint v)"
    unfolding zigzag_alt p by (simp add: not_eq_complement)
  then show ?thesis using sint_bounds [of v]
    by (simp add: uint_word_of_int_eq take_bit_int_eq_self)
qed

lemma xor_signBit: "v XOR signBit = v + signBit"
proof -
  have clear: "w XOR signBit = w + signBit" if "\<not> bit w 63" for w :: u64
  proof -
    have "w AND signBit = 0"
      unfolding signBit_def
    proof (rule bit_word_eqI)
      fix n assume "n < LENGTH(64)"
      then have "63 \<le> n \<Longrightarrow> n = 63" by simp
      then show "bit (w AND push_bit 63 1) n = bit (0 :: u64) n"
        unfolding bit_and_iff bit_push_bit_iff bit_1_iff using that by auto
    qed
    then show ?thesis by (rule disjunctive_add_eq_xor [symmetric])
  qed
  show ?thesis
  proof (cases "bit v 63")
    case True
    then have "\<not> bit (v XOR signBit) 63" by (simp add: bit_xor_iff signBit_def bit_push_bit_iff)
    from clear [OF this] have "v = (v XOR signBit) + signBit" by (simp add: xor.assoc)
    moreover have "signBit + signBit = 0" by (simp add: signBit_def)
    ultimately show ?thesis by (metis add.assoc add.right_neutral)
  qed (rule clear)
qed

lemma uint_flip: "uint (v XOR signBit) = sint (v :: i64) + 2 ^ 63"
proof -
  have "uint (v + signBit) = take_bit 64 (uint v + 2 ^ 63)"
    by (simp add: signBit_def uint_word_ariths take_bit_eq_mod)
  moreover have "sint v = take_bit (Suc 63) (uint v + 2 ^ 63) - 2 ^ 63"
    unfolding sint_uint by (simp add: signed_take_bit_eq_take_bit_shift)
  ultimately show ?thesis by (simp add: xor_signBit)
qed

lemma be_enc8_less [simp]: "be_enc 8 (unat a) < be_enc 8 (unat b) \<longleftrightarrow> (a :: u64) < b"
  using be_dec_less_iff [of "be_enc 8 (unat a)" "be_enc 8 (unat b)"] unat_u64 [of a] unat_u64 [of b]
  by (simp add: be_dec_enc word_less_nat_alt)

lemma be_dec_enc8 [simp]: "word_of_nat (be_dec (be_enc 8 (unat a))) = (a :: u64)"
  using unat_u64 [of a] by (simp add: be_dec_enc)

lemma be_enc8_eq [simp]: "be_enc 8 (unat a) = be_enc 8 (unat b) \<longleftrightarrow> (a :: u64) = b"
  by (metis be_dec_enc8)

lemma AppendKeyInt64_order:
  "AppendKeyInt64 [] a < AppendKeyInt64 [] b \<longleftrightarrow> sint a < sint b"
  by (simp add: AppendKeyInt64_def word_less_def uint_flip)

lemma KeyInt64_AppendKeyInt64:
  "KeyInt64 (AppendKeyInt64 [] v @ rest) = Inr (v, 8)"
  by (simp add: KeyInt64_def AppendKeyInt64_def xor.assoc)

section \<open>The order of float keys\<close>

text \<open>
  The value of a finite \<open>float64\<close>, exactly, as an integer multiple of \<open>2^(-1074)\<close>:
  exponent field \<open>e\<close> and fraction field \<open>f\<close> denote \<open>f\<close> units when \<open>e = 0\<close>
  and \<open>(2^52 + f) * 2^(e - 1)\<close> units otherwise.  An infinity gets the value the next
  exponent would have, which is beyond every finite value.
\<close>


definition f64_scaled :: "nat \<Rightarrow> nat" where
  "f64_scaled m =
     (let e = m div 2 ^ 52; f = m mod 2 ^ 52
      in if e = 0 then f else (2 ^ 52 + f) * 2 ^ (e - 1))"

definition f64_value :: "f64 \<Rightarrow> int" where
  "f64_value f = (if bit f 63 then - int (f64_scaled (unat (f64_abs f)))
                  else int (f64_scaled (unat (f64_abs f))))"

lemma f64_scaled_Suc: "f64_scaled m < f64_scaled (Suc m)"
proof (cases "Suc (m mod 2 ^ 52) = 2 ^ 52")
  case True
  then have "Suc m div 2 ^ 52 = Suc (m div 2 ^ 52)" "Suc m mod 2 ^ 52 = 0"
    by (simp_all add: div_Suc mod_Suc)
  moreover have "m mod 2 ^ 52 < 2 ^ 52" by simp
  ultimately show ?thesis
    by (cases "m div 2 ^ 52") (simp_all add: f64_scaled_def)
next
  case False
  then have "Suc m div 2 ^ 52 = m div 2 ^ 52" "Suc m mod 2 ^ 52 = Suc (m mod 2 ^ 52)"
    by (simp_all add: div_Suc mod_Suc)
  then show ?thesis by (simp add: f64_scaled_def Let_def)
qed

lemma f64_scaled_less [simp]: "f64_scaled m < f64_scaled n \<longleftrightarrow> m < n"
  using strict_mono_less [of f64_scaled] f64_scaled_Suc by (simp add: strict_mono_Suc_iff)

lemma f64_scaled_eq [simp]: "f64_scaled m = f64_scaled n \<longleftrightarrow> m = n"
  by (metis f64_scaled_less linorder_neq_iff)

lemma f64_scaled_0 [simp]: "f64_scaled 0 = 0"
  by (simp add: f64_scaled_def)

definition f64_canon :: "f64 \<Rightarrow> f64" where
  "f64_canon f = (if f64_is_zero f then 0 else if IsNaN f then f64_NaN else f)"

definition f64_key_word :: "f64 \<Rightarrow> u64" where
  "f64_key_word f = (if bit f 63 then NOT f else f OR signBit)"

lemma and_signBit [simp]: "w AND signBit = 0 \<longleftrightarrow> \<not> bit (w :: u64) 63"
proof -
  have "signBit = 2 ^ 63" by (simp add: signBit_def)
  show ?thesis unfolding \<open>signBit = 2 ^ 63\<close> by (rule and_exp_eq_0_iff_not_bit)
qed

lemma AppendKeyFloat64_alt: "AppendKeyFloat64 dst f = dst @ be_enc 8 (unat (f64_key_word (f64_canon f)))"
proof -
  have "\<not> IsNaN 0" by (simp add: IsNaN_def f64_abs_def)
  then show ?thesis
    by (auto simp: AppendKeyFloat64_def f64_canon_def f64_key_word_def Let_def)
qed

lemma unat_f64: "unat f = (if bit f 63 then 2 ^ 63 else 0) + unat (f64_abs f)"
  and unat_f64_abs: "unat (f64_abs f) < 2 ^ 63"
proof -
  have a: "unat (f64_abs f) = unat f mod 2 ^ 63"
    unfolding f64_abs_def take_bit_eq_mask [symmetric] unsigned_take_bit_eq by (simp add: take_bit_eq_mod)
  then show "unat (f64_abs f) < 2 ^ 63" by simp
  have "bit f 63 \<longleftrightarrow> bit (unat f) 63" by (simp add: bit_unsigned_iff)
  then have b: "bit f 63 \<longleftrightarrow> odd (unat f div 2 ^ 63)" by (simp only: bit_iff_odd)
  have "unat f div 2 ^ 63 < 2" using unat_u64 [of f] by (simp add: less_mult_imp_div_less)
  then have "unat f div 2 ^ 63 = 0 \<or> unat f div 2 ^ 63 = 1" by auto
  then show "unat f = (if bit f 63 then 2 ^ 63 else 0) + unat (f64_abs f)"
    unfolding a b using div_mult_mod_eq [of "unat f" "2 ^ 63"] by (elim disjE) (simp_all only:, simp_all)
qed

lemma unat_f64_key_word:
  "unat (f64_key_word f) =
     (if bit f 63 then 2 ^ 63 - 1 - unat (f64_abs f) else 2 ^ 63 + unat (f64_abs f))"
proof (cases "bit f 63")
  case True
  have "NOT f = - 1 - f" by (simp only: not_eq_complement diff_conv_add_uminus add.commute)
  then have "unat (NOT f) = unat (- 1 - f)" by (rule arg_cong)
  also have "\<dots> = unat (- 1 :: u64) - unat f" by (rule unat_sub) simp
  also have "unat (- 1 :: u64) = 2 ^ 64 - 1" by (simp add: unsigned_minus_1_eq_mask mask_eq_exp_minus_1)
  finally show ?thesis using True unat_f64 [of f] by (simp add: f64_key_word_def)
next
  case False
  then have "f AND signBit = 0" by simp
  then have "f OR signBit = f + signBit" by (rule disjunctive_add_eq_or [symmetric])
  moreover have "unat (f + signBit) = unat f + 2 ^ 63"
    using False unat_f64 [of f] unat_f64_abs [of f] by (simp add: unat_word_ariths signBit_def)
  ultimately show ?thesis using False unat_f64 [of f] by (simp add: f64_key_word_def)
qed

lemma f64_key_word_num:
  assumes "\<not> IsNaN f"
  shows "unat (f64_key_word (f64_canon f)) =
    (if bit f 63 \<and> unat (f64_abs f) \<noteq> 0 then 2 ^ 63 - 1 - unat (f64_abs f)
     else 2 ^ 63 + unat (f64_abs f))"
proof (cases "f64_is_zero f")
  case True
  then have "f64_abs f = 0" by (simp add: f64_is_zero_def)
  moreover have "unat (f64_key_word 0) = 2 ^ 63"
    by (simp add: unat_f64_key_word f64_abs_def)
  ultimately show ?thesis using True by (simp add: f64_canon_def)
next
  case False
  then have "unat (f64_abs f) \<noteq> 0" by (simp add: f64_is_zero_def unat_eq_0)
  then show ?thesis using False assms by (simp add: f64_canon_def unat_f64_key_word)
qed

lemma f64_scaled_order:
  "(if s then - int (f64_scaled m) else int (f64_scaled m))
     < (if t then - int (f64_scaled n) else int (f64_scaled n))
   \<longleftrightarrow> (if s \<and> m \<noteq> 0 then 2 ^ 63 - 1 - m else 2 ^ 63 + m)
       < (if t \<and> n \<noteq> 0 then 2 ^ 63 - 1 - n else 2 ^ 63 + n)"
  if "m < 2 ^ 63" "n < 2 ^ 63"
proof -
  have p: "0 < f64_scaled k \<longleftrightarrow> 0 < k" "f64_scaled k = 0 \<longleftrightarrow> k = 0" for k
    using f64_scaled_less [of 0 k] f64_scaled_eq [of k 0] by simp_all
  have n: "- int (f64_scaled k) < int (f64_scaled l) \<longleftrightarrow> k \<noteq> 0 \<or> l \<noteq> 0" for k l
    using p [of k] p [of l] by linarith
  have n': "\<not> int (f64_scaled k) < - int (f64_scaled l)" for k l by linarith
  show ?thesis using that
    by (cases s; cases t; cases "m = 0"; cases "n = 0") (auto simp: n n' p)
qed

lemma f64_key_above:
  assumes "\<not> IsNaN f" "IsNaN g"
  shows "unat (f64_key_word (f64_canon f)) < unat (f64_key_word (f64_canon g))"
proof -
  have "\<not> f64_is_zero g" using assms(2) by (auto simp: IsNaN_def f64_is_zero_def)
  then have g: "f64_canon g = f64_NaN" using assms(2) by (simp add: f64_canon_def)
  have "\<not> bit f64_NaN 63" by (simp add: f64_NaN_def)
  moreover have "f64_abs f64_NaN = f64_NaN" by (simp add: f64_NaN_def f64_abs_def mask_eq_exp_minus_1)
  ultimately have "unat (f64_key_word f64_NaN) = 2 ^ 63 + unat f64_NaN"
    by (simp add: unat_f64_key_word)
  moreover have "unat (f64_abs f) \<le> 0x7FF0000000000000"
    using assms(1) by (simp add: IsNaN_def word_le_nat_alt word_less_nat_alt)
  ultimately show ?thesis using f64_key_word_num [OF assms(1)] g 
    by (simp add: f64_NaN_def split: if_splits)
qed

lemma AppendKeyFloat64_less:
  "AppendKeyFloat64 [] a < AppendKeyFloat64 [] b
     \<longleftrightarrow> unat (f64_key_word (f64_canon a)) < unat (f64_key_word (f64_canon b))"
  by (simp add: AppendKeyFloat64_alt word_less_nat_alt)

lemma f64_key_word_order:
  "\<not> IsNaN a \<Longrightarrow> \<not> IsNaN b \<Longrightarrow>
   AppendKeyFloat64 [] a < AppendKeyFloat64 [] b \<longleftrightarrow> f64_value a < f64_value b"
  unfolding AppendKeyFloat64_less f64_key_word_num f64_value_def
  by (rule f64_scaled_order [symmetric]) (rule unat_f64_abs)+

lemma AppendKeyFloat64_order:
  assumes "\<not> IsNaN a" "\<not> IsNaN b"
  shows "AppendKeyFloat64 [] a < AppendKeyFloat64 [] b \<longleftrightarrow> f64_value a < f64_value b"
    and "AppendKeyFloat64 [] a = AppendKeyFloat64 [] b \<longleftrightarrow> f64_value a = f64_value b"
    and "IsNaN c \<Longrightarrow> AppendKeyFloat64 [] b < AppendKeyFloat64 [] c"
proof -
  show "AppendKeyFloat64 [] a < AppendKeyFloat64 [] b \<longleftrightarrow> f64_value a < f64_value b"
    by (rule f64_key_word_order [OF assms])
  show "AppendKeyFloat64 [] a = AppendKeyFloat64 [] b \<longleftrightarrow> f64_value a = f64_value b"
    using f64_key_word_order [OF assms] f64_key_word_order [OF assms(2,1)]
    by (metis linorder_neq_iff)
  show "AppendKeyFloat64 [] b < AppendKeyFloat64 [] c" if "IsNaN c"
    unfolding AppendKeyFloat64_less by (rule f64_key_above [OF assms(2) that])
qed

lemma bit_signBit: "n < 64 \<Longrightarrow> bit signBit n \<longleftrightarrow> n = 63"
  unfolding signBit_def bit_push_bit_iff bit_1_iff by auto

lemma f64_key_word_bit: "bit (f64_key_word f) 63 \<longleftrightarrow> \<not> bit f 63"
  by (simp add: f64_key_word_def bit_not_iff bit_or_iff bit_signBit)

lemma KeyFloat64_AppendKeyFloat64:
  "KeyFloat64 (AppendKeyFloat64 [] f @ rest) = Inr (f64_canon f, 8)"
proof -
  let ?w = "f64_key_word (f64_canon f)"
  have "(if ?w AND signBit \<noteq> 0 then ?w AND NOT signBit else NOT ?w) = f64_canon f"
  proof (cases "bit (f64_canon f) 63")
    case True
    then show ?thesis by (simp add: f64_key_word_bit) (simp add: f64_key_word_def)
  next
    case False
    moreover have "(w OR signBit) AND NOT signBit = w" if "\<not> bit w 63" for w :: u64
    proof (rule bit_word_eqI)
      fix n
      show "bit ((w OR signBit) AND NOT signBit) n = bit w n" if "n < LENGTH(64)"
        using that \<open>\<not> bit w 63\<close>
        by (cases "n = 63") (auto simp: bit_and_iff bit_or_iff bit_not_iff bit_signBit)
    qed
    ultimately show ?thesis by (simp add: f64_key_word_bit) (simp add: f64_key_word_def)
  qed
  then show ?thesis by (simp add: KeyFloat64_def AppendKeyFloat64_alt Let_def)
qed

section \<open>Length-prefixed values\<close>

lemma length_AppendUvarint: "length (AppendUvarint [] v) = UvarintLen v"
  by (simp add: AppendUvarint_bytes UvarintLen_bytes)

lemma UvarintLen_bounds: "1 \<le> UvarintLen v" "UvarintLen v \<le> 10"
proof -
  have "uvarint_loop (AppendUvarint [] v) 0 0 0 = Inr (v, UvarintLen v)"
    using Uvarint_roundtrip [of v "[]"] by (simp add: Uvarint_def)
  from uvarint_loop_bounds [OF this] show "1 \<le> UvarintLen v" "UvarintLen v \<le> 10" by simp_all
qed

lemma Uvarint_bounds: "Uvarint src = Inr (v, n) \<Longrightarrow> 1 \<le> n \<and> n \<le> length src \<and> n \<le> MaxVarintLen64"
  using uvarint_loop_bounds [of src 0 0 0 v n] by (simp add: Uvarint_def MaxVarintLen64_def)

lemma BytesRef_bounds:
  assumes "BytesRef src = Inr (b, n)"
  shows "n \<le> length src" "length b < n" "b = drop (n - length b) (take n src)"
proof -
  obtain v hdr where u: "Uvarint src = Inr (v, hdr)"
    using assms by (auto simp: BytesRef_def split: sum.splits)
  with assms have n: "n = hdr + unat v" "n \<le> length src" and b: "b = take (n - hdr) (drop hdr src)"
    by (auto simp: BytesRef_def Let_def split: if_splits)
  from n b have "length b = n - hdr" by simp
  with n Uvarint_bounds [OF u] b
  show "n \<le> length src" "length b < n" "b = drop (n - length b) (take n src)"
    by (auto simp: take_drop add.commute)
qed

lemma BytesRef_AppendBytes:
  assumes "length b < 2 ^ 63"
  shows "BytesRef (AppendBytes [] b @ rest) = Inr (b, UvarintLen (word_of_nat (length b)) + length b)"
proof -
  have l: "unat (word_of_nat (length b) :: u64) = length b"
    using assms by (simp add: unat_of_nat take_bit_nat_eq_self)
  show ?thesis
    using l UvarintLen_bounds (1) [of "word_of_nat (length b)"]
    by (simp add: BytesRef_def AppendBytes_def Uvarint_roundtrip length_AppendUvarint [symmetric] Let_def)
qed

lemma Bytes_BytesRef [simp]: "Bytes src = BytesRef src"
  by (simp add: Bytes_def overwrite_def split: sum.splits)

lemma String_BytesRef [simp]: "String src = BytesRef src"
  by (simp add: String_def split: sum.splits)

section \<open>Properties\<close>

text \<open>Claim C26.  Every \<open>uint64\<close> survives the varint encoding: whatever follows it in the
  buffer, decoding an appended varint gives the value back together with its length, the length
  is the one \<open>UvarintLen\<close> predicts and never more than \<open>MaxVarintLen64\<close>, and appending
  leaves the bytes already in the buffer alone.\<close>

theorem uvarint_roundtrip:
  "Uvarint (AppendUvarint [] v @ rest) = Inr (v, UvarintLen v)
   \<and> AppendUvarint dst v = dst @ AppendUvarint [] v
   \<and> length (AppendUvarint [] v) = UvarintLen v
   \<and> 1 \<le> UvarintLen v \<and> UvarintLen v \<le> MaxVarintLen64"
  using UvarintLen_bounds [of v] Uvarint_roundtrip [of v rest]
  by (simp add: AppendUvarint_bytes UvarintLen_bytes MaxVarintLen64_def)

text \<open>Claim C27.  Zigzag maps an \<open>int64\<close> to the \<open>uint64\<close> that counts it from zero outwards
  (0, -1, 1, -2, ...), so numbers of small magnitude get short varints, and the signed varint
  decodes to the value that was encoded.\<close>

theorem varint_signed_roundtrip:
  "Varint (AppendVarint [] v @ rest) = Inr (v, UvarintLen (zigzag v))
   \<and> unzigzag (zigzag v) = v
   \<and> uint (zigzag v) = (if sint v < 0 then - 2 * sint v - 1 else 2 * sint v)"
  using uint_zigzag [of v]
  by (simp add: Varint_def AppendVarint_def Uvarint_roundtrip unzigzag_zigzag)

text \<open>Claim C24.  Integer keys sort as the numbers they encode: comparing the encoded bytes with
  \<open>bytes.Compare\<close> gives the order of the \<open>uint64\<close> values, and for signed keys the order of
  the \<open>int64\<close> values, and both decode to the value that was encoded.\<close>

theorem integer_keys_order:
  "(bytes_compare (AppendKeyUint64 [] u) (AppendKeyUint64 [] v) < 0 \<longleftrightarrow> uint u < uint v)
   \<and> (bytes_compare (AppendKeyInt64 [] a) (AppendKeyInt64 [] b) < 0 \<longleftrightarrow> sint a < sint b)
   \<and> KeyUint64 (AppendKeyUint64 [] u @ rest) = Inr (u, 8)
   \<and> KeyInt64 (AppendKeyInt64 [] a @ rest) = Inr (a, 8)"
  using KeyInt64_AppendKeyInt64 [of a rest]
  by (simp add: AppendKeyInt64_order AppendKeyUint64_def KeyUint64_def word_less_def)

text \<open>Claim C25.  Float keys sort as the numbers they encode.  For operands that are not NaN the
  encoded bytes are ordered, and equal, exactly as the exact real values are (so the two zeros
  share one key), every NaN pattern gets a key above all of them, all NaN patterns get the same
  key, and decoding returns the canonical pattern of the value.\<close>

theorem float_keys_order:
  assumes "\<not> IsNaN a" "\<not> IsNaN b" "IsNaN c" "IsNaN d"
  shows "(bytes_compare (AppendKeyFloat64 [] a) (AppendKeyFloat64 [] b) < 0
            \<longleftrightarrow> f64_value a < f64_value b)
       \<and> (AppendKeyFloat64 [] a = AppendKeyFloat64 [] b \<longleftrightarrow> f64_value a = f64_value b)
       \<and> bytes_compare (AppendKeyFloat64 [] b) (AppendKeyFloat64 [] c) < 0
       \<and> AppendKeyFloat64 [] c = AppendKeyFloat64 [] d
       \<and> KeyFloat64 (AppendKeyFloat64 [] a @ rest) = Inr (f64_canon a, 8)"
proof -
  have "AppendKeyFloat64 [] c = AppendKeyFloat64 [] d"
    using assms(3,4) by (auto simp: AppendKeyFloat64_alt f64_canon_def IsNaN_def f64_is_zero_def)
  then show ?thesis
    using AppendKeyFloat64_order (1,2) [OF assms(1,2)] AppendKeyFloat64_order (3) [OF assms(1-3)]
      KeyFloat64_AppendKeyFloat64 [of a rest] by simp
qed

text \<open>Minus one, one, and two NaN patterns.\<close>

theorem float_keys_order_witness:
  "bytes_compare (AppendKeyFloat64 [] 0xBFF0000000000000) (AppendKeyFloat64 [] 0x3FF0000000000000) < 0
     \<longleftrightarrow> f64_value 0xBFF0000000000000 < f64_value 0x3FF0000000000000"
proof -
  have m: "(mask 63 :: u64) = 0x7FFFFFFFFFFFFFFF" by (simp add: mask_eq_exp_minus_1)
  have "\<not> IsNaN 0xBFF0000000000000" "\<not> IsNaN 0x3FF0000000000000"
    "IsNaN 0x7FF8000000000000" "IsNaN 0xFFF8000000000001"
    by (simp_all add: IsNaN_def f64_abs_def m)
  from float_keys_order [OF this] show ?thesis by blast
qed

text \<open>Claim C28.  Length-prefixed byte strings keep their boundaries: an appended string decodes to
  itself whatever bytes follow, the decoder reports exactly the bytes of the prefix and the
  string, and so the decoder can be run again behind it; \<open>Bytes\<close> and \<open>String\<close> agree with
  \<open>BytesRef\<close>.\<close>

theorem bytes_frame_roundtrip:
  assumes "length b < 2 ^ 63" "length c < 2 ^ 63"
  shows "\<exists>n. Bytes (AppendBytes (AppendBytes [] b) c @ rest) = Inr (b, n)
           \<and> Bytes (drop n (AppendBytes (AppendBytes [] b) c @ rest))
               = Inr (c, length (AppendBytes [] c))
           \<and> String (AppendString [] b @ rest) = Inr (b, n)
           \<and> n = length (AppendBytes [] b)"
proof -
  have app: "AppendBytes (AppendBytes [] b) c = AppendBytes [] b @ AppendBytes [] c"
    by (simp add: AppendBytes_def AppendUvarint_bytes)
  have len: "length (AppendBytes [] x) = UvarintLen (word_of_nat (length x)) + length x" for x
    by (simp add: AppendBytes_def length_AppendUvarint)
  have s: "AppendString = AppendBytes" by (simp add: fun_eq_iff AppendString_def AppendBytes_def)
  show ?thesis
    using BytesRef_AppendBytes [OF assms(1), of "AppendBytes [] c @ rest"]
      BytesRef_AppendBytes [OF assms(1), of rest] BytesRef_AppendBytes [OF assms(2), of rest]
    by (simp add: app len s)
qed

theorem bytes_frame_roundtrip_witness:
  "\<exists>n. Bytes (AppendBytes (AppendBytes [] [1, 2, 3]) [] @ [7]) = Inr ([1, 2, 3], n)"
  using bytes_frame_roundtrip [of "[1, 2, 3]" "[]" "[7]"] by auto

text \<open>No decoder of this package reads or reports bytes beyond the buffer it is given,
  on any input: a reported length lies inside the buffer, a varint has at most
  \<open>MaxVarintLen64\<close> bytes, and the slice \<open>BytesRef\<close> returns is the part of the buffer that
  ends where the reported length ends.\<close>

theorem decoders_stay_in_bounds:
  "(\<forall>v n. Uvarint src = Inr (v, n) \<longrightarrow> 1 \<le> n \<and> n \<le> length src \<and> n \<le> MaxVarintLen64)
   \<and> (\<forall>v n. Varint src = Inr (v, n) \<longrightarrow> 1 \<le> n \<and> n \<le> length src \<and> n \<le> MaxVarintLen64)
   \<and> (\<forall>b n. BytesRef src = Inr (b, n) \<longrightarrow>
        n \<le> length src \<and> length b < n \<and> b = drop (n - length b) (take n src))
   \<and> (\<forall>v n. KeyUint64 src = Inr (v, n) \<longrightarrow> n \<le> length src)
   \<and> (\<forall>v n. KeyInt64 src = Inr (v, n) \<longrightarrow> n \<le> length src)
   \<and> (\<forall>v n. KeyFloat64 src = Inr (v, n) \<longrightarrow> n \<le> length src)
   \<and> (\<forall>v n. Float64 src = Inr (v, n) \<longrightarrow> n \<le> length src)
   \<and> (\<forall>v n. Bool src = Inr (v, n) \<longrightarrow> n \<le> length src)"
  using Uvarint_bounds [of src] BytesRef_bounds [of src]
  by (cases src) (auto simp: Varint_def KeyUint64_def KeyInt64_def KeyFloat64_def Float64_def
      Let_def split: sum.splits if_splits)

theorem decoders_stay_in_bounds_witness:
  "Uvarint [0xAC, 0x02, 0x09] = Inr (300, 2) \<and> 2 \<le> length [0xAC, 0x02, 0x09 :: u8]"
proof -
  have "Uvarint [0xAC, 0x02, 0x09] = Inr (300, 2)"
    by (simp add: Uvarint_def MaxVarintLen64_def)
  moreover from this have "2 \<le> length [0xAC, 0x02, 0x09 :: u8]"
    using decoders_stay_in_bounds [of "[0xAC, 0x02, 0x09]"] by blast
  ultimately show ?thesis by blast
qed

end
