(* ===== verification/NullBits.thy ===== *)
theory NullBits
  imports Prelude
begin

text \<open>
  Package \<open>nullbits\<close>: the null bitmap of a record header (\<open>nullbits.go\<close>) and SQL's
  three-valued logic (\<open>logic.go\<close>).  A \<open>Bitmap\<close> is its bytes; field indices and counts are
  \<open>int\<close>, because the code tests them for being negative, with the wrap-around of the one sum that can
  leave the 64 bits of the type written out as \<open>int64\<close>; division truncates.
\<close>

section \<open>The bitmap\<close>

type_synonym Bitmap = bytes

definition Size :: "int \<Rightarrow> int" where
  "Size fields = (if fields \<le> 0 then 0 else int64 (fields + 7) sdiv 8)"

text \<open>\<open>New\<close>: \<open>make\<close> panics when the size is negative; running out of memory is not modelled.\<close>

definition NewBitmap :: "int \<Rightarrow> Bitmap option" where
  "NewBitmap fields = (if Size fields < 0 then None else Some (replicate (nat (Size fields)) 0))"

definition Fields :: "Bitmap \<Rightarrow> int" where
  "Fields b = int (length b) * 8"

definition SetNull :: "Bitmap \<Rightarrow> int \<Rightarrow> Bitmap" where
  "SetNull b i =
     (if i < 0 \<or> i \<ge> Fields b then b
      else b[nat i div 8 := b ! (nat i div 8) OR push_bit (nat i mod 8) 1])"

definition SetPresent :: "Bitmap \<Rightarrow> int \<Rightarrow> Bitmap" where
  "SetPresent b i =
     (if i < 0 \<or> i \<ge> Fields b then b
      else b[nat i div 8 := b ! (nat i div 8) AND NOT (push_bit (nat i mod 8) 1)])"

definition IsNull :: "Bitmap \<Rightarrow> int \<Rightarrow> bool" where
  "IsNull b i =
     (if i < 0 \<or> i \<ge> Fields b then False
      else b ! (nat i div 8) AND push_bit (nat i mod 8) 1 \<noteq> 0)"

text \<open>The loops \<open>for i := 0; i < fields && i < b.Fields(); i++\<close>, from index \<open>i\<close> on.\<close>

function any_loop :: "Bitmap \<Rightarrow> int \<Rightarrow> int \<Rightarrow> bool" where
  "any_loop b fields i =
     (if i < fields \<and> i < Fields b then
        if IsNull b i then True else any_loop b fields (i + 1)
      else False)"
  by pat_completeness auto
termination
  by (relation "measure (\<lambda>(b, fields, i). nat (fields - i))") auto

definition Any :: "Bitmap \<Rightarrow> int \<Rightarrow> bool" where
  "Any b fields = any_loop b fields 0"

function count_loop :: "Bitmap \<Rightarrow> int \<Rightarrow> int \<Rightarrow> int \<Rightarrow> int" where
  "count_loop b fields i n =
     (if i < fields \<and> i < Fields b then
        count_loop b fields (i + 1) (if IsNull b i then n + 1 else n)
      else n)"
  by pat_completeness auto
termination
  by (relation "measure (\<lambda>(b, fields, i, n). nat (fields - i))") auto

definition Count :: "Bitmap \<Rightarrow> int \<Rightarrow> int" where
  "Count b fields = count_loop b fields 0 0"

declare any_loop.simps [simp del] count_loop.simps [simp del]

text \<open>The renderings, one character per field and a space between bytes.\<close>

definition sep :: "nat \<Rightarrow> string" where
  "sep i = (if 0 < i \<and> i mod 8 = 0 then '' '' else [])"

definition BitmapString :: "Bitmap \<Rightarrow> string" where
  "BitmapString b =
     concat (map (\<lambda>i. sep i @ (if IsNull b (int i) then ''N'' else ''.'')) [0..<nat (Fields b)])"

definition Describe :: "Bitmap \<Rightarrow> int \<Rightarrow> string" where
  "Describe b fields =
     concat (map (\<lambda>i. sep i @ (if int i \<ge> fields then ''-''
                               else if IsNull b (int i) then ''N'' else ''.''))
               [0..<nat (Fields b)])"

section \<open>Three-valued logic\<close>

type_synonym Bool3 = u8

definition False3 :: Bool3 where "False3 = 0"
definition True3 :: Bool3 where "True3 = 1"
definition Unknown3 :: Bool3 where "Unknown3 = 2"

definition norm3 :: "Bool3 \<Rightarrow> Bool3" where
  "norm3 b = (if b > Unknown3 then Unknown3 else b)"

definition Bool3String :: "Bool3 \<Rightarrow> string" where
  "Bool3String b =
     (if b = False3 then ''FALSE'' else if b = True3 then ''TRUE'' else ''UNKNOWN'')"

definition Not3 :: "Bool3 \<Rightarrow> Bool3" where
  "Not3 b =
     (let b = norm3 b in if b = True3 then False3 else if b = False3 then True3 else Unknown3)"

definition And3 :: "Bool3 \<Rightarrow> Bool3 \<Rightarrow> Bool3" where
  "And3 b p =
     (let b = norm3 b; p = norm3 p in
      if b = False3 \<or> p = False3 then False3
      else if b = Unknown3 \<or> p = Unknown3 then Unknown3
      else True3)"

definition Or3 :: "Bool3 \<Rightarrow> Bool3 \<Rightarrow> Bool3" where
  "Or3 b p =
     (let b = norm3 b; p = norm3 p in
      if b = True3 \<or> p = True3 then True3
      else if b = Unknown3 \<or> p = Unknown3 then Unknown3
      else False3)"

definition IsTrue3 :: "Bool3 \<Rightarrow> bool" where
  "IsTrue3 b \<longleftrightarrow> norm3 b = True3"

definition FromBool :: "bool \<Rightarrow> Bool3" where
  "FromBool v = (if v then True3 else False3)"

text \<open>A \<open>*int64\<close> is an option of a 64-bit word read by \<open>sint\<close>.\<close>

fun EqualInt64 :: "64 word option \<Rightarrow> 64 word option \<Rightarrow> Bool3" where
  "EqualInt64 (Some a) (Some b) = FromBool (a = b)"
| "EqualInt64 a b = Unknown3"

fun LessInt64 :: "64 word option \<Rightarrow> 64 word option \<Rightarrow> Bool3" where
  "LessInt64 (Some a) (Some b) = FromBool (sint a < sint b)"
| "LessInt64 a b = Unknown3"

definition IsNull3 :: "64 word option \<Rightarrow> Bool3" where
  "IsNull3 v = FromBool (v = None)"

section \<open>Lemmas on the bitmap\<close>

text \<open>The bit a field has, on the bytes seen as one bit string.\<close>

definition null_bit :: "Bitmap \<Rightarrow> nat \<Rightarrow> bool" where
  "null_bit b i \<longleftrightarrow> i < length b * 8 \<and> bit (b ! (i div 8)) (i mod 8)"

lemma in_fields: "i < length b * 8 \<Longrightarrow> i div 8 < length b"
  by (simp add: less_mult_imp_div_less)

lemma and_bit_nonzero: "k < 8 \<Longrightarrow> w AND push_bit k 1 \<noteq> 0 \<longleftrightarrow> bit (w :: u8) k"
  by (simp add: push_bit_of_1 and_exp_eq_0_iff_not_bit)

lemma IsNull_null_bit: "IsNull b i \<longleftrightarrow> 0 \<le> i \<and> null_bit b (nat i)"
proof -
  have "nat i mod 8 < 8" by simp
  from and_bit_nonzero [OF this] show ?thesis
    by (auto simp: IsNull_def Fields_def null_bit_def)
qed

lemma length_SetNull [simp]: "length (SetNull b i) = length b"
  by (simp add: SetNull_def)

lemma length_SetPresent [simp]: "length (SetPresent b i) = length b"
  by (simp add: SetPresent_def)

lemma same_position: "i div 8 = j div 8 \<Longrightarrow> i mod 8 = j mod 8 \<longleftrightarrow> i = (j :: nat)"
  by (metis div_mult_mod_eq)

lemma null_bit_SetNull:
  assumes "i < length b * 8"
  shows "null_bit (SetNull b (int i)) j \<longleftrightarrow> i = j \<or> null_bit b j"
proof -
  have "bit (push_bit (i mod 8) 1 :: u8) (j mod 8) \<longleftrightarrow> i mod 8 = j mod 8"
    unfolding bit_push_bit_iff bit_1_iff by auto
  then show ?thesis
    using assms in_fields [OF assms] same_position [of i j]
    by (auto simp: null_bit_def SetNull_def Fields_def nth_list_update bit_or_iff)
qed

lemma null_bit_SetPresent:
  assumes "i < length b * 8"
  shows "null_bit (SetPresent b (int i)) j \<longleftrightarrow> i \<noteq> j \<and> null_bit b j"
proof -
  have "bit (push_bit (i mod 8) 1 :: u8) (j mod 8) \<longleftrightarrow> i mod 8 = j mod 8"
    unfolding bit_push_bit_iff bit_1_iff by auto
  then show ?thesis
    using assms in_fields [OF assms] same_position [of i j]
    by (auto simp: null_bit_def SetPresent_def Fields_def nth_list_update bit_and_iff bit_not_iff)
qed

lemma set_outside:
  "\<not> (0 \<le> i \<and> i < Fields b) \<Longrightarrow> SetNull b i = b"
  "\<not> (0 \<le> i \<and> i < Fields b) \<Longrightarrow> SetPresent b i = b"
  by (auto simp: SetNull_def SetPresent_def)

lemma IsNull_SetNull:
  "IsNull (SetNull b i) j \<longleftrightarrow> (i = j \<and> 0 \<le> i \<and> i < Fields b) \<or> IsNull b j"
proof (cases "0 \<le> i \<and> i < Fields b")
  case True
  then have "nat i < length b * 8" by (auto simp: Fields_def)
  from null_bit_SetNull [OF this, of "nat j"] True show ?thesis by (auto simp: IsNull_null_bit)
qed (auto simp: set_outside)

lemma IsNull_SetPresent: "IsNull (SetPresent b i) j \<longleftrightarrow> IsNull b j \<and> i \<noteq> j"
proof (cases "0 \<le> i \<and> i < Fields b")
  case True
  then have "nat i < length b * 8" by (auto simp: Fields_def)
  from null_bit_SetPresent [OF this, of "nat j"] True show ?thesis by (auto simp: IsNull_null_bit)
next
  case False
  then have "\<not> IsNull b i" by (auto simp: IsNull_def)
  with False show ?thesis by (auto simp: set_outside)
qed

lemma any_loop_iff:
  "0 \<le> i \<Longrightarrow> any_loop b fields i \<longleftrightarrow> (\<exists>j. i \<le> j \<and> j < fields \<and> IsNull b j)"
proof (induction b fields i rule: any_loop.induct)
  case (1 b fields i)
  have le: "i \<le> j \<longleftrightarrow> i = j \<or> i + 1 \<le> j" for j :: int by auto
  have lim: "j < Fields b" if "IsNull b j" for j using that by (auto simp: IsNull_def split: if_splits)
  show ?case
  proof (cases "i < fields \<and> i < Fields b")
    case True
    then show ?thesis
      using 1 unfolding any_loop.simps [of b fields i] le by auto
  next
    case False
    then have "\<not> (i \<le> j \<and> j < fields \<and> IsNull b j)" for j using lim [of j] by auto
    then show ?thesis unfolding any_loop.simps [of b fields i] if_not_P [OF False] by blast
  qed
qed

lemma count_loop_card:
  "0 \<le> i \<Longrightarrow> count_loop b fields i n = n + int (card {j. i \<le> j \<and> j < fields \<and> IsNull b j})"
proof (induction b fields i n rule: count_loop.induct)
  case (1 b fields i n)
  have lim: "j < Fields b" if "IsNull b j" for j using that by (auto simp: IsNull_def split: if_splits)
  show ?case
  proof (cases "i < fields \<and> i < Fields b")
    case True
    let ?S = "{j. i + 1 \<le> j \<and> j < fields \<and> IsNull b j}"
    have "{j. i \<le> j \<and> j < fields \<and> IsNull b j} = (if IsNull b i then insert i ?S else ?S)"
      using True by (auto simp: order_le_less)
    moreover have "finite ?S" by (rule finite_subset [of _ "{i..fields}"]) auto
    ultimately show ?thesis
      using 1 True by (simp add: count_loop.simps [of b fields i n])
  next
    case False
    then have e: "{j. i \<le> j \<and> j < fields \<and> IsNull b j} = {}" using lim by fastforce
    show ?thesis unfolding count_loop.simps [of b fields i n] if_not_P [OF False] e by simp
  qed
qed

section \<open>Properties\<close>

lemma Size_value:
  assumes "f < 2 ^ 63"
  shows "Size f = (if f \<le> 0 then 0 else if f \<le> 2 ^ 63 - 8 then (f + 7) div 8 else (f + 7 - 2 ^ 64) sdiv 8)"
    "Size f < 0 \<longleftrightarrow> 2 ^ 63 - 8 < f"
proof -
  have "int64 (f + 7) = f + 7" if "0 < f" "f \<le> 2 ^ 63 - 8" using that by (intro int64_id) simp_all
  moreover have "int64 (f + 7) = f + 7 - 2 ^ 64" if "2 ^ 63 - 8 < f" using that assms by (intro int64_over) simp_all
  moreover have "(f + 7) sdiv 8 = (f + 7) div 8" if "0 < f" using that by (simp add: signed_divide_int_def sgn_if)
  ultimately show v: "Size f = (if f \<le> 0 then 0 else if f \<le> 2 ^ 63 - 8 then (f + 7) div 8 else (f + 7 - 2 ^ 64) sdiv 8)"
    by (simp add: Size_def)
  have "(f + 7 - 2 ^ 64) sdiv 8 < 0"
  proof -
    have "8 \<le> \<bar>f + 7 - 2 ^ 64\<bar>" "sgn (f + 7 - 2 ^ 64) = - 1" using assms by (simp_all add: sgn_if)
    then show ?thesis by (simp add: signed_divide_int_def pos_imp_zdiv_pos_iff)
  qed
  moreover have "0 \<le> (f + 7) div 8" if "0 < f" using that by simp
  ultimately show "Size f < 0 \<longleftrightarrow> 2 ^ 63 - 8 < f" unfolding v by auto
qed

text \<open>Claim C35.  The bitmap is an array of independent field flags: marking a field null or
  present changes what \<open>IsNull\<close> says of that field and of no other, never changes the size, and
  does nothing for an index outside the bitmap.  \<open>New\<close> gives a bitmap with every field present and
  room for all of them, in whole bytes, up to the last seven field counts of Go's \<open>int\<close>, for which the
  size wraps around to a negative one and \<open>make\<close> panics.\<close>

theorem bitmap_flags_independent:
  assumes "f < 2 ^ 63"
  shows "(IsNull (SetNull b i) j \<longleftrightarrow> (i = j \<and> 0 \<le> i \<and> i < Fields b) \<or> IsNull b j)
   \<and> (IsNull (SetPresent b i) j \<longleftrightarrow> IsNull b j \<and> i \<noteq> j)
   \<and> Fields (SetNull b i) = Fields b \<and> Fields (SetPresent b i) = Fields b
   \<and> (case NewBitmap f of
        None \<Rightarrow> 2 ^ 63 - 8 < f
      | Some n \<Rightarrow> f \<le> 2 ^ 63 - 8 \<and> \<not> IsNull n j \<and> f \<le> Fields n \<and> Fields n \<le> max 0 (f + 7))"
proof -
  note IsNull_SetNull [of b i j] IsNull_SetPresent [of b i j]
  moreover have "case NewBitmap f of
        None \<Rightarrow> 2 ^ 63 - 8 < f
      | Some n \<Rightarrow> f \<le> 2 ^ 63 - 8 \<and> \<not> IsNull n j \<and> f \<le> Fields n \<and> Fields n \<le> max 0 (f + 7)"
  proof (cases "Size f < 0")
    case True
    then show ?thesis using Size_value(2) [OF assms] by (simp add: NewBitmap_def)
  next
    case False
    then have "f \<le> 2 ^ 63 - 8" using Size_value(2) [OF assms] by linarith
    then have v: "Size f = (if f \<le> 0 then 0 else (f + 7) div 8)" using Size_value(1) [OF assms] by simp
    have "f \<le> (f + 7) div 8 * 8" "(f + 7) div 8 * 8 \<le> f + 7" by presburger+
    moreover from this have "0 < f \<Longrightarrow> 0 \<le> (f + 7) div 8" by simp
    moreover have "\<not> IsNull (replicate n 0) j" for n
      by (auto simp: IsNull_null_bit null_bit_def in_fields)
    ultimately show ?thesis
      using False \<open>f \<le> 2 ^ 63 - 8\<close> by (auto simp: NewBitmap_def Fields_def v)
  qed
  ultimately show ?thesis by (simp add: Fields_def)
qed

theorem bitmap_flags_independent_witness:
  "NewBitmap (2 ^ 63 - 7) = None \<and> (\<exists>n. NewBitmap 12 = Some n \<and> 12 \<le> Fields n \<and> \<not> IsNull n 3)"
proof -
  have "NewBitmap (2 ^ 63 - 7) = None"
    using bitmap_flags_independent [of "2 ^ 63 - 7" "[]" 0 0] by (cases "NewBitmap (2 ^ 63 - 7)") simp_all
  moreover have "\<exists>n. NewBitmap 12 = Some n \<and> 12 \<le> Fields n \<and> \<not> IsNull n 3"
    using bitmap_flags_independent [of 12 "[]" 0 3] by (cases "NewBitmap 12") simp_all
  ultimately show ?thesis by blast
qed

text \<open>\<open>Count\<close> and \<open>Any\<close> report exactly the null fields among the first \<open>fields\<close>
  ones: a padding bit at or beyond the schema's field count is never reported.\<close>

theorem count_any_exact:
  "Count b fields = int (card {j. 0 \<le> j \<and> j < fields \<and> IsNull b j})
   \<and> (Any b fields \<longleftrightarrow> (\<exists>j. 0 \<le> j \<and> j < fields \<and> IsNull b j))
   \<and> (fields \<le> k \<longrightarrow> Count (SetNull b k) fields = Count b fields)"
proof -
  have "IsNull (SetNull b k) j = IsNull b j" if "fields \<le> k" "j < fields" for j
    using that by (auto simp: IsNull_SetNull)
  then have "{j. 0 \<le> j \<and> j < fields \<and> IsNull (SetNull b k) j} = {j. 0 \<le> j \<and> j < fields \<and> IsNull b j}"
    if "fields \<le> k" using that by auto
  then show ?thesis by (simp add: Count_def Any_def count_loop_card any_loop_iff)
qed

theorem count_any_exact_witness:
  "(3::int) \<le> 5 \<and> Count (SetNull [5] 5) 3 = Count [5] 3"
  using count_any_exact [of "[5]" 3 5] by simp

text \<open>The value a byte stands for: \<open>Some\<close> of a boolean, or \<open>None\<close> for unknown, which is every
  byte other than 0 and 1.\<close>

definition abs3 :: "Bool3 \<Rightarrow> bool option" where
  "abs3 b = (if b = 0 then Some False else if b = 1 then Some True else None)"

fun kleene_and :: "bool option \<Rightarrow> bool option \<Rightarrow> bool option" where
  "kleene_and (Some p) (Some q) = Some (p \<and> q)"
| "kleene_and (Some p) None = (if p then None else Some False)"
| "kleene_and None (Some q) = (if q then None else Some False)"
| "kleene_and None None = None"

lemma norm3_cases: "norm3 b = (if b = 0 then 0 else if b = 1 then 1 else 2)"
proof -
  have "b > 2 \<longleftrightarrow> b \<noteq> 0 \<and> b \<noteq> 1 \<and> b \<noteq> 2"
    by (auto simp: word_less_nat_alt word_unat_eq_iff)
  then show ?thesis by (auto simp: norm3_def Unknown3_def)
qed

lemma EqualInt64_None: "EqualInt64 None v = Unknown3" "EqualInt64 v None = Unknown3"
  by (cases v; simp)+

text \<open>Claim C37.  The connectives are Kleene's strong three-valued logic on what the bytes stand
  for, an out-of-range byte counting as unknown: negation and conjunction have that table,
  disjunction is the De Morgan dual, a garbage operand never makes a conjunction true, and
  \<open>IsTrue\<close> accepts TRUE only; a comparison with a NULL operand is never accepted.\<close>

theorem three_valued_logic:
  "abs3 (Not3 a) = map_option HOL.Not (abs3 a)
   \<and> abs3 (And3 a b) = kleene_and (abs3 a) (abs3 b)
   \<and> Or3 a b = Not3 (And3 (Not3 a) (Not3 b))
   \<and> (IsTrue3 a \<longleftrightarrow> abs3 a = Some True)
   \<and> (IsTrue3 (And3 a b) \<longleftrightarrow> IsTrue3 a \<and> IsTrue3 b)
   \<and> \<not> IsTrue3 (EqualInt64 None v) \<and> \<not> IsTrue3 (Not3 (EqualInt64 None v))
   \<and> \<not> IsTrue3 (Or3 (EqualInt64 None v) (Not3 (EqualInt64 None v)))
   \<and> (IsTrue3 (EqualInt64 (Some x) (Some y)) \<longleftrightarrow> sint x = sint y)
   \<and> (IsTrue3 (LessInt64 (Some x) (Some y)) \<longleftrightarrow> sint x < sint y)"
proof -
  note defs = norm3_cases True3_def False3_def Unknown3_def
  have "abs3 (Not3 a) = map_option HOL.Not (abs3 a)"
    by (simp add: Not3_def Let_def defs abs3_def)
  moreover have "abs3 (And3 a b) = kleene_and (abs3 a) (abs3 b)"
    by (simp add: And3_def Let_def defs abs3_def)
  moreover have "Or3 a b = Not3 (And3 (Not3 a) (Not3 b))"
    by (simp add: And3_def Or3_def Not3_def Let_def defs)
  moreover have "IsTrue3 a \<longleftrightarrow> abs3 a = Some True"
    by (simp add: IsTrue3_def defs abs3_def)
  moreover have "IsTrue3 (And3 a b) \<longleftrightarrow> IsTrue3 a \<and> IsTrue3 b"
    by (simp add: IsTrue3_def And3_def Let_def defs)
  moreover have "\<not> IsTrue3 (EqualInt64 None v)" "\<not> IsTrue3 (Not3 (EqualInt64 None v))"
    "\<not> IsTrue3 (Or3 (EqualInt64 None v) (Not3 (EqualInt64 None v)))"
    by (simp_all add: IsTrue3_def Not3_def Or3_def Let_def defs EqualInt64_None)
  moreover have "IsTrue3 (EqualInt64 (Some x) (Some y)) \<longleftrightarrow> sint x = sint y"
    "IsTrue3 (LessInt64 (Some x) (Some y)) \<longleftrightarrow> sint x < sint y"
    by (auto simp: IsTrue3_def FromBool_def defs intro: signed_word_eqI)
  ultimately show ?thesis by (intro conjI) assumption+
qed

end
