(* ===== verification/Pages.thy ===== *)
theory Pages
  imports Core
begin

text \<open>
  Package \<open>page\<close>, the page itself (\<open>page.go\<close> up to \<open>Offset\<close>): 4096 bytes whose first
  sixteen are the header.  A \<open>Page\<close> is the byte list; a method that stores into the page
  returns it updated.  The constructors, \<open>File.Read\<close> and the \<open>Load\<close> check of package
  \<open>nodepage\<close> only ever hand out pages of 4096 bytes, so a header access at its constant offset
  cannot panic; an access whose offset is computed from page contents can, and is modelled so.
\<close>

section \<open>Layout\<close>

abbreviation (input) PageSize :: nat where "PageSize \<equiv> 4096"
abbreviation (input) HeaderSize :: nat where "HeaderSize \<equiv> 16"
abbreviation (input) Usable :: nat where "Usable \<equiv> PageSize - HeaderSize"

type_synonym Kind = u8

definition KindFree :: Kind where "KindFree = 0"
definition KindMeta :: Kind where "KindMeta = 1"
definition KindHeap :: Kind where "KindHeap = 2"
definition KindBTreeLeaf :: Kind where "KindBTreeLeaf = 3"
definition KindBTreeInternal :: Kind where "KindBTreeInternal = 4"
definition KindFreeList :: Kind where "KindFreeList = 5"

lemmas kind_defs =
  KindFree_def KindMeta_def KindHeap_def KindBTreeLeaf_def KindBTreeInternal_def KindFreeList_def

abbreviation (input) offID :: nat where "offID \<equiv> 0"
abbreviation (input) offKind :: nat where "offKind \<equiv> 4"
abbreviation (input) offFlags :: nat where "offFlags \<equiv> 5"
abbreviation (input) offItemCount :: nat where "offItemCount \<equiv> 6"
abbreviation (input) offFreeStart :: nat where "offFreeStart \<equiv> 8"
abbreviation (input) offFreeEnd :: nat where "offFreeEnd \<equiv> 10"
abbreviation (input) offReserved :: nat where "offReserved \<equiv> 12"

type_synonym Page = bytes

definition is_page :: "Page \<Rightarrow> bool" where
  "is_page p \<longleftrightarrow> length p = PageSize"

section \<open>Header fields\<close>

definition ID :: "Page \<Rightarrow> PageID" where
  "ID p = get32 p offID"

definition KindOf :: "Page \<Rightarrow> Kind" where
  "KindOf p = p ! offKind"

definition Flags :: "Page \<Rightarrow> u8" where
  "Flags p = p ! offFlags"

definition ItemCount :: "Page \<Rightarrow> u16" where
  "ItemCount p = get16 p offItemCount"

definition FreeStart :: "Page \<Rightarrow> u16" where
  "FreeStart p = get16 p offFreeStart"

definition FreeEnd :: "Page \<Rightarrow> u16" where
  "FreeEnd p = get16 p offFreeEnd"

definition FreeSpace :: "Page \<Rightarrow> int" where
  "FreeSpace p = int (unat (FreeEnd p)) - int (unat (FreeStart p))"

definition Data :: "Page \<Rightarrow> bytes" where
  "Data p = drop HeaderSize p"

definition SetID :: "Page \<Rightarrow> PageID \<Rightarrow> Page" where
  "SetID p i = put32 p offID i"

definition SetKind :: "Page \<Rightarrow> Kind \<Rightarrow> Page" where
  "SetKind p k = p[offKind := k]"

definition SetFlags :: "Page \<Rightarrow> u8 \<Rightarrow> Page" where
  "SetFlags p f = p[offFlags := f]"

definition SetItemCount :: "Page \<Rightarrow> u16 \<Rightarrow> Page" where
  "SetItemCount p n = put16 p offItemCount n"

definition SetFreeStart :: "Page \<Rightarrow> u16 \<Rightarrow> Page" where
  "SetFreeStart p n = put16 p offFreeStart n"

definition SetFreeEnd :: "Page \<Rightarrow> u16 \<Rightarrow> Page" where
  "SetFreeEnd p n = put16 p offFreeEnd n"

definition NewPage :: "PageID \<Rightarrow> Kind \<Rightarrow> Page" where
  "NewPage i kind =
     (let p = replicate PageSize 0;
          p = SetID p i;
          p = SetKind p kind;
          p = SetFreeStart p (word_of_nat HeaderSize);
          p = SetFreeEnd p (word_of_nat PageSize)
      in p)"

text \<open>\<open>Append\<close>: the outer option is the panic of \<open>p[at:]\<close> when a damaged header puts the free
  start beyond the page.\<close>

datatype append_error = AppendNoFit nat int

definition Append :: "Page \<Rightarrow> bytes \<Rightarrow> ((append_error + u16) \<times> Page) option" where
  "Append p b =
     (if int (length b) > FreeSpace p then Some (Inl (AppendNoFit (length b) (FreeSpace p)), p)
      else
        (let at = FreeStart p in
         case copy_at p (unat at) b of
           None \<Rightarrow> None
         | Some p \<Rightarrow>
             (let p = SetFreeStart p (at + word_of_nat (length b));
                  p = SetItemCount p (ItemCount p + 1)
              in Some (Inr at, p))))"

text \<open>\<open>Offset\<close>: an \<open>int64\<close> product that cannot overflow, the identifier having 32 bits.\<close>

definition Offset :: "PageID \<Rightarrow> nat" where
  "Offset i = unat i * PageSize"

section \<open>Reading back the header\<close>

text \<open>The facts that say what each field of an updated page is, for pages of full size.\<close>
named_theorems page_simps

lemma is_page_length: "is_page p \<Longrightarrow> length p = 4096"
  by (simp add: is_page_def)

lemma is_page_updates [page_simps]:
  "is_page p \<Longrightarrow> is_page (SetID p i)"
  "is_page p \<Longrightarrow> is_page (SetKind p k)"
  "is_page p \<Longrightarrow> is_page (SetFlags p f)"
  "is_page p \<Longrightarrow> is_page (SetItemCount p n)"
  "is_page p \<Longrightarrow> is_page (SetFreeStart p n)"
  "is_page p \<Longrightarrow> is_page (SetFreeEnd p n)"
  by (simp_all add: is_page_def SetID_def SetKind_def SetFlags_def SetItemCount_def
      SetFreeStart_def SetFreeEnd_def)

lemma list_update_overwrite: "i < length p \<Longrightarrow> p[i := x] = overwrite i [x] p"
  by (simp add: overwrite_def upd_conv_take_nth_drop)

lemma nth_subslice: "i < length p \<Longrightarrow> p ! i = hd (subslice i 1 p)"
  by (simp add: subslice_def hd_drop_conv_nth)

lemma nth_put [slice_simps]:
  "i < length p \<Longrightarrow> off + 2 \<le> length p \<Longrightarrow> i < off \<or> off + 2 \<le> i \<Longrightarrow> put16 p off v ! i = p ! i"
  "i < length p \<Longrightarrow> off + 4 \<le> length p \<Longrightarrow> i < off \<or> off + 4 \<le> i \<Longrightarrow> put32 p off w ! i = p ! i"
  by (auto simp: put16_def put32_def nth_overwrite)

lemma get_list_update [slice_simps]:
  "i < length p \<Longrightarrow> i < off \<or> off + 2 \<le> i \<Longrightarrow> get16 (p[i := x]) off = get16 p off"
  "i < length p \<Longrightarrow> i < off \<or> off + 4 \<le> i \<Longrightarrow> get32 (p[i := x]) off = get32 p off"
  by (auto simp: list_update_overwrite get16_overwrite_other get32_overwrite_other)

lemmas header_defs =
  ID_def KindOf_def Flags_def ItemCount_def FreeStart_def FreeEnd_def
  SetID_def SetKind_def SetFlags_def SetItemCount_def SetFreeStart_def SetFreeEnd_def

lemma header_SetID [page_simps]:
  assumes "is_page p"
  shows "ID (SetID p v) = v" "KindOf (SetID p v) = KindOf p" "Flags (SetID p v) = Flags p"
    "ItemCount (SetID p v) = ItemCount p" "FreeStart (SetID p v) = FreeStart p"
    "FreeEnd (SetID p v) = FreeEnd p"
  using assms by (simp_all add: header_defs is_page_length slice_simps)

lemma header_SetKind [page_simps]:
  assumes "is_page p"
  shows "ID (SetKind p v) = ID p" "KindOf (SetKind p v) = v" "Flags (SetKind p v) = Flags p"
    "ItemCount (SetKind p v) = ItemCount p" "FreeStart (SetKind p v) = FreeStart p"
    "FreeEnd (SetKind p v) = FreeEnd p"
  using assms by (simp_all add: header_defs is_page_length slice_simps)

lemma header_SetFlags [page_simps]:
  assumes "is_page p"
  shows "ID (SetFlags p v) = ID p" "KindOf (SetFlags p v) = KindOf p" "Flags (SetFlags p v) = v"
    "ItemCount (SetFlags p v) = ItemCount p" "FreeStart (SetFlags p v) = FreeStart p"
    "FreeEnd (SetFlags p v) = FreeEnd p"
  using assms by (simp_all add: header_defs is_page_length slice_simps)

lemma header_SetItemCount [page_simps]:
  assumes "is_page p"
  shows "ID (SetItemCount p v) = ID p" "KindOf (SetItemCount p v) = KindOf p"
    "Flags (SetItemCount p v) = Flags p" "ItemCount (SetItemCount p v) = v"
    "FreeStart (SetItemCount p v) = FreeStart p" "FreeEnd (SetItemCount p v) = FreeEnd p"
  using assms by (simp_all add: header_defs is_page_length slice_simps)

lemma header_SetFreeStart [page_simps]:
  assumes "is_page p"
  shows "ID (SetFreeStart p v) = ID p" "KindOf (SetFreeStart p v) = KindOf p"
    "Flags (SetFreeStart p v) = Flags p" "ItemCount (SetFreeStart p v) = ItemCount p"
    "FreeStart (SetFreeStart p v) = v" "FreeEnd (SetFreeStart p v) = FreeEnd p"
  using assms by (simp_all add: header_defs is_page_length slice_simps)

lemma header_SetFreeEnd [page_simps]:
  assumes "is_page p"
  shows "ID (SetFreeEnd p v) = ID p" "KindOf (SetFreeEnd p v) = KindOf p"
    "Flags (SetFreeEnd p v) = Flags p" "ItemCount (SetFreeEnd p v) = ItemCount p"
    "FreeStart (SetFreeEnd p v) = FreeStart p" "FreeEnd (SetFreeEnd p v) = v"
  using assms by (simp_all add: header_defs is_page_length slice_simps)

text \<open>Header stores leave everything behind the header alone.\<close>

lemma subslice_header [page_simps]:
  assumes "is_page p" "HeaderSize \<le> off"
  shows "subslice off n (SetID p i) = subslice off n p"
    "subslice off n (SetKind p k) = subslice off n p"
    "subslice off n (SetFlags p f) = subslice off n p"
    "subslice off n (SetItemCount p c) = subslice off n p"
    "subslice off n (SetFreeStart p s) = subslice off n p"
    "subslice off n (SetFreeEnd p e) = subslice off n p"
  using assms by (auto simp: header_defs is_page_length slice_simps list_update_overwrite)

text \<open>And bytes written behind the header leave the header alone.\<close>

lemma is_page_overwrite [page_simps]:
  "is_page p \<Longrightarrow> off + length b \<le> 4096 \<Longrightarrow> is_page (overwrite off b p)"
  by (simp add: is_page_def)

lemma header_overwrite [page_simps]:
  assumes "is_page p" "HeaderSize \<le> off" "off + length b \<le> 4096"
  shows "ID (overwrite off b p) = ID p" "KindOf (overwrite off b p) = KindOf p"
    "Flags (overwrite off b p) = Flags p" "ItemCount (overwrite off b p) = ItemCount p"
    "FreeStart (overwrite off b p) = FreeStart p" "FreeEnd (overwrite off b p) = FreeEnd p"
  using assms by (simp_all add: header_defs is_page_length slice_simps nth_overwrite)

text \<open>The two stores that an append and a slot write make touch two bytes each.\<close>

lemma nth_header_store:
  "length p = 4096 \<Longrightarrow> k < 4096 \<Longrightarrow> k \<noteq> offItemCount \<Longrightarrow> k \<noteq> offItemCount + 1 \<Longrightarrow> SetItemCount p n ! k = p ! k"
  "length p = 4096 \<Longrightarrow> k < 4096 \<Longrightarrow> k \<noteq> offFreeStart \<Longrightarrow> k \<noteq> offFreeStart + 1 \<Longrightarrow> SetFreeStart p n ! k = p ! k"
proof -
  have a: "i \<noteq> off \<Longrightarrow> i \<noteq> off + 1 \<Longrightarrow> i < off \<or> off + 2 \<le> i" for i off :: nat by linarith
  show "length p = 4096 \<Longrightarrow> k < 4096 \<Longrightarrow> k \<noteq> offItemCount \<Longrightarrow> k \<noteq> offItemCount + 1 \<Longrightarrow> SetItemCount p n ! k = p ! k"
    using a [of k offItemCount] by (simp add: SetItemCount_def nth_put)
  show "length p = 4096 \<Longrightarrow> k < 4096 \<Longrightarrow> k \<noteq> offFreeStart \<Longrightarrow> k \<noteq> offFreeStart + 1 \<Longrightarrow> SetFreeStart p n ! k = p ! k"
    using a [of k offFreeStart] by (simp add: SetFreeStart_def nth_put)
qed

lemma SetFreeStart_length: "length p = 4096 \<Longrightarrow> length (SetFreeStart p n) = 4096"
  by (simp add: SetFreeStart_def)

lemma is_page_replicate [page_simps]: "is_page (replicate 4096 x)"
  by (simp add: is_page_def)

lemma get_zeros [simp]: "get16 (replicate n 0) off = 0" "get32 (replicate n 0) off = 0"
proof -
  have z: "be_dec (replicate k 0) = 0" for k by (induction k) auto
  show "get16 (replicate n 0) off = 0" "get32 (replicate n 0) off = 0"
    by (simp_all add: get16_def get32_def subslice_def z)
qed

lemma is_page_NewPage [page_simps]: "is_page (NewPage i k)"
  by (simp add: NewPage_def Let_def page_simps)

lemma header_NewPage [page_simps]:
  "ID (NewPage i k) = i" "KindOf (NewPage i k) = k" "Flags (NewPage i k) = 0"
  "ItemCount (NewPage i k) = 0" "FreeStart (NewPage i k) = 16" "FreeEnd (NewPage i k) = 4096"
  by (simp_all add: NewPage_def Let_def page_simps) (simp_all add: ItemCount_def Flags_def)

lemma subslice_NewPage [page_simps]:
  "HeaderSize \<le> off \<Longrightarrow> subslice off n (NewPage i k) = subslice off n (replicate 4096 0)"
  by (simp add: NewPage_def Let_def page_simps)

lemma NewPage_body: "HeaderSize \<le> off \<Longrightarrow> off + n \<le> PageSize \<Longrightarrow>
  subslice off n (NewPage i k) = replicate n 0"
  unfolding subslice_NewPage by (simp add: subslice_def)

section \<open>The bump allocator\<close>

text \<open>A page whose header can be trusted: the free space lies behind the header and inside the
  page.\<close>

definition wf_page :: "Page \<Rightarrow> bool" where
  "wf_page p \<longleftrightarrow> is_page p \<and> HeaderSize \<le> unat (FreeStart p)
     \<and> unat (FreeStart p) \<le> unat (FreeEnd p) \<and> unat (FreeEnd p) \<le> PageSize"

lemma FreeSpace_fits:
  "int n \<le> FreeSpace p \<longleftrightarrow> unat (FreeStart p) + n \<le> unat (FreeEnd p)"
  unfolding FreeSpace_def by linarith

lemma Append_fits:
  assumes "wf_page p" "int (length b) \<le> FreeSpace p"
  shows "Append p b = Some (Inr (FreeStart p),
    SetItemCount (SetFreeStart (overwrite (unat (FreeStart p)) b p)
      (FreeStart p + word_of_nat (length b))) (ItemCount p + 1))"
proof -
  have l: "unat (FreeStart p) + length b \<le> length p" "unat (FreeStart p) + length b \<le> 4096"
    using assms by (auto simp: wf_page_def FreeSpace_fits is_page_length)
  moreover have "ItemCount (SetFreeStart (overwrite (unat (FreeStart p)) b p) v) = ItemCount p" for v
    using assms(1) l by (simp add: wf_page_def page_simps)
  ultimately show ?thesis
    using assms by (simp add: Append_def Let_def copy_at_fits)
qed

lemma unat_FreeStart_add:
  assumes "wf_page p" "int (length b) \<le> FreeSpace p"
  shows "unat (FreeStart p + word_of_nat (length b)) = unat (FreeStart p) + length b"
  using assms by (simp add: wf_page_def FreeSpace_fits unat_word_ariths unat_of_nat)

section \<open>Properties\<close>

text \<open>Claim C38.  A page whose header is sound stays sound under \<open>Append\<close>, whatever is appended;
  \<open>Append\<close> never panics on it; it refuses exactly the strings longer than the free space and
  then changes nothing; otherwise the string is at the returned offset, which is the old free
  start, the free space shrinks by its length, the item count goes up by one (in 16 bits), and no
  byte of the page but the string's, the free start's and the item count's changes: everything written
  before is still there, and so is what lies behind, and the rest of the header.\<close>

theorem append_sound:
  assumes "wf_page p"
  shows "case Append p b of
      None \<Rightarrow> False
    | Some (Inl e, q) \<Rightarrow> q = p \<and> e = AppendNoFit (length b) (FreeSpace p) \<and> FreeSpace p < int (length b)
    | Some (Inr at, q) \<Rightarrow>
        wf_page q \<and> int (length b) \<le> FreeSpace p \<and> at = FreeStart p
        \<and> subslice (unat at) (length b) q = b
        \<and> FreeSpace q = FreeSpace p - int (length b)
        \<and> ItemCount q = ItemCount p + 1 \<and> FreeEnd q = FreeEnd p
        \<and> ID q = ID p \<and> KindOf q = KindOf p \<and> Flags q = Flags p
        \<and> (\<forall>k < PageSize. (k < unat at \<or> unat at + length b \<le> k)
             \<and> k \<notin> {offItemCount, offItemCount + 1, offFreeStart, offFreeStart + 1} \<longrightarrow> q ! k = p ! k)"
proof (cases "int (length b) \<le> FreeSpace p")
  case False
  then show ?thesis by (simp add: Append_def)
next
  case True
  have l: "unat (FreeStart p) + length b \<le> 4096" "is_page p" "16 \<le> unat (FreeStart p)"
    using assms True by (auto simp: wf_page_def FreeSpace_fits)
  let ?q = "\<lambda>v c. SetItemCount (SetFreeStart (overwrite (unat (FreeStart p)) b p) v) c"
  have "?q v c ! k = p ! k"
    if "k < 4096" "k < unat (FreeStart p) \<or> unat (FreeStart p) + length b \<le> k"
      "k \<notin> {offItemCount, offItemCount + 1, offFreeStart, offFreeStart + 1}" for v c k
    using that l by (auto simp: nth_header_store is_page_length nth_overwrite SetFreeStart_length)
  then have "\<forall>k < 4096. (k < unat (FreeStart p) \<or> unat (FreeStart p) + length b \<le> k)
      \<and> k \<notin> {offItemCount, offItemCount + 1, offFreeStart, offFreeStart + 1} \<longrightarrow> ?q v c ! k = p ! k" for v c
    by blast
  then show ?thesis
    using assms True l unat_FreeStart_add [OF assms True]
    unfolding Append_fits [OF assms True]
    by (simp add: page_simps wf_page_def FreeSpace_fits slice_simps is_page_length)
      (simp add: FreeSpace_def page_simps)
qed

theorem append_sound_witness:
  "\<exists>q. Append (NewPage 7 KindHeap) [1, 2, 3] = Some (Inr 16, q) \<and> subslice 16 3 q = [1, 2, 3]
     \<and> q ! 19 = NewPage 7 KindHeap ! 19"
proof -
  have w: "wf_page (NewPage 7 KindHeap)" by (simp add: wf_page_def page_simps)
  have "FreeSpace (NewPage 7 KindHeap) = 4080" by (simp add: FreeSpace_def page_simps)
  note s = append_sound [OF w, of "[1, 2, 3]"]
  then obtain r q where A: "Append (NewPage 7 KindHeap) [1, 2, 3] = Some (r, q)"
    by (cases "Append (NewPage 7 KindHeap) [1, 2, 3]") auto
  with s \<open>FreeSpace (NewPage 7 KindHeap) = 4080\<close> show ?thesis
    by (cases r) (auto simp: page_simps numeral_3_eq_3)
qed

end
