(* ===== verification/Text.thy ===== *)
theory Text
  imports Pages
begin

text \<open>
  The verbs of \<open>fmt\<close> the packages format their descriptions with, \<open>strings.Join\<close>, \<open>Kind.String\<close> of
  \<open>page/page.go\<close>, and the hex dump of \<open>nodepage/describe.go\<close>.  All texts are ASCII, so padding counts
  characters.
\<close>

section \<open>\<open>fmt\<close>\<close>

abbreviation nl :: string where "nl \<equiv> [CHR 0x0A]"

definition digit :: "nat \<Rightarrow> char" where
  "digit n = char_of (if n < 10 then 48 + n else 55 + n)"

text \<open>\<open>%d\<close> and \<open>%X\<close> are the bases 10 and 16.\<close>

fun in_base :: "nat \<Rightarrow> nat \<Rightarrow> string" where
  "in_base b n = (if b \<le> 1 \<or> n < b then [digit n] else in_base b (n div b) @ [digit (n mod b)])"

declare in_base.simps [simp del]

abbreviation dec :: "nat \<Rightarrow> string" where "dec \<equiv> in_base 10"

definition dec_int :: "int \<Rightarrow> string" where
  "dec_int i = (if i < 0 then CHR 0x2D # dec (nat (- i)) else dec (nat i))"

definition pad_left :: "char \<Rightarrow> nat \<Rightarrow> string \<Rightarrow> string" where
  "pad_left c w s = replicate (w - length s) c @ s"

definition pad_right :: "nat \<Rightarrow> string \<Rightarrow> string" where
  "pad_right w s = s @ replicate (w - length s) CHR 0x20"

definition hex2 :: "u8 \<Rightarrow> string" where
  "hex2 b = [digit (unat b div 16), digit (unat b mod 16)]"

definition join :: "string \<Rightarrow> string list \<Rightarrow> string" where
  "join sep ss = (case ss of [] \<Rightarrow> [] | s # ss \<Rightarrow> s @ concat (map (\<lambda>s. sep @ s) ss))"

text \<open>\<open>% 02X\<close> of a byte slice.\<close>

definition hex_bytes :: "bytes \<Rightarrow> string" where
  "hex_bytes b = join '' '' (map hex2 b)"

text \<open>\<open>%08b\<close> of a byte.\<close>

definition bin8 :: "u8 \<Rightarrow> string" where
  "bin8 b = pad_left CHR 0x30 8 (in_base 2 (unat b))"

section \<open>\<open>Kind.String\<close>\<close>

definition KindString :: "Kind \<Rightarrow> string" where
  "KindString k =
     (if k = KindFree then ''free''
      else if k = KindMeta then ''meta''
      else if k = KindHeap then ''heap''
      else if k = KindBTreeLeaf then ''btree-leaf''
      else if k = KindBTreeInternal then ''btree-internal''
      else if k = KindFreeList then ''free-list''
      else ''kind('' @ dec (unat k) @ '')'')"

section \<open>Hex dumps\<close>

definition printable :: "u8 \<Rightarrow> char" where
  "printable c = (if 0x20 \<le> c \<and> c < 0x7F then char_of (unat c) else CHR 0x2E)"

definition dump_line :: "bytes \<Rightarrow> nat \<Rightarrow> string" where
  "dump_line line at =
     pad_left CHR 0x30 4 (in_base 16 at) @ ''  ''
     @ concat (map (\<lambda>i. (if i = 8 then '' '' else []) @ (if i < length line then hex2 (line ! i) @ '' '' else ''   ''))
         [0..<16])
     @ '' |'' @ map printable line @ ''|'' @ nl"

function Hexdump :: "bytes \<Rightarrow> nat \<Rightarrow> string" where
  "Hexdump b base = (if b = [] then [] else dump_line (take 16 b) base @ Hexdump (drop 16 b) (base + 16))"
  by pat_completeness auto
termination by (relation "measure (\<lambda>(b, base). length b)") auto

declare Hexdump.simps [simp del]

end
