(* ===== verification/Slots.thy ===== *)
theory Slots
  imports Text
begin

text \<open>
  Package \<open>slots\<close>: fixed-size, aligned record slots inside a page.  A Go \<open>int\<close> argument is an
  \<open>int\<close>, and where a sum or product can leave the 64 bits of the type the wrap-around is written out
  as \<open>int64\<close>; division truncates.  The fields of a \<open>Layout\<close> are 16-bit words, so every conversion
  the code makes is written out.
\<close>

definition DefaultAlign :: int where
  "DefaultAlign = 8"

datatype slots_error = SlotNoFit | SlotOutOfRange | SlotRecordSize | SlotBadAlign | SlotZeroLayout

definition Align :: "int \<Rightarrow> int \<Rightarrow> int" where
  "Align n to =
     (if to \<le> 1 \<or> n \<le> 0 then n
      else (let r = n mod to in if r = 0 then n else int64 (n + to - r)))"

definition Padding :: "int \<Rightarrow> int \<Rightarrow> int" where
  "Padding n to = Align n to - n"

text \<open>The bound is that of the type, and true of every argument.\<close>

definition isPowerOfTwo :: "int \<Rightarrow> bool" where
  "isPowerOfTwo n \<longleftrightarrow> n > 0 \<and> n < 2 ^ 63 \<and> n AND (n - 1) = 0"

record Layout =
  recordSize :: u16
  slotSize :: u16
  capacity :: u16
  base :: u16
  alignment :: u16

definition zeroLayout :: Layout where
  "zeroLayout = \<lparr>recordSize = 0, slotSize = 0, capacity = 0, base = 0, alignment = 0\<rparr>"

definition NewLayout :: "int \<Rightarrow> int \<Rightarrow> slots_error + Layout" where
  "NewLayout recSize align =
     (if \<not> isPowerOfTwo align then Inl SlotBadAlign
      else if recSize \<le> 0 \<or> recSize > int PageSize then Inl SlotNoFit
      else
        (let bas = Align (int HeaderSize) align;
             slot = Align recSize align
         in if slot \<le> 0 \<or> int64 (bas + slot) > int PageSize then Inl SlotNoFit
            else
              (let cap = (int PageSize - bas) sdiv slot in
               if int64 (bas + int64 (cap * slot)) > int PageSize then Inl SlotNoFit
               else Inr \<lparr>recordSize = word_of_int recSize, slotSize = word_of_int slot,
                         capacity = word_of_int cap, base = word_of_int bas,
                         alignment = word_of_int align\<rparr>)))"

definition SlotOffset :: "Layout \<Rightarrow> int \<Rightarrow> int" where
  "SlotOffset l i = uint (base l) + i * uint (slotSize l)"

definition PadPerSlot :: "Layout \<Rightarrow> int" where
  "PadPerSlot l = uint (slotSize l) - uint (recordSize l)"

definition Tail :: "Layout \<Rightarrow> int" where
  "Tail l = int PageSize - uint (base l) - uint (capacity l) * uint (slotSize l)"

definition Waste :: "Layout \<Rightarrow> int" where
  "Waste l = PadPerSlot l * uint (capacity l) + Tail l"

definition LayoutString :: "Layout \<Rightarrow> string" where
  "LayoutString l =
     (if slotSize l = 0 then ''invalid layout''
      else ''record '' @ dec (unat (recordSize l)) @ '' -> slot '' @ dec (unat (slotSize l))
        @ '' (pad '' @ dec_int (PadPerSlot l) @ ''), '' @ dec (unat (capacity l)) @ '' per page, ''
        @ dec_int (Waste l) @ '' bytes wasted'')"

definition rangeErr :: "Layout \<Rightarrow> Page \<Rightarrow> int \<Rightarrow> slots_error" where
  "rangeErr l p i =
     (if slotSize l = 0 then SlotZeroLayout
      else if i < 0 \<or> i \<ge> uint (capacity l) then SlotOutOfRange
      else SlotNoFit)"

definition slotRange :: "Layout \<Rightarrow> Page \<Rightarrow> int \<Rightarrow> slots_error + nat \<times> nat" where
  "slotRange l p i =
     (if slotSize l = 0 \<or> i < 0 \<or> i \<ge> uint (capacity l) then Inl (rangeErr l p i)
      else
        (let start = uint (base l) + i * uint (slotSize l);
             e = start + uint (slotSize l)
         in if e > int (length p) then Inl (rangeErr l p i) else Inr (nat start, nat e)))"

text \<open>\<open>Put\<close>: the record, then zeros up to the end of the slot, then the header.  The page is
  returned as it is when there is an error.\<close>

definition SlotPut :: "Layout \<Rightarrow> Page \<Rightarrow> int \<Rightarrow> bytes \<Rightarrow> (slots_error option) \<times> Page" where
  "SlotPut l p i rec =
     (case slotRange l p i of
        Inl e \<Rightarrow> (Some e, p)
      | Inr (off, e) \<Rightarrow>
          if length rec \<noteq> unat (recordSize l) then (Some SlotRecordSize, p)
          else
            (let p = overwrite off (take (e - off) rec) p;
                 p = overwrite (off + length rec) (replicate (e - (off + length rec)) 0) p;
                 p = (if word_of_int i + 1 > ItemCount p then SetItemCount p (word_of_int i + 1)
                      else p);
                 p = SetFreeStart p (word_of_int (SlotOffset l (uint (ItemCount p))))
             in (None, p)))"

definition SlotGetRef :: "Layout \<Rightarrow> Page \<Rightarrow> int \<Rightarrow> slots_error + bytes" where
  "SlotGetRef l p i =
     (case slotRange l p i of
        Inl e \<Rightarrow> Inl e
      | Inr (off, _) \<Rightarrow> Inr (subslice off (unat (recordSize l)) p))"

definition SlotGet :: "Layout \<Rightarrow> Page \<Rightarrow> int \<Rightarrow> slots_error + bytes" where
  "SlotGet l p i =
     (case SlotGetRef l p i of
        Inl e \<Rightarrow> Inl e
      | Inr ref \<Rightarrow> Inr (overwrite 0 ref (replicate (length ref) 0)))"

section \<open>Geometry\<close>

lemma div_times_le_int: "0 < s \<Longrightarrow> x div s * s \<le> (x :: int)"
  using div_mult_mod_eq [of x s] pos_mod_sign [of s x] by linarith

lemma div_le_dividend_int: "0 < s \<Longrightarrow> 0 \<le> x \<Longrightarrow> x div s \<le> (x :: int)"
  using div_times_le_int [of s x] mult_left_mono [of 1 s "x div s"]
  by (simp add: pos_imp_zdiv_nonneg_iff)

lemma Align_value:
  assumes "0 < n" "1 < to" "n \<le> 4096" "to < 2 ^ 63" "n mod to \<noteq> 0"
  shows "Align n to = n + to - n mod to"
proof -
  have r: "0 \<le> n mod to" "n mod to < to" "n mod to = n \<or> to \<le> 4096"
    using assms by (auto simp: mod_pos_pos_trivial)
  have "- (2 ^ 63) \<le> n + to - n mod to" using assms(1) r(2) by simp
  moreover have "n + to - n mod to < 2 ^ 63" using r(3)
  proof
    assume "to \<le> 4096"
    then have "n + to - n mod to \<le> 8192" using assms(3) r(1) by linarith
    then show ?thesis by simp
  qed (use assms(4) in simp)
  ultimately have "int64 (n + to - n mod to) = n + to - n mod to" by (rule int64_id)
  then show ?thesis using assms by (simp add: Align_def Let_def)
qed

lemma Align_props:
  assumes "0 < n" "0 < to" "n \<le> 4096" "to < 2 ^ 63"
  shows "n \<le> Align n to" "Align n to < n + to" "to dvd Align n to"
proof -
  have r: "0 \<le> n mod to" "n mod to < to" using assms by simp_all
  have "to dvd n - n mod to" by (simp add: minus_mod_eq_mult_div)
  then have d: "to dvd (n - n mod to) + to" by (rule dvd_add) simp
  consider "to = 1" | "1 < to" "n mod to = 0" | "1 < to" "0 < n mod to" using assms r by linarith
  then have "n \<le> Align n to \<and> Align n to < n + to \<and> to dvd Align n to"
  proof cases
    case 2
    then show ?thesis using assms by (auto simp: Align_def)
  next
    case 3
    then have "Align n to = (n - n mod to) + to" using assms Align_value [of n to] by simp
    then show ?thesis using d less_imp_le [OF r(2)] 3 by simp
  qed (simp add: Align_def)
  then show "n \<le> Align n to" "Align n to < n + to" "to dvd Align n to" by blast+
qed

text \<open>What \<open>NewLayout\<close> guarantees of the layouts it returns.\<close>

definition wf_layout :: "Layout \<Rightarrow> bool" where
  "wf_layout l \<longleftrightarrow>
     0 < uint (recordSize l) \<and> uint (recordSize l) \<le> uint (slotSize l)
     \<and> int HeaderSize \<le> uint (base l) \<and> 0 < uint (capacity l)
     \<and> uint (base l) + uint (capacity l) * uint (slotSize l) \<le> int PageSize"

lemma uint_word16: "0 \<le> n \<Longrightarrow> n < 65536 \<Longrightarrow> uint (word_of_int n :: u16) = n"
  by (simp add: uint_word_of_int)

text \<open>A layout is only accepted when no sum has wrapped around: an alignment so large that the sum of
  base and slot turns negative passes the first check on the size and is caught by the second, which
  therefore is needed.\<close>

lemma large_align_wraps: "int64 (Align 16 (2 ^ 62) + Align 1 (2 ^ 62)) = - (2 ^ 63)" "NewLayout 1 (2 ^ 62) = Inl SlotNoFit"
proof -
  have p: "isPowerOfTwo (2 ^ 62)" by (simp add: isPowerOfTwo_def)
  show "int64 (Align 16 (2 ^ 62) + Align 1 (2 ^ 62)) = - (2 ^ 63)" by (simp add: Align_def int64_def)
  then show "NewLayout 1 (2 ^ 62) = Inl SlotNoFit"
    using p by (simp add: NewLayout_def Let_def Align_def int64_def signed_divide_int_def)
qed

lemma NewLayout_small:
  assumes "NewLayout r a = Inr l"
  shows "0 < a" "a \<le> 4096" "0 < r" "r \<le> 4096" "Align 16 a + Align r a \<le> 4096"
    "l = \<lparr>recordSize = word_of_int r, slotSize = word_of_int (Align r a),
      capacity = word_of_int ((4096 - Align 16 a) div Align r a), base = word_of_int (Align 16 a),
      alignment = word_of_int a\<rparr>"
proof -
  let ?b = "Align 16 a" and ?s = "Align r a"
  have c: "0 < a" "a < 2 ^ 63" "0 < r" "r \<le> 4096" "0 < ?s" "int64 (?b + ?s) \<le> 4096"
      "int64 (?b + int64 ((4096 - ?b) sdiv ?s * ?s)) \<le> 4096"
    and l: "l = \<lparr>recordSize = word_of_int r, slotSize = word_of_int ?s,
      capacity = word_of_int ((4096 - ?b) sdiv ?s), base = word_of_int ?b, alignment = word_of_int a\<rparr>"
    using assms by (auto simp: NewLayout_def Let_def isPowerOfTwo_def split: if_splits)
  show a: "a \<le> 4096"
  proof (rule ccontr)
    assume big: "\<not> a \<le> 4096"
    then have "?b = a" "?s = a" using c(1-4) Align_value [of 16 a] Align_value [of r a] by simp_all
    moreover have "(4096 - a) sdiv a = 0" using big by (simp add: signed_divide_int_def)
    moreover have "int64 a = a" "int64 0 = 0" using c(1,2) by (simp_all add: int64_id)
    ultimately show False using c(7) big by simp
  qed
  have "16 \<le> ?b" "?b < 16 + a" "?s < r + a" using Align_props [of 16 a] Align_props [of r a] c(1-4) by simp_all
  then have "int64 (?b + ?s) = ?b + ?s" using a c(4,5) by (intro int64_id) simp_all
  then show sum: "?b + ?s \<le> 4096" using c(6) by simp
  have "(4096 - ?b) sdiv ?s = (4096 - ?b) div ?s" using sum c(5) by (simp add: signed_divide_int_def sgn_if)
  then show "l = \<lparr>recordSize = word_of_int r, slotSize = word_of_int ?s,
      capacity = word_of_int ((4096 - ?b) div ?s), base = word_of_int ?b, alignment = word_of_int a\<rparr>"
    using l by simp
qed (use assms in \<open>auto simp: NewLayout_def Let_def isPowerOfTwo_def split: if_splits\<close>)

lemma NewLayout_Align:
  assumes "NewLayout r a = Inr l"
  shows "r \<le> Align r a" "Align r a < r + a" "a dvd Align r a" "16 \<le> Align 16 a" "Align 16 a < 16 + a" "a dvd Align 16 a"
  using Align_props [of r a] Align_props [of 16 a] NewLayout_small(1-4) [OF assms] by simp_all

lemma NewLayout_Inr:
  assumes "NewLayout r a = Inr l"
  shows "uint (recordSize l) = r" "uint (slotSize l) = Align r a" "uint (base l) = Align 16 a"
    "uint (alignment l) = a" "uint (capacity l) = (4096 - Align 16 a) div Align r a" "0 < a"
    "0 < r" "Align 16 a + Align r a \<le> 4096"
proof -
  let ?b = "Align 16 a" and ?s = "Align r a"
  note c = NewLayout_small [OF assms] and b = NewLayout_Align [OF assms]
  have "(4096 - ?b) div ?s \<le> 4096 - ?b" using c(1-5) b by (intro div_le_dividend_int) auto
  moreover have "0 \<le> (4096 - ?b) div ?s" using c(1-5) b by (simp add: pos_imp_zdiv_nonneg_iff)
  ultimately show "uint (recordSize l) = r" "uint (slotSize l) = ?s" "uint (base l) = ?b"
    "uint (alignment l) = a" "uint (capacity l) = (4096 - ?b) div ?s" "0 < a" "0 < r" "?b + ?s \<le> 4096"
    unfolding c(6) using c(1-5) b by (simp_all add: uint_word16)
qed

lemma NewLayout_wf:
  assumes "NewLayout r a = Inr l"
  shows "wf_layout l"
proof -
  note e = NewLayout_Inr [OF assms]
  note b = NewLayout_Align(1,4) [OF assms]
  have s: "0 < Align r a" using b e by simp
  have "0 < (4096 - Align 16 a) div Align r a" using e s by (simp add: pos_imp_zdiv_pos_iff)
  moreover have "(4096 - Align 16 a) div Align r a * Align r a \<le> 4096 - Align 16 a"
    using s by (rule div_times_le_int)
  ultimately show ?thesis unfolding wf_layout_def using e b by simp
qed

lemma slot_end:
  assumes "wf_layout l" "0 \<le> i" "i < uint (capacity l)"
  shows "16 \<le> SlotOffset l i" "SlotOffset l i + uint (slotSize l) \<le> 4096"
proof -
  have "(i + 1) * uint (slotSize l) \<le> uint (capacity l) * uint (slotSize l)"
    using assms by (intro mult_right_mono) auto
  then have "i * uint (slotSize l) + uint (slotSize l) \<le> uint (capacity l) * uint (slotSize l)"
    by (simp add: distrib_right)
  moreover have "0 \<le> i * uint (slotSize l)" using assms by simp
  ultimately show "16 \<le> SlotOffset l i" "SlotOffset l i + uint (slotSize l) \<le> 4096"
    using assms unfolding wf_layout_def SlotOffset_def by linarith+
qed

lemma SlotOffset_bound:
  assumes "wf_layout l" "0 \<le> i" "i < uint (capacity l)"
  shows "i < 4096"
proof -
  have "i * 1 \<le> i * uint (slotSize l)" using assms by (intro mult_left_mono) (auto simp: wf_layout_def)
  then show ?thesis using slot_end [OF assms] assms(1) by (simp add: SlotOffset_def wf_layout_def)
qed

lemma slot_apart:
  assumes "i < j"
  shows "SlotOffset l i + uint (slotSize l) \<le> SlotOffset l j"
proof -
  have "(i + 1) * uint (slotSize l) \<le> j * uint (slotSize l)"
    using assms by (intro mult_right_mono) auto
  then show ?thesis by (simp add: SlotOffset_def distrib_right)
qed

lemma slot_nat:
  assumes "wf_layout l" "0 \<le> i" "i < uint (capacity l)"
  shows "unat (recordSize l) \<le> unat (slotSize l)" "16 \<le> nat (SlotOffset l i)"
    "nat (SlotOffset l i) + unat (slotSize l) \<le> 4096" "int (nat (SlotOffset l i)) = SlotOffset l i"
proof -
  have "int (unat (recordSize l)) \<le> int (unat (slotSize l))" using assms(1) by (simp add: wf_layout_def)
  then show "unat (recordSize l) \<le> unat (slotSize l)" by linarith
  show o: "int (nat (SlotOffset l i)) = SlotOffset l i" "16 \<le> nat (SlotOffset l i)"
    using slot_end [OF assms] by simp_all
  have "int (nat (SlotOffset l i)) + int (unat (slotSize l)) \<le> 4096"
    using slot_end [OF assms] by simp
  then show "nat (SlotOffset l i) + unat (slotSize l) \<le> 4096" by linarith
qed

lemma wf_slotSize: "wf_layout l \<Longrightarrow> slotSize l \<noteq> 0"
  by (auto simp: wf_layout_def)

lemma slotRange_in:
  assumes "wf_layout l" "is_page p" "0 \<le> i" "i < uint (capacity l)"
  shows "slotRange l p i = Inr (nat (SlotOffset l i), nat (SlotOffset l i) + unat (slotSize l))"
proof -
  have "nat (SlotOffset l i + uint (slotSize l)) = nat (SlotOffset l i) + unat (slotSize l)"
    using slot_end [OF assms(1,3,4)] by (simp add: nat_add_distrib)
  then show ?thesis
    using slot_end [OF assms(1,3,4)] wf_slotSize [OF assms(1)] assms
    by (simp add: slotRange_def Let_def is_page_length SlotOffset_def)
qed

lemma SlotGet_in:
  assumes "wf_layout l" "is_page p" "0 \<le> i" "i < uint (capacity l)"
  shows "SlotGet l p i = Inr (subslice (nat (SlotOffset l i)) (unat (recordSize l)) p)"
  using slotRange_in [OF assms] by (simp add: SlotGet_def SlotGetRef_def overwrite_def)

lemma SlotGet_other:
  assumes "wf_layout l" "is_page p" "is_page q" "j \<noteq> i" "0 \<le> i" "i < uint (capacity l)"
    and "\<And>off n. 16 \<le> off \<Longrightarrow>
      off + n \<le> nat (SlotOffset l i) \<or> nat (SlotOffset l i) + unat (slotSize l) \<le> off \<Longrightarrow>
      subslice off n q = subslice off n p"
  shows "SlotGet l q j = SlotGet l p j"
proof (cases "0 \<le> j \<and> j < uint (capacity l)")
  case True
  let ?o = "nat (SlotOffset l i)" and ?u = "nat (SlotOffset l j)" and ?s = "unat (slotSize l)"
  have u: "16 \<le> ?u" "unat (recordSize l) \<le> ?s" and int: "int ?o = SlotOffset l i" "int ?u = SlotOffset l j"
    using slot_nat [OF assms(1,5,6)] slot_nat [OF assms(1), of j] True by simp_all
  have "int ?u + int ?s \<le> int ?o \<or> int ?o + int ?s \<le> int ?u"
    unfolding int using slot_apart [of i j l] slot_apart [of j i l] assms(4) by (simp, linarith)
  then have "?u + unat (recordSize l) \<le> ?o \<or> ?o + ?s \<le> ?u" using u(2) by linarith
  then show ?thesis
    using assms(7) [OF u(1)] True SlotGet_in [OF assms(1,2)] SlotGet_in [OF assms(1,3)] by simp
next
  case False
  then show ?thesis using wf_slotSize [OF assms(1)]
    by (auto simp: SlotGet_def SlotGetRef_def slotRange_def rangeErr_def)
qed

lemma SlotPut_in:
  assumes "wf_layout l" "is_page p" "0 \<le> i" "i < uint (capacity l)" "length rec = unat (recordSize l)"
  shows "\<exists>q. SlotPut l p i rec = (None, q) \<and> is_page q
    \<and> ItemCount q = max (ItemCount p) (word_of_int i + 1)
    \<and> FreeStart q = word_of_int (SlotOffset l (uint (ItemCount q)))
    \<and> (\<forall>off n. 16 \<le> off \<longrightarrow> subslice off n q =
        subslice off n (overwrite (nat (SlotOffset l i)) (rec @ replicate (unat (slotSize l) - length rec) 0) p))"
proof -
  let ?o = "nat (SlotOffset l i)" and ?s = "unat (slotSize l)"
  note nat = slot_nat [OF assms(1,3,4)]
  have sz: "length rec \<le> ?s" "?o + ?s \<le> 4096" "16 \<le> ?o" using nat assms(5) by simp_all
  let ?p1 = "overwrite ?o (rec @ replicate (?s - length rec) 0) p"
  have "4096 \<le> ?o \<Longrightarrow> length rec = 0" using sz by linarith
  then have two: "overwrite (?o + length rec) (replicate (?s - length rec) 0) (overwrite ?o rec p) = ?p1"
    using sz assms(2) by (auto simp: overwrite_def is_page_length min_def add.commute)
  have p1: "is_page ?p1" "ItemCount ?p1 = ItemCount p"
    using assms(2) sz by (simp_all add: page_simps)
  let ?p2 = "if word_of_int i + 1 > ItemCount p then SetItemCount ?p1 (word_of_int i + 1) else ?p1"
  have p2: "is_page ?p2" "ItemCount ?p2 = max (ItemCount p) (word_of_int i + 1)"
    "\<And>off n. 16 \<le> off \<Longrightarrow> subslice off n ?p2 = subslice off n ?p1"
    using p1 by (auto simp: page_simps max_def)
  have "SlotPut l p i rec = (None, SetFreeStart ?p2 (word_of_int (SlotOffset l (uint (ItemCount ?p2)))))"
    unfolding SlotPut_def slotRange_in [OF assms(1-4)]
    using sz by (simp add: assms(5) [symmetric] two p1 Let_def)
  then show ?thesis using p2 by (simp add: page_simps)
qed

text \<open>The page back after \<open>Put\<close>, byte by byte.\<close>

lemma SlotPut_bytes:
  assumes "wf_layout l" "is_page p" "0 \<le> i" "i < uint (capacity l)" "length rec = unat (recordSize l)"
    and "SlotPut l p i rec = (None, q)" "k < 4096"
    and "k < nat (SlotOffset l i) \<or> nat (SlotOffset l i) + unat (slotSize l) \<le> k"
    and "k \<notin> {offItemCount, offItemCount + 1, offFreeStart, offFreeStart + 1}"
  shows "q ! k = p ! k"
proof -
  let ?o = "nat (SlotOffset l i)" and ?s = "unat (slotSize l)"
  note nat = slot_nat [OF assms(1,3,4)]
  let ?p1 = "overwrite (?o + length rec) (replicate (?o + ?s - (?o + length rec)) 0) (overwrite ?o rec p)"
  let ?p2 = "if word_of_int i + 1 > ItemCount ?p1 then SetItemCount ?p1 (word_of_int i + 1) else ?p1"
  have sz: "length rec \<le> ?s" "?o + ?s \<le> 4096" "16 \<le> ?o" using nat assms(5) by simp_all
  have l: "length p = 4096" "length ?p1 = 4096" "length ?p2 = 4096"
    using assms(2) sz by (simp_all add: is_page_length SetItemCount_def)
  have q: "q = SetFreeStart ?p2 (word_of_int (SlotOffset l (uint (ItemCount ?p2))))"
    using assms(6) sz unfolding SlotPut_def slotRange_in [OF assms(1-4)]
    by (simp add: assms(5) [symmetric] Let_def cong: if_cong)
  have "q ! k = ?p2 ! k" unfolding q using l(3) assms(7,9) by (intro nth_header_store(2)) auto
  also have "\<dots> = ?p1 ! k" using nth_header_store(1) [OF l(2) assms(7)] assms(9) by auto
  also have "\<dots> = p ! k" using l(1) assms(7,8) sz by (auto simp: nth_overwrite)
  finally show ?thesis .
qed

text \<open>The alignments are the powers of two of the type.\<close>

lemma isPowerOfTwo_iff: "isPowerOfTwo a \<longleftrightarrow> (\<exists>k < 63. a = 2 ^ k)"
proof
  assume a: "isPowerOfTwo a"
  have pos: "0 < a" using a by (simp add: isPowerOfTwo_def)
  then have "1 \<le> nat a" by simp
  then obtain k where "2 ^ k \<le> nat a" "nat a < 2 ^ (k + 1)" using ex_power_ivl1 [of 2 "nat a"] by blast
  then have "int (2 ^ k) \<le> int (nat a)" "int (nat a) < int (2 ^ (k + 1))" by linarith+
  then have k: "2 ^ k \<le> a" "a < 2 ^ (k + 1)" using pos by simp_all
  have top: "bit x k" if "2 ^ k \<le> x" "x < 2 ^ (k + 1)" for x :: int
  proof -
    have "x div 2 ^ k = 1"
      using that by (intro int_div_pos_eq [of _ _ _ "x - 2 ^ k"]) auto
    then show ?thesis by (simp add: bit_iff_odd)
  qed
  have "a = 2 ^ k"
  proof (rule ccontr)
    assume "a \<noteq> 2 ^ k"
    then have "bit a k" "bit (a - 1) k" using top [of a] top [of "a - 1"] k by simp_all
    then have "bit (a AND (a - 1)) k" by (simp add: bit_and_iff)
    then show False using a by (simp add: isPowerOfTwo_def)
  qed
  moreover have "(2 :: int) ^ k < 2 ^ 63 \<Longrightarrow> k < 63" by (rule power_less_imp_less_exp [of "2 :: int"]) simp
  ultimately show "\<exists>k < 63. a = 2 ^ k" using a by (auto simp: isPowerOfTwo_def)
next
  assume "\<exists>k < 63. a = 2 ^ k"
  then obtain k where k: "k < 63" "a = 2 ^ k" by blast
  have "a AND mask k = take_bit k a" by (simp add: take_bit_eq_mask)
  then have "a AND (a - 1) = 0" by (simp add: k mask_eq_exp_minus_1)
  moreover have "(2 :: int) ^ k < 2 ^ 63" by (rule power_strict_increasing [OF k(1)]) simp
  ultimately show "isPowerOfTwo a" by (simp add: isPowerOfTwo_def k)
qed

text \<open>Rounding up, without the machine.\<close>

definition round_up :: "int \<Rightarrow> int \<Rightarrow> int" where
  "round_up n a = (n + a - 1) div a * a"

lemma Align_round_up:
  assumes "0 < n" "0 < a" "n \<le> 4096" "a < 2 ^ 63"
  shows "Align n a = round_up n a"
proof -
  note A = Align_props [OF assms]
  obtain m where m: "Align n a = m * a" using A(3) by (metis dvdE mult.commute)
  have "(n + a - 1) div a = m"
    using A(1,2) m by (intro int_div_pos_eq [of _ _ _ "n + a - 1 - m * a"]) (auto simp: mult.commute)
  then show ?thesis by (simp add: round_up_def m)
qed

text \<open>When \<open>NewLayout\<close> accepts.\<close>

lemma NewLayout_accepts:
  assumes "isPowerOfTwo a" "0 < r" "round_up 16 a + round_up r a \<le> 4096"
  shows "\<exists>l. NewLayout r a = Inr l"
proof -
  have a: "0 < a" "a < 2 ^ 63" using assms(1) by (simp_all add: isPowerOfTwo_def)
  have up: "n \<le> round_up n a" for n
    unfolding round_up_def
    using div_mult_mod_eq [of "n + a - 1" a] pos_mod_bound [OF a(1), of "n + a - 1"] by linarith
  have r: "r \<le> 4096" using up [of 16] up [of r] assms(3) by linarith
  let ?b = "Align 16 a" and ?s = "Align r a"
  have b: "?b = round_up 16 a" "?s = round_up r a"
    using Align_round_up [of 16 a] Align_round_up [of r a] a r assms(2) by simp_all
  have s: "16 \<le> ?b" "0 < ?s" "?b + ?s \<le> 4096" using b up [of 16] up [of r] assms(2,3) by simp_all
  have d: "(4096 - ?b) sdiv ?s = (4096 - ?b) div ?s" using s by (simp add: signed_divide_int_def sgn_if)
  have "0 \<le> (4096 - ?b) div ?s * ?s" "(4096 - ?b) div ?s * ?s \<le> 4096 - ?b"
    using s div_times_le_int [of ?s "4096 - ?b"] by (simp_all add: pos_imp_zdiv_nonneg_iff)
  then have "int64 ((4096 - ?b) div ?s * ?s) = (4096 - ?b) div ?s * ?s"
    "int64 (?b + (4096 - ?b) div ?s * ?s) = ?b + (4096 - ?b) div ?s * ?s" "int64 (?b + ?s) = ?b + ?s"
    "?b + (4096 - ?b) div ?s * ?s \<le> 4096"
    using s by (auto intro!: int64_id)
  then show ?thesis
    using assms(1,2) r s d by (simp add: NewLayout_def Let_def)
qed

lemma NewLayout_errors:
  "NewLayout r a = Inl e \<Longrightarrow> e = (if isPowerOfTwo a then SlotNoFit else SlotBadAlign)"
  by (auto simp: NewLayout_def Let_def split: if_splits)

section \<open>Properties\<close>

text \<open>Claim C39.  \<open>NewLayout\<close> accepts exactly a power-of-two alignment and a positive record size such
  that header and record, each rounded up to the alignment, fit a page together; it reports a bad
  alignment as such and everything else as not fitting.  The layout it returns gives every slot an
  offset found by arithmetic alone, which is a multiple of the alignment, behind the page header,
  with the whole slot inside the page, room for the record, and no byte shared with another slot;
  there is at least one slot, and as many as fit.\<close>

theorem layout_geometry:
  "case NewLayout r a of
     Inl e \<Rightarrow> e = (if \<exists>k < 63. a = 2 ^ k then SlotNoFit else SlotBadAlign)
       \<and> \<not> ((\<exists>k < 63. a = 2 ^ k) \<and> 0 < r \<and> round_up (int HeaderSize) a + round_up r a \<le> int PageSize)
   | Inr l \<Rightarrow> (\<exists>k < 63. a = 2 ^ k) \<and> 0 < r \<and> round_up (int HeaderSize) a + round_up r a \<le> int PageSize
       \<and> uint (recordSize l) = r \<and> uint (alignment l) = a
       \<and> uint (slotSize l) = round_up r a \<and> r \<le> uint (slotSize l) \<and> uint (slotSize l) < r + a
       \<and> uint (base l) = round_up (int HeaderSize) a \<and> 0 < uint (capacity l)
       \<and> (\<forall>i. 0 \<le> i \<and> i < uint (capacity l) \<longrightarrow>
            a dvd SlotOffset l i \<and> int HeaderSize \<le> SlotOffset l i
            \<and> SlotOffset l i + uint (slotSize l) \<le> int PageSize)
       \<and> (\<forall>i j. i < j \<longrightarrow> SlotOffset l i + uint (slotSize l) \<le> SlotOffset l j)
       \<and> int PageSize < SlotOffset l (uint (capacity l)) + uint (slotSize l)
       \<and> Waste l = int PageSize - uint (base l) - uint (capacity l) * r"
proof (cases "NewLayout r a")
  case (Inl e)
  have "\<not> (isPowerOfTwo a \<and> 0 < r \<and> round_up 16 a + round_up r a \<le> 4096)"
    using NewLayout_accepts [of a r] Inl by auto
  then show ?thesis using NewLayout_errors [OF Inl] Inl by (simp flip: isPowerOfTwo_iff)
next
  case (Inr l)
  note e = NewLayout_Inr [OF Inr] and c = NewLayout_small [OF Inr]
  have wf: "wf_layout l" by (rule NewLayout_wf [OF Inr])
  have pow: "\<exists>k < 63. a = 2 ^ k"
    using Inr unfolding isPowerOfTwo_iff [symmetric] by (simp add: NewLayout_def split: if_splits)
  have s: "r \<le> Align r a" "Align r a < r + a" "a dvd Align r a" "a dvd Align 16 a" "0 < Align r a"
    using NewLayout_Align [OF Inr] e(7) by simp_all
  have up: "Align 16 a = round_up 16 a" "Align r a = round_up r a"
    using Align_round_up [of 16 a] Align_round_up [of r a] c(1-4) by simp_all
  have full: "4096 < Align 16 a + (4096 - Align 16 a) div Align r a * Align r a + Align r a"
    using div_mult_mod_eq [of "4096 - Align 16 a" "Align r a"]
      pos_mod_bound [OF s(5), of "4096 - Align 16 a"] by linarith
  have "a dvd SlotOffset l i" for i using s(3,4) e(2,3) by (simp add: SlotOffset_def)
  moreover have "0 < uint (capacity l)" using wf by (simp add: wf_layout_def)
  moreover have "4096 < SlotOffset l (uint (capacity l)) + uint (slotSize l)"
    using full by (simp add: SlotOffset_def e(2,3,5))
  moreover have "Waste l = 4096 - uint (base l) - uint (capacity l) * r"
    by (simp add: Waste_def PadPerSlot_def Tail_def e(1) algebra_simps)
  moreover have "uint (slotSize l) = round_up r a" "uint (base l) = round_up 16 a"
    "round_up 16 a + round_up r a \<le> 4096" "uint (slotSize l) < r + a" "r \<le> uint (slotSize l)"
    using e(2,3,8) s(1,2) up by simp_all
  ultimately show ?thesis
    using Inr pow e(1,4,7) slot_end [OF wf] slot_apart [of _ _ l] by simp
qed

theorem layout_geometry_witness:
  "\<exists>l. NewLayout 3000 8 = Inr l \<and> capacity l = 1 \<and> SlotOffset l 0 + uint (slotSize l) \<le> 4096
     \<and> int PageSize < SlotOffset l 1 + uint (slotSize l)"
proof -
  define l where "l = \<lparr>recordSize = 3000, slotSize = 3000, capacity = 1, base = 16, alignment = 8 :: u16\<rparr>"
  have N: "NewLayout 3000 8 = Inr l"
    by (simp add: NewLayout_def isPowerOfTwo_def Align_def int64_def signed_divide_int_def Let_def l_def)
  have c: "capacity l = 1" by (simp add: l_def)
  from layout_geometry [where r = 3000 and a = 8] have g:
    "\<forall>i. 0 \<le> i \<and> i < uint (capacity l) \<longrightarrow> SlotOffset l i + uint (slotSize l) \<le> int PageSize"
    "int PageSize < SlotOffset l (uint (capacity l)) + uint (slotSize l)" unfolding N sum.case by blast+
  show ?thesis using N c g(1) [rule_format, of 0] g(2) by simp
qed

text \<open>Claim C40.  Through a layout built by \<open>NewLayout\<close>, whatever its number of slots, a stored record is
  read back and the rest of its slot is zeroed; of the page no byte outside that slot changes but the
  item count, which covers the slot, and the free start, which points behind the last counted slot;
  so every other slot reads what it read before.  An index outside the layout, or a record of
  another size, is refused and changes nothing.\<close>

theorem slot_put_get:
  assumes "NewLayout r a = Inr l" "is_page p" "0 \<le> i" "i < uint (capacity l)" "int (length rec) = r"
  shows "\<exists>q. SlotPut l p i rec = (None, q) \<and> is_page q
       \<and> SlotGet l q i = Inr rec
       \<and> subslice (nat (SlotOffset l i) + length rec) (unat (slotSize l) - length rec) q
           = replicate (unat (slotSize l) - length rec) 0
       \<and> (\<forall>k < PageSize. (k < nat (SlotOffset l i) \<or> nat (SlotOffset l i) + unat (slotSize l) \<le> k)
            \<and> k \<notin> {offItemCount, offItemCount + 1, offFreeStart, offFreeStart + 1} \<longrightarrow> q ! k = p ! k)
       \<and> (\<forall>j. j \<noteq> i \<longrightarrow> SlotGet l q j = SlotGet l p j)
       \<and> i < uint (ItemCount q) \<and> uint (ItemCount q) = max (uint (ItemCount p)) (i + 1)
       \<and> FreeStart q = word_of_int (SlotOffset l (uint (ItemCount q)))
       \<and> (\<forall>j rec'. j < 0 \<or> uint (capacity l) \<le> j \<longrightarrow> SlotPut l p j rec' = (Some SlotOutOfRange, p))
       \<and> (\<forall>rec'. length rec' \<noteq> length rec \<longrightarrow> SlotPut l p i rec' = (Some SlotRecordSize, p))"
proof -
  let ?o = "nat (SlotOffset l i)" and ?s = "unat (slotSize l)"
  let ?b = "rec @ replicate (?s - length rec) 0"
  have wf: "wf_layout l" by (rule NewLayout_wf [OF assms(1)])
  have rs: "length rec = unat (recordSize l)"
    using assms(5) NewLayout_Inr(1) [OF assms(1)] by (metis nat_int nat_uint_eq)
  obtain q where q: "SlotPut l p i rec = (None, q)" "is_page q"
    "ItemCount q = max (ItemCount p) (word_of_int i + 1)"
    "FreeStart q = word_of_int (SlotOffset l (uint (ItemCount q)))"
    "\<And>off n. 16 \<le> off \<Longrightarrow> subslice off n q = subslice off n (overwrite ?o ?b p)"
    using SlotPut_in [OF wf assms(2-4) rs] by blast
  have le: "length rec \<le> ?s" and o: "16 \<le> ?o" "?o + ?s \<le> 4096"
    using slot_nat [OF wf assms(3,4)] rs by simp_all
  have len: "length ?b = ?s" "?o + length ?b \<le> length p" using le o assms(2) by (simp_all add: is_page_length)
  have "subslice ?o ?s q = ?b" using q(5) o len by (simp add: slice_simps)
  then have "take ?s (drop ?o q) = ?b" by (simp add: subslice_def)
  then have "take (length rec) (take ?s (drop ?o q)) = rec"
    "drop (length rec) (take ?s (drop ?o q)) = replicate (?s - length rec) 0"
    by simp_all
  then have "subslice ?o (length rec) q = rec"
    "subslice (?o + length rec) (?s - length rec) q = replicate (?s - length rec) 0"
    using le by (simp_all add: subslice_def min_def drop_take add.commute)
  moreover have "SlotGet l q j = SlotGet l p j" if "j \<noteq> i" for j
  proof (rule SlotGet_other [OF wf assms(2) q(2) that assms(3,4)])
    show "subslice off n q = subslice off n p" if "16 \<le> off" "off + n \<le> ?o \<or> ?o + ?s \<le> off" for off n
      using q(5) [OF that(1)] that(2) len by (auto simp: slice_simps)
  qed
  moreover have "uint (word_of_int i + 1 :: u16) = i + 1"
  proof -
    have "i + 1 < 65536" using assms(4) uint_bounded [of "capacity l"] SlotOffset_bound [OF wf assms(3,4)] by simp
    then show ?thesis using assms(3) by (simp add: uint_word_ariths uint_word16)
  qed
  moreover have "SlotPut l p j rec' = (Some SlotOutOfRange, p)" if "j < 0 \<or> uint (capacity l) \<le> j" for j rec'
    using that wf_slotSize [OF wf] by (auto simp: SlotPut_def slotRange_def rangeErr_def)
  moreover have "SlotPut l p i rec' = (Some SlotRecordSize, p)" if "length rec' \<noteq> length rec" for rec'
    using that slotRange_in [OF wf assms(2-4)] rs by (simp add: SlotPut_def)
  moreover have "\<forall>k < 4096. (k < ?o \<or> ?o + ?s \<le> k)
      \<and> k \<notin> {offItemCount, offItemCount + 1, offFreeStart, offFreeStart + 1} \<longrightarrow> q ! k = p ! k"
    using SlotPut_bytes [OF wf assms(2-4) rs q(1)] by blast
  ultimately show ?thesis
    using q SlotGet_in [OF wf q(2) assms(3,4)] rs by (intro exI [of _ q]) (simp add: max_def word_le_def)
qed

theorem slot_put_get_witness:
  "\<exists>l q. NewLayout 3000 8 = Inr l \<and> capacity l = 1
     \<and> SlotPut l (NewPage 1 KindHeap) 0 (replicate 3000 7) = (None, q) \<and> SlotGet l q 0 = Inr (replicate 3000 7)"
proof -
  define l where "l = \<lparr>recordSize = 3000, slotSize = 3000, capacity = 1, base = 16, alignment = 8 :: u16\<rparr>"
  have N: "NewLayout 3000 8 = Inr l"
    by (simp add: NewLayout_def isPowerOfTwo_def Align_def int64_def signed_divide_int_def Let_def l_def)
  have c: "capacity l = 1" by (simp add: l_def)
  have "\<exists>q. SlotPut l (NewPage 1 KindHeap) 0 (replicate 3000 7) = (None, q) \<and> SlotGet l q 0 = Inr (replicate 3000 7)"
    using slot_put_get [OF N is_page_NewPage, of 0 "replicate 3000 7" 1 KindHeap] c by auto
  with N c show ?thesis by blast
qed

end
