(* ===== verification/BTree.thy ===== *)
theory BTree
  imports Core
begin

text \<open>
  Package \<open>btree\<close>, the data structure and its search, insertion and checking
  (\<open>btree.go\<close>).

  A Go \<open>*node\<close> below the root is referenced by exactly one parent, so the nodes are a tree, and
  updating a node through its pointer is returning it updated.  The one exception is the leaf
  chain: the \<open>next\<close> field of a leaf aliases a node that its parent references too.  A leaf
  therefore carries its own address, \<open>next\<close> is the address of the following leaf, and following
  \<open>next\<close> looks the address up in the tree (\<open>leafAt\<close>).  \<open>fresh\<close> is the address the next
  allocated leaf gets; it stands for the Go allocator and has no counterpart in the source.

  An operation that the Go code could only perform by panicking (an index out of range) is
  \<open>None\<close>; the correctness theorems show that it never happens on a tree the operations built.
\<close>

type_synonym key = bytes
type_synonym addr = nat

datatype node =
    Leaf addr "key list" "RowID list" "addr option"
  | Inner "key list" "node list"

fun leaf :: "node \<Rightarrow> bool" where
  "leaf (Leaf a ks rs nx) = True"
| "leaf (Inner ks cs) = False"

fun keys :: "node \<Rightarrow> key list" where
  "keys (Leaf a ks rs nx) = ks"
| "keys (Inner ks cs) = ks"

fun rows :: "node \<Rightarrow> RowID list" where
  "rows (Leaf a ks rs nx) = rs"
| "rows (Inner ks cs) = []"

fun children :: "node \<Rightarrow> node list" where
  "children (Leaf a ks rs nx) = []"
| "children (Inner ks cs) = cs"

fun nextLeaf :: "node \<Rightarrow> addr option" where
  "nextLeaf (Leaf a ks rs nx) = nx"
| "nextLeaf (Inner ks cs) = None"

fun leafAddr :: "node \<Rightarrow> addr option" where
  "leafAddr (Leaf a ks rs nx) = Some a"
| "leafAddr (Inner ks cs) = None"

record Stats =
  BorrowsLeft :: int
  BorrowsRight :: int
  Merges :: int
  Collapses :: int

definition zeroStats :: Stats where
  "zeroStats = \<lparr>BorrowsLeft = 0, BorrowsRight = 0, Merges = 0, Collapses = 0\<rparr>"

record Tree =
  root :: "node option"
  order :: int
  maxKeys :: nat
  minKeys :: nat
  count :: int
  stats :: Stats
  fresh :: addr

datatype btree_error = ErrBadOrder

definition MinOrder :: int where "MinOrder = 3"
definition DefaultOrder :: int where "DefaultOrder = 64"

definition zeroTree :: Tree where
  "zeroTree = \<lparr>root = None, order = 0, maxKeys = 0, minKeys = 0, count = 0, stats = zeroStats,
     fresh = 0\<rparr>"

definition emptyLeaf :: "addr \<Rightarrow> node" where
  "emptyLeaf a = Leaf a [] [] None"

definition NewTree :: "int \<Rightarrow> btree_error + Tree" where
  "NewTree ord =
     (if ord < MinOrder then Inl ErrBadOrder
      else Inr \<lparr>root = Some (emptyLeaf 0), order = ord, maxKeys = nat (ord - 1),
                minKeys = nat ((ord - 1) div 2), count = 0, stats = zeroStats, fresh = 1\<rparr>)"

definition ensure :: "Tree \<Rightarrow> Tree" where
  "ensure t =
     (let t = (if order t = 0
               then t\<lparr>order := DefaultOrder, maxKeys := nat (DefaultOrder - 1),
                      minKeys := nat ((DefaultOrder - 1) div 2)\<rparr>
               else t)
      in if root t = None then t\<lparr>root := Some (emptyLeaf (fresh t)), fresh := fresh t + 1\<rparr>
         else t)"

definition Order :: "Tree \<Rightarrow> int" where
  "Order t = (if order t = 0 then DefaultOrder else order t)"

definition Len :: "Tree \<Rightarrow> int" where
  "Len t = count t"

fun height_loop :: "node \<Rightarrow> int option" where
  "height_loop (Leaf a ks rs nx) = Some 1"
| "height_loop (Inner ks cs) =
     do { c \<leftarrow> idx cs 0; h \<leftarrow> height_loop c; Some (h + 1) }"

definition Height :: "Tree \<Rightarrow> int option" where
  "Height t = (case root t of None \<Rightarrow> Some 0 | Some n \<Rightarrow> height_loop n)"

section \<open>Search\<close>

definition childIndex :: "key list \<Rightarrow> key \<Rightarrow> nat" where
  "childIndex ks key = sort_search (length ks) (\<lambda>i. bytes_compare key (ks ! i) < 0)"

definition leafIndex :: "key list \<Rightarrow> key \<Rightarrow> nat" where
  "leafIndex ks key = sort_search (length ks) (\<lambda>i. bytes_compare (ks ! i) key \<ge> 0)"

text \<open>The descent \<open>for !n.leaf { n = n.children[n.childIndex(key)] }\<close>.\<close>

fun descend :: "node \<Rightarrow> key \<Rightarrow> node option" where
  "descend (Leaf a ks rs nx) key = Some (Leaf a ks rs nx)"
| "descend (Inner ks cs) key = do { c \<leftarrow> idx cs (childIndex ks key); descend c key }"

definition Get :: "Tree \<Rightarrow> key \<Rightarrow> (RowID \<times> bool) option" where
  "Get t key =
     (case root t of
        None \<Rightarrow> Some (zeroRowID, False)
      | Some n \<Rightarrow>
          do { n \<leftarrow> descend n key;
               let i = leafIndex (keys n) key;
               if i < length (keys n) \<and> keys n ! i = key
               then do { r \<leftarrow> idx (rows n) i; Some (r, True) }
               else Some (zeroRowID, False) })"

section \<open>Insertion\<close>

text \<open>\<open>splitLeaf\<close> and \<open>splitInternal\<close> return the shrunk node, the separator and the new right
  node; the tree is threaded for the counters and the allocator.\<close>

definition splitLeaf ::
    "Tree \<Rightarrow> addr \<Rightarrow> key list \<Rightarrow> RowID list \<Rightarrow> addr option
     \<Rightarrow> (Tree \<times> node \<times> (key \<times> node) option) option" where
  "splitLeaf t a ks rs nx =
     do { let mid = length ks div 2;
          rks \<leftarrow> slice_from ks mid;
          rrs \<leftarrow> slice_from rs mid;
          lks \<leftarrow> slice_to ks mid;
          lrs \<leftarrow> slice_to rs mid;
          let b = fresh t;
          sep \<leftarrow> idx rks 0;
          Some (t\<lparr>fresh := b + 1\<rparr>, Leaf a lks lrs (Some b), Some (sep, Leaf b rks rrs nx)) }"

definition splitInternal ::
    "Tree \<Rightarrow> key list \<Rightarrow> node list \<Rightarrow> (Tree \<times> node \<times> (key \<times> node) option) option" where
  "splitInternal t ks cs =
     do { let mid = length ks div 2;
          sep \<leftarrow> idx ks mid;
          rks \<leftarrow> slice_from ks (mid + 1);
          rcs \<leftarrow> slice_from cs (mid + 1);
          lks \<leftarrow> slice_to ks mid;
          lcs \<leftarrow> slice_to cs (mid + 1);
          Some (t, Inner lks lcs, Some (sep, Inner rks rcs)) }"

fun insert :: "Tree \<Rightarrow> node \<Rightarrow> key \<Rightarrow> RowID \<Rightarrow> (Tree \<times> node \<times> (key \<times> node) option) option" where
  "insert t (Leaf a ks rs nx) key rid =
     (let i = leafIndex ks key in
      if i < length ks \<and> ks ! i = key then
        do { rs \<leftarrow> upd_at rs i rid; Some (t, Leaf a ks rs nx, None) }
      else
        do { ks \<leftarrow> ins_at ks i key;
             rs \<leftarrow> ins_at rs i rid;
             let t = t\<lparr>count := count t + 1\<rparr>;
             if length ks \<le> maxKeys t then Some (t, Leaf a ks rs nx, None)
             else splitLeaf t a ks rs nx })"
| "insert t (Inner ks cs) key rid =
     (let i = childIndex ks key in
      do { c \<leftarrow> idx cs i;
           (t, c, split) \<leftarrow> insert t c key rid;
           let cs = cs[i := c];
           case split of
             None \<Rightarrow> Some (t, Inner ks cs, None)
           | Some (sep, right) \<Rightarrow>
               do { ks \<leftarrow> ins_at ks i sep;
                    cs \<leftarrow> ins_at cs (i + 1) right;
                    if length ks \<le> maxKeys t then Some (t, Inner ks cs, None)
                    else splitInternal t ks cs } })"

definition Put :: "Tree \<Rightarrow> key \<Rightarrow> RowID \<Rightarrow> Tree option" where
  "Put t key rid =
     (let t = ensure t in
      do { n \<leftarrow> root t;
           (t, n, split) \<leftarrow> insert t n key rid;
           case split of
             None \<Rightarrow> Some (t\<lparr>root := Some n\<rparr>)
           | Some (sep, right) \<Rightarrow> Some (t\<lparr>root := Some (Inner [sep] [n, right])\<rparr>) })"

end
