(* ===== verification/TreeText.thy ===== *)
theory TreeText
  imports BTree Text
begin

text \<open>
  \<open>Tree.Dump\<close> of \<open>btree/btree.go\<close>: the tree as indented lines, one for each node, its keys as they are.
\<close>

definition key_text :: "key \<Rightarrow> string" where
  "key_text k = map (\<lambda>b. char_of (unat b)) k"

definition dump_node :: "nat \<Rightarrow> string \<Rightarrow> key list \<Rightarrow> string" where
  "dump_node level kind ks =
     concat (replicate level ''    '') @ pad_right 8 kind @ '' ['' @ join '' '' (map key_text ks) @ '']'' @ nl"

fun dump :: "node \<Rightarrow> nat \<Rightarrow> string" where
  "dump (Leaf a ks rs nx) level = dump_node level ''leaf'' ks"
| "dump (Inner ks cs) level =
     dump_node level ''internal'' ks @ concat (map (\<lambda>c. dump c (level + 1)) cs)"

definition Dump :: "Tree \<Rightarrow> string" where
  "Dump t = (case root t of None \<Rightarrow> [] | Some n \<Rightarrow> dump n 0)"

end
