(* ===== verification/BTreeInv.thy ===== *)
theory BTreeInv
  imports BTree
begin

text \<open>
  What a B+Tree means and when it is sound: the entries its leaves hold in order (the
  abstraction), the structural invariant, the leaf chain, and the effect of an update on a sorted
  association list, which is the specification of the tree operations.
\<close>

section \<open>Sorted association lists\<close>

text \<open>Insertion, replacement and removal in a list sorted by key, written as filters so that they
  distribute over a concatenation of leaves.\<close>

definition upd_al :: "'k::linorder \<Rightarrow> 'v \<Rightarrow> ('k \<times> 'v) list \<Rightarrow> ('k \<times> 'v) list" where
  "upd_al k v xs = filter (\<lambda>e. fst e < k) xs @ (k, v) # filter (\<lambda>e. k < fst e) xs"

definition del_al :: "'k::linorder \<Rightarrow> ('k \<times> 'v) list \<Rightarrow> ('k \<times> 'v) list" where
  "del_al k xs = filter (\<lambda>e. fst e \<noteq> k) xs"

abbreviation sorted_al :: "('k::linorder \<times> 'v) list \<Rightarrow> bool" where
  "sorted_al xs \<equiv> sorted_wrt (<) (map fst xs)"

lemma upd_al_mid:
  assumes "\<And>e. e \<in> set xs \<Longrightarrow> fst e < k" "\<And>e. e \<in> set zs \<Longrightarrow> k < fst e"
  shows "upd_al k v (xs @ ys @ zs) = xs @ upd_al k v ys @ zs"
proof -
  have "filter (\<lambda>e. fst e < k) xs = xs" "filter (\<lambda>e. k < fst e) zs = zs"
    using assms by (simp_all add: filter_id_conv)
  moreover have "filter (\<lambda>e. k < fst e) xs = []" "filter (\<lambda>e. fst e < k) zs = []"
    using assms by (auto simp: filter_empty_conv dest: less_asym)
  ultimately show ?thesis by (simp add: upd_al_def)
qed

lemma del_al_mid:
  assumes "\<And>e. e \<in> set xs \<Longrightarrow> fst e < k" "\<And>e. e \<in> set zs \<Longrightarrow> k < fst e"
  shows "del_al k (xs @ ys @ zs) = xs @ del_al k ys @ zs"
proof -
  have "filter (\<lambda>e. fst e \<noteq> k) xs = xs" "filter (\<lambda>e. fst e \<noteq> k) zs = zs"
    using assms by (auto simp: filter_id_conv)
  then show ?thesis by (simp add: del_al_def)
qed

lemma map_of_filter_key: "map_of (filter (\<lambda>e. P (fst e)) xs) x = (if P x then map_of xs x else None)"
  by (induction xs) auto

lemma map_of_upd_al: "map_of (upd_al k v xs) = (map_of xs)(k \<mapsto> v)"
proof
  fix x
  show "map_of (upd_al k v xs) x = ((map_of xs)(k \<mapsto> v)) x"
    by (auto simp: upd_al_def map_add_def map_of_filter_key [where P = "\<lambda>y. y < k"]
        map_of_filter_key [where P = "\<lambda>y. k < y"] split: option.splits)
qed

lemma map_of_del_al: "map_of (del_al k xs) = (map_of xs)(k := None)"
  unfolding del_al_def by (induction xs) auto

lemma sorted_upd_al: "sorted_al xs \<Longrightarrow> sorted_al (upd_al k v xs)"
  by (induction xs) (auto simp: upd_al_def sorted_wrt_append sorted_wrt_map)

lemma sorted_del_al: "sorted_al xs \<Longrightarrow> sorted_al (del_al k xs)"
  by (simp add: del_al_def sorted_wrt_map sorted_wrt_filter)

lemma length_upd_al:
  "sorted_al xs \<Longrightarrow> length (upd_al k v xs) = length xs + (if k \<in> fst ` set xs then 0 else 1)"
proof (induction xs)
  case (Cons e xs)
  have none: "filter (\<lambda>e. fst e < k) xs = []" "filter (\<lambda>e. k < fst e) xs = xs" "k \<notin> fst ` set xs"
    if "k \<le> fst e" using Cons.prems that
    by (auto simp: filter_empty_conv filter_id_conv dest: le_less_trans)
  consider "fst e < k" | "fst e = k" | "k < fst e" by fastforce
  then show ?case
    using Cons none by cases (auto simp: upd_al_def)
qed (simp add: upd_al_def)

lemma length_del_al:
  "sorted_al xs \<Longrightarrow> length (del_al k xs) + (if k \<in> fst ` set xs then 1 else 0) = length xs"
proof (induction xs)
  case (Cons e xs)
  show ?case
  proof (cases "fst e = k")
    case True
    then have "filter (\<lambda>e. fst e \<noteq> k) xs = xs"
      using Cons.prems by (auto simp: filter_id_conv dest: less_imp_neq)
    then show ?thesis using True by (simp add: del_al_def image_iff)
  next
    case False
    then have "k \<in> fst ` set (e # xs) \<longleftrightarrow> k \<in> fst ` set xs" by auto
    then show ?thesis using Cons False by (simp add: del_al_def del: image_iff)
  qed
qed (simp add: del_al_def)

lemma del_al_absent: "k \<notin> fst ` set xs \<Longrightarrow> del_al k xs = xs"
  by (auto simp: del_al_def filter_id_conv)

section \<open>Entries, bounds, and the structural invariant\<close>

fun entries :: "node \<Rightarrow> (key \<times> RowID) list" where
  "entries (Leaf a ks rs nx) = zip ks rs"
| "entries (Inner ks cs) = concat (map entries cs)"

definition geb :: "key option \<Rightarrow> key \<Rightarrow> bool" where
  "geb lo k = (case lo of None \<Rightarrow> True | Some l \<Rightarrow> l \<le> k)"

definition gtb :: "key option \<Rightarrow> key \<Rightarrow> bool" where
  "gtb lo k = (case lo of None \<Rightarrow> True | Some l \<Rightarrow> l < k)"

definition ltb :: "key option \<Rightarrow> key \<Rightarrow> bool" where
  "ltb hi k = (case hi of None \<Rightarrow> True | Some h \<Rightarrow> k < h)"

lemma bound_simps [simp]:
  "geb None k" "gtb None k" "ltb None k"
  "geb (Some l) k \<longleftrightarrow> l \<le> k" "gtb (Some l) k \<longleftrightarrow> l < k" "ltb (Some u) k \<longleftrightarrow> k < u"
  by (simp_all add: geb_def gtb_def ltb_def)

lemma geb_trans: "geb lo k \<Longrightarrow> k \<le> k' \<Longrightarrow> geb lo k'"
  by (cases lo) auto

lemma ltb_trans: "ltb hi k' \<Longrightarrow> k \<le> k' \<Longrightarrow> ltb hi k"
  by (cases hi) auto

lemma geb_less_gtb: "geb lo k \<Longrightarrow> k < k' \<Longrightarrow> gtb lo k'"
  by (cases lo) auto

lemma gtb_geb: "gtb lo k \<Longrightarrow> geb lo k"
  by (cases lo) auto

text \<open>\<open>wfn mx mn own h lo hi n\<close>: node \<open>n\<close> has height \<open>h\<close>, its keys lie in \<open>[lo, hi)\<close>, are
  strictly sorted and number between \<open>own\<close> and \<open>mx\<close>; every node below it has at least \<open>mn\<close> keys
  and lies between the separators around it.\<close>

fun wfn :: "nat \<Rightarrow> nat \<Rightarrow> nat \<Rightarrow> nat \<Rightarrow> key option \<Rightarrow> key option \<Rightarrow> node \<Rightarrow> bool"
  and wfcs :: "nat \<Rightarrow> nat \<Rightarrow> nat \<Rightarrow> key option \<Rightarrow> key option \<Rightarrow> key list \<Rightarrow> node list \<Rightarrow> bool" where
  "wfn mx mn own h lo hi (Leaf a ks rs nx) \<longleftrightarrow>
     h = 0 \<and> sorted_wrt (<) ks \<and> (\<forall>k \<in> set ks. geb lo k \<and> ltb hi k)
     \<and> own \<le> length ks \<and> length ks \<le> mx \<and> length rs = length ks"
| "wfn mx mn own h lo hi (Inner ks cs) \<longleftrightarrow>
     h \<noteq> 0 \<and> sorted_wrt (<) ks \<and> (\<forall>k \<in> set ks. geb lo k \<and> ltb hi k)
     \<and> own \<le> length ks \<and> length ks \<le> mx \<and> wfcs mx mn (h - 1) lo hi ks cs"
| "wfcs mx mn h lo hi ks [] \<longleftrightarrow> False"
| "wfcs mx mn h lo hi ks (c # cs) \<longleftrightarrow>
     (case ks of
        [] \<Rightarrow> cs = [] \<and> wfn mx mn mn h lo hi c
      | k # ks \<Rightarrow> wfn mx mn mn h lo (Some k) c \<and> wfcs mx mn h (Some k) hi ks cs)"

text \<open>The children left of a position, the bounds at the position, and the children right of it.\<close>

fun wfl :: "nat \<Rightarrow> nat \<Rightarrow> nat \<Rightarrow> key option \<Rightarrow> key list \<Rightarrow> node list \<Rightarrow> bool" where
  "wfl mx mn h lo [] [] \<longleftrightarrow> True"
| "wfl mx mn h lo (k # ks) (c # cs) \<longleftrightarrow>
     wfn mx mn mn h lo (Some k) c \<and> wfl mx mn h (Some k) ks cs"
| "wfl mx mn h lo ks cs \<longleftrightarrow> False"

fun lastb :: "key option \<Rightarrow> key list \<Rightarrow> key option" where
  "lastb lo [] = lo"
| "lastb lo (k # ks) = lastb (Some k) ks"

fun headb :: "key option \<Rightarrow> key list \<Rightarrow> key option" where
  "headb hi [] = hi"
| "headb hi (k # ks) = Some k"

fun wfr :: "nat \<Rightarrow> nat \<Rightarrow> nat \<Rightarrow> key option \<Rightarrow> key list \<Rightarrow> node list \<Rightarrow> bool" where
  "wfr mx mn h hi [] cs \<longleftrightarrow> cs = []"
| "wfr mx mn h hi (k # ks) cs \<longleftrightarrow> wfcs mx mn h (Some k) hi ks cs"

lemma lastb_snoc [simp]: "lastb lo (ks @ [k]) = Some k"
  by (induction ks arbitrary: lo) auto

lemma lastb_conv: "lastb lo ks = (if ks = [] then lo else Some (last ks))"
  by (cases ks rule: rev_cases) auto

lemma wfcs_at:
  "wfcs mx mn h lo hi ks (c # cs) \<longleftrightarrow> wfn mx mn mn h lo (headb hi ks) c \<and> wfr mx mn h hi ks cs"
  by (cases ks) auto

lemma wfcs_append:
  "length k1 = length c1 \<Longrightarrow>
   wfcs mx mn h lo hi (k1 @ k2) (c1 @ c # c2)
     \<longleftrightarrow> wfl mx mn h lo k1 c1 \<and> wfcs mx mn h (lastb lo k1) hi k2 (c # c2)"
  by (induction k1 c1 arbitrary: lo rule: list_induct2) auto

lemma wfcs_mid:
  "length k1 = length c1 \<Longrightarrow>
   wfcs mx mn h lo hi (k1 @ k2) (c1 @ c # c2)
     \<longleftrightarrow> wfl mx mn h lo k1 c1 \<and> wfn mx mn mn h (lastb lo k1) (headb hi k2) c \<and> wfr mx mn h hi k2 c2"
  by (simp only: wfcs_append wfcs_at)

lemma wfcs_length: "wfcs mx mn h lo hi ks cs \<Longrightarrow> length cs = Suc (length ks)"
proof (induction cs arbitrary: lo ks)
  case (Cons c cs)
  then show ?case by (cases ks) auto
qed simp

lemma wfcs_cut:
  "length c1 = Suc (length k1) \<Longrightarrow>
   wfcs mx mn h lo hi (k1 @ s # k2) (c1 @ c2)
     \<longleftrightarrow> wfcs mx mn h lo (Some s) k1 c1 \<and> wfcs mx mn h (Some s) hi k2 c2"
proof (induction k1 arbitrary: c1 lo)
  case Nil
  then obtain c where "c1 = [c]" by (auto simp: length_Suc_conv)
  then show ?case by simp
next
  case (Cons k k1)
  then obtain c c1' where "c1 = c # c1'" "length c1' = Suc (length k1)"
    by (auto simp: length_Suc_conv)
  then show ?case using Cons.IH by simp
qed

lemma wfn_own: "wfn mx mn own h lo hi n \<longleftrightarrow> own \<le> length (keys n) \<and> wfn mx mn 0 h lo hi n"
  by (cases n) auto

lemma wfn_keys: "wfn mx mn own h lo hi n \<Longrightarrow>
  sorted_wrt (<) (keys n) \<and> (\<forall>k \<in> set (keys n). geb lo k \<and> ltb hi k) \<and> length (keys n) \<le> mx"
  by (cases n) auto

lemma wfn_leaf: "wfn mx mn own h lo hi n \<Longrightarrow> leaf n \<longleftrightarrow> h = 0"
  by (cases n) auto

section \<open>Where the entries are\<close>

lemma wfl_entries:
  "wfl mx mn h lo k1 c1 \<Longrightarrow>
   (\<And>c l u e. c \<in> set c1 \<Longrightarrow> wfn mx mn mn h l u c \<Longrightarrow> e \<in> set (entries c) \<Longrightarrow> ltb u (fst e)) \<Longrightarrow>
   e \<in> set (concat (map entries c1)) \<Longrightarrow> \<exists>k \<in> set k1. fst e < k"
proof (induction mx mn h lo k1 c1 rule: wfl.induct)
  case (2 mx mn h lo k ks c cs)
  then show ?case by fastforce
qed auto

lemma wfcs_entries_lo:
  "wfcs mx mn h lo hi ks cs \<Longrightarrow> sorted_wrt (<) ks \<Longrightarrow> (\<forall>k \<in> set ks. geb lo k) \<Longrightarrow>
   (\<And>c l u e. c \<in> set cs \<Longrightarrow> wfn mx mn mn h l u c \<Longrightarrow> e \<in> set (entries c) \<Longrightarrow> geb l (fst e)) \<Longrightarrow>
   e \<in> set (concat (map entries cs)) \<Longrightarrow> geb lo (fst e)"
proof (induction cs arbitrary: lo ks)
  case (Cons c cs)
  show ?case
  proof (cases ks)
    case Nil
    then show ?thesis using Cons.prems(1,5) Cons.prems(4) [of c lo hi e] by auto
  next
    case (Cons k ks')
    have "e \<in> set (entries c) \<or> e \<in> set (concat (map entries cs))" using Cons.prems by auto
    then show ?thesis
    proof
      assume "e \<in> set (entries c)"
      then show ?thesis using Cons.prems(1) Cons.prems(4) [of c lo "Some k" e] Cons by auto
    next
      assume e: "e \<in> set (concat (map entries cs))"
      have "geb (Some k) (fst e)"
      proof (rule Cons.IH [where ks = ks', OF _ _ _ _ e])
        show "geb l (fst e')" if "c' \<in> set cs" "wfn mx mn mn h l u c'" "e' \<in> set (entries c')" for c' l u e'
          using Cons.prems(4) [of c' l u e'] that by simp
      qed (use Cons.prems Cons in \<open>auto simp: less_imp_le\<close>)
      moreover have "geb lo k" using Cons.prems Cons by simp
      ultimately show ?thesis by (auto intro: geb_trans)
    qed
  qed
qed simp

lemma wfcs_entries_hi:
  "wfcs mx mn h lo hi ks cs \<Longrightarrow> (\<forall>k \<in> set ks. ltb hi k) \<Longrightarrow>
   (\<And>c l u e. c \<in> set cs \<Longrightarrow> wfn mx mn mn h l u c \<Longrightarrow> e \<in> set (entries c) \<Longrightarrow> ltb u (fst e)) \<Longrightarrow>
   e \<in> set (concat (map entries cs)) \<Longrightarrow> ltb hi (fst e)"
proof (induction cs arbitrary: lo ks)
  case (Cons c cs)
  show ?case
  proof (cases ks)
    case Nil
    then show ?thesis using Cons.prems(1,4) Cons.prems(3) [of c lo hi e] by auto
  next
    case (Cons k ks')
    have "e \<in> set (entries c) \<or> e \<in> set (concat (map entries cs))" using Cons.prems by auto
    then show ?thesis
    proof
      assume "e \<in> set (entries c)"
      then have "ltb (Some k) (fst e)"
        using Cons.prems(1) Cons.prems(3) [of c lo "Some k" e] Cons by auto
      moreover have "ltb hi k" using Cons.prems Cons by simp
      ultimately show ?thesis by (auto intro: ltb_trans less_imp_le)
    next
      assume e: "e \<in> set (concat (map entries cs))"
      show ?thesis
      proof (rule Cons.IH [where ks = ks' and lo = "Some k", OF _ _ _ e])
        show "ltb u (fst e')" if "c' \<in> set cs" "wfn mx mn mn h l u c'" "e' \<in> set (entries c')" for c' l u e'
          using Cons.prems(3) [of c' l u e'] that by simp
      qed (use Cons.prems Cons in auto)
    qed
  qed
qed simp

lemma wfn_entries:
  "wfn mx mn own h lo hi n \<Longrightarrow> e \<in> set (entries n) \<Longrightarrow> geb lo (fst e) \<and> ltb hi (fst e)"
proof (induction n arbitrary: own h lo hi e)
  case (Leaf a ks rs nx)
  then have "fst e \<in> set ks" by (cases e) (auto dest: set_zip_leftD)
  then show ?case using Leaf by auto
next
  case (Inner ks cs)
  have IH: "geb l (fst e) \<and> ltb u (fst e)"
    if "c \<in> set cs" "wfn mx mn mn (h - 1) l u c" "e \<in> set (entries c)" for c l u e
    using Inner.IH [OF that] .
  show ?case
    using Inner.prems wfcs_entries_lo [of mx mn "h - 1" lo hi ks cs e]
      wfcs_entries_hi [of mx mn "h - 1" lo hi ks cs e] IH by auto
qed

text \<open>Around a position: everything in the left children is below some left separator, and
  everything in the right children is at or above some right separator.\<close>

lemma wfl_below: "wfl mx mn h lo k1 c1 \<Longrightarrow> e \<in> set (concat (map entries c1)) \<Longrightarrow> \<exists>k \<in> set k1. fst e < k"
  using wfl_entries [of mx mn h lo k1 c1 e] wfn_entries by blast

lemma wfr_above:
  assumes "wfr mx mn h hi k2 c2" "sorted_wrt (<) k2" "e \<in> set (concat (map entries c2))"
  shows "\<exists>k \<in> set k2. k \<le> fst e"
proof (cases k2)
  case (Cons k ks)
  have "geb (Some k) (fst e)"
    using wfcs_entries_lo [of mx mn h "Some k" hi ks c2 e] assms Cons wfn_entries
    by (auto simp: less_imp_le)
  then show ?thesis using Cons by auto
qed (use assms in auto)

section \<open>Descending\<close>

lemma sorted_cut:
  assumes "sorted_wrt (<) (ks :: key list)"
  shows "\<exists>k1 k2. ks = k1 @ k2 \<and> (\<forall>k \<in> set k1. k < key) \<and> (\<forall>k \<in> set k2. key \<le> k)"
proof (intro exI conjI)
  show "ks = takeWhile (\<lambda>k. k < key) ks @ dropWhile (\<lambda>k. k < key) ks" by simp
  show "\<forall>k \<in> set (takeWhile (\<lambda>k. k < key) ks). k < key" by (auto dest: set_takeWhileD)
  show "\<forall>k \<in> set (dropWhile (\<lambda>k. k < key) ks). key \<le> k"
    using assms by (induction ks) (auto simp: not_less intro: less_imp_le order_trans)
qed

lemma sorted_cut_le:
  assumes "sorted_wrt (<) (ks :: key list)"
  shows "\<exists>k1 k2. ks = k1 @ k2 \<and> (\<forall>k \<in> set k1. k \<le> key) \<and> (\<forall>k \<in> set k2. key < k)"
proof (intro exI conjI)
  show "ks = takeWhile (\<lambda>k. k \<le> key) ks @ dropWhile (\<lambda>k. k \<le> key) ks" by simp
  show "\<forall>k \<in> set (takeWhile (\<lambda>k. k \<le> key) ks). k \<le> key" by (auto dest: set_takeWhileD)
  show "\<forall>k \<in> set (dropWhile (\<lambda>k. k \<le> key) ks). key < k"
    using assms by (induction ks) (auto simp: not_le intro: less_trans)
qed

lemma childIndex_append:
  "(\<forall>k \<in> set k1. k \<le> key) \<Longrightarrow> (\<forall>k \<in> set k2. key < k) \<Longrightarrow> childIndex (k1 @ k2) key = length k1"
  unfolding childIndex_def
  by (rule sort_search_partition [where f' = "\<lambda>k. key < k" and ys = k2]) auto

lemma leafIndex_append:
  "(\<forall>k \<in> set k1. k < key) \<Longrightarrow> (\<forall>k \<in> set k2. key \<le> k) \<Longrightarrow> leafIndex (k1 @ k2) key = length k1"
  unfolding leafIndex_def
  by (rule sort_search_partition [where f' = "\<lambda>k. key \<le> k" and ys = k2]) auto

lemma list_at:
  assumes "i < length cs"
  obtains c1 c c2 where "cs = c1 @ c # c2" "length c1 = i"
  using id_take_nth_drop [OF assms] assms by (metis length_take min.absorb4)

text \<open>At an inner node whose range holds the key, the descent takes the child whose range holds
  it; everything left of that child is below the key and everything right of it above.\<close>

lemma inner_at:
  assumes wf: "wfn mx mn own h lo hi (Inner ks cs)" and "geb lo key" "ltb hi key"
  obtains k1 k2 c1 c c2 where
    "ks = k1 @ k2" "cs = c1 @ c # c2" "length c1 = length k1" "childIndex ks key = length k1"
    "wfl mx mn (h - 1) lo k1 c1" "wfn mx mn mn (h - 1) (lastb lo k1) (headb hi k2) c"
    "wfr mx mn (h - 1) hi k2 c2"
    "geb (lastb lo k1) key" "ltb (headb hi k2) key"
    "\<And>e. e \<in> set (concat (map entries c1)) \<Longrightarrow> fst e < key"
    "\<And>e. e \<in> set (concat (map entries c2)) \<Longrightarrow> key < fst e"
proof -
  have srt: "sorted_wrt (<) ks" and cs: "wfcs mx mn (h - 1) lo hi ks cs" using wf by auto
  obtain k1 k2 where k: "ks = k1 @ k2" "\<forall>k \<in> set k1. k \<le> key" "\<forall>k \<in> set k2. key < k"
    using sorted_cut_le [OF srt] by blast
  have "length k1 < length cs" using wfcs_length [OF cs] k by simp
  then obtain c1 c c2 where c: "cs = c1 @ c # c2" "length c1 = length k1" by (rule list_at)
  have parts: "wfl mx mn (h - 1) lo k1 c1"
    "wfn mx mn mn (h - 1) (lastb lo k1) (headb hi k2) c" "wfr mx mn (h - 1) hi k2 c2"
    using cs c k by (simp_all add: wfcs_mid)
  have "geb (lastb lo k1) key" using k assms(2) by (auto simp: lastb_conv)
  moreover have "ltb (headb hi k2) key" using k assms(3) by (cases k2) auto
  moreover have "fst e < key" if "e \<in> set (concat (map entries c1))" for e
    using wfl_below [OF parts(1) that] k by (auto dest: less_le_trans)
  moreover have "key < fst e" if "e \<in> set (concat (map entries c2))" for e
    using wfr_above [OF parts(3) _ that] k srt by (auto simp: sorted_wrt_append dest: less_le_trans)
  ultimately show ?thesis
    using that k c parts childIndex_append [of k1 key k2] by simp
qed

lemma leaf_at:
  assumes wf: "wfn mx mn own h lo hi (Leaf a ks rs nx)"
  obtains k1 k2 r1 r2 where
    "ks = k1 @ k2" "rs = r1 @ r2" "length r1 = length k1" "length r2 = length k2"
    "leafIndex ks key = length k1" "\<forall>k \<in> set k1. k < key" "\<forall>k \<in> set k2. key \<le> k"
    "\<And>e. e \<in> set (zip k1 r1) \<Longrightarrow> fst e < key"
proof -
  have srt: "sorted_wrt (<) ks" and len: "length rs = length ks" using wf by auto
  obtain k1 k2 where k: "ks = k1 @ k2" "\<forall>k \<in> set k1. k < key" "\<forall>k \<in> set k2. key \<le> k"
    using sorted_cut [OF srt] by blast
  show ?thesis
  proof (rule that [of k1 k2 "take (length k1) rs" "drop (length k1) rs"])
    show "fst e < key" if "e \<in> set (zip k1 (take (length k1) rs))" for e
      using set_zip_leftD [of "fst e" "snd e"] that k by fastforce
  qed (use k len leafIndex_append [of k1 key k2] in auto)
qed

text \<open>The key is present in a leaf exactly when it is the one the search stops at.\<close>

lemma leaf_hit:
  assumes "sorted_wrt (<) (k1 @ k2)" "\<forall>k \<in> set k1. k < (key :: key)" "\<forall>k \<in> set k2. key \<le> k"
  shows "(length k1 < length (k1 @ k2) \<and> (k1 @ k2) ! length k1 = key)
      \<longleftrightarrow> (\<exists>k2'. k2 = key # k2' \<and> (\<forall>k \<in> set k2'. key < k))"
    "key \<in> set (k1 @ k2) \<longleftrightarrow> (\<exists>k2'. k2 = key # k2' \<and> (\<forall>k \<in> set k2'. key < k))"
proof -
  have miss: "key \<notin> set k1" using assms(2) by auto
  show "(length k1 < length (k1 @ k2) \<and> (k1 @ k2) ! length k1 = key)
      \<longleftrightarrow> (\<exists>k2'. k2 = key # k2' \<and> (\<forall>k \<in> set k2'. key < k))"
    using assms(1) by (cases k2) (auto simp: sorted_wrt_append)
  show "key \<in> set (k1 @ k2) \<longleftrightarrow> (\<exists>k2'. k2 = key # k2' \<and> (\<forall>k \<in> set k2'. key < k))"
  proof (cases k2)
    case (Cons k k2')
    then have "\<forall>k' \<in> set k2'. k < k'" "key \<le> k" using assms by (auto simp: sorted_wrt_append)
    then show ?thesis using miss Cons by (auto simp: leD)
  qed (use miss in simp)
qed

section \<open>The entries are sorted\<close>

lemma concat_sorted:
  "wfcs mx mn h lo hi ks cs \<Longrightarrow> sorted_wrt (<) ks \<Longrightarrow>
   (\<And>c l u. c \<in> set cs \<Longrightarrow> wfn mx mn mn h l u c \<Longrightarrow> sorted_al (entries c)) \<Longrightarrow>
   sorted_al (concat (map entries cs))"
proof (induction cs arbitrary: lo ks)
  case (Cons c cs)
  have c: "wfn mx mn mn h lo (headb hi ks) c" "wfr mx mn h hi ks cs"
    using Cons.prems(1) by (simp_all only: wfcs_at)
  have less: "fst e < fst e'" if e: "e \<in> set (entries c)"
    and e': "e' \<in> set (concat (map entries cs))" for e e'
  proof -
    obtain k where "k \<in> set ks" "k \<le> fst e'"
      using wfr_above [OF c(2) Cons.prems(2) e'] by blast
    moreover have "ltb (headb hi ks) (fst e)" using wfn_entries [OF c(1) e] by simp
    ultimately show ?thesis using Cons.prems(2) by (cases ks) (auto dest: less_trans)
  qed
  have "sorted_al (entries c)" using Cons.prems(3) [of c] c by auto
  moreover have "sorted_al (concat (map entries cs))"
  proof (cases ks)
    case (Cons k ks')
    show ?thesis
    proof (rule Cons.IH [where ks = ks' and lo = "Some k"])
      show "sorted_al (entries c')" if "c' \<in> set cs" "wfn mx mn mn h l u c'" for c' l u
        using Cons.prems(3) [of c' l u] that by simp
    qed (use Cons c Cons.prems(2) in auto)
  qed (use c in simp)
  moreover have "\<forall>x \<in> set (map fst (entries c)). \<forall>y \<in> set (map fst (concat (map entries cs))). x < y"
    using less by (simp only: set_map) blast
  ultimately show ?case by (simp only: sorted_wrt_append list.map concat.simps map_append)
qed simp

lemma wfn_sorted: "wfn mx mn own h lo hi n \<Longrightarrow> sorted_al (entries n)"
proof (induction n arbitrary: own h lo hi)
  case (Inner ks cs)
  then show ?case using concat_sorted [of mx mn "h - 1" lo hi ks cs] by auto
qed simp

text \<open>Where a new separator fits.\<close>

lemma sorted_sep:
  "sorted_wrt (<) (k1 @ k2) \<Longrightarrow> gtb (lastb lo k1) s \<Longrightarrow> ltb (headb hi k2) s \<Longrightarrow>
   sorted_wrt (<) (k1 @ s # k2)"
proof -
  assume srt: "sorted_wrt (<) (k1 @ k2)" and s: "gtb (lastb lo k1) s" "ltb (headb hi k2) s"
  have "k < s" if "k \<in> set k1" for k
    using that s(1) srt
    by (cases k1 rule: rev_cases) (auto simp: sorted_wrt_append dest: less_trans)
  moreover have "s < k" if "k \<in> set k2" for k
    using that s(2) srt by (cases k2) (auto simp: sorted_wrt_append dest: less_trans)
  ultimately show ?thesis using srt by (auto simp: sorted_wrt_append)
qed

lemma gtb_lastb: "sorted_wrt (<) k1 \<Longrightarrow> \<forall>k \<in> set k1. geb lo k \<Longrightarrow> gtb (lastb lo k1) s \<Longrightarrow> gtb lo s"
  by (cases k1 rule: rev_cases) (auto intro: geb_less_gtb)

lemma ltb_headb: "\<forall>k \<in> set k2. ltb hi k \<Longrightarrow> ltb (headb hi k2) s \<Longrightarrow> ltb hi s"
  by (cases k2) (auto intro: ltb_trans less_imp_le)

section \<open>\<open>Get\<close>\<close>

definition lookup :: "(key \<rightharpoonup> RowID) \<Rightarrow> key \<Rightarrow> RowID \<times> bool" where
  "lookup m key = (case m key of None \<Rightarrow> (zeroRowID, False) | Some r \<Rightarrow> (r, True))"

lemma map_of_mid:
  "(\<And>e. e \<in> set xs \<Longrightarrow> fst e < key) \<Longrightarrow> (\<And>e. e \<in> set zs \<Longrightarrow> key < fst e) \<Longrightarrow>
   map_of (xs @ ys @ zs) (key :: key) = map_of ys key"
proof -
  assume "\<And>e. e \<in> set xs \<Longrightarrow> fst e < key" "\<And>e. e \<in> set zs \<Longrightarrow> key < fst e"
  then have "map_of xs key = None" "map_of zs key = None"
    unfolding map_of_eq_None_iff by (metis imageE less_irrefl)+
  then show ?thesis by (simp add: map_add_def split: option.splits)
qed

lemma descend_correct:
  "wfn mx mn own h lo hi n \<Longrightarrow> geb lo key \<Longrightarrow> ltb hi key \<Longrightarrow>
   \<exists>l o' u v. descend n key = Some l \<and> wfn mx mn o' 0 u v l
     \<and> map_of (entries n) key = map_of (entries l) key"
proof (induction n arbitrary: own h lo hi)
  case (Leaf a ks rs nx)
  then have "h = 0" by simp
  with Leaf show ?case by fastforce
next
  case (Inner ks cs)
  from Inner.prems obtain k1 k2 c1 c c2 where at:
    "ks = k1 @ k2" "cs = c1 @ c # c2" "length c1 = length k1" "childIndex ks key = length k1"
    "wfn mx mn mn (h - 1) (lastb lo k1) (headb hi k2) c"
    "geb (lastb lo k1) key" "ltb (headb hi k2) key"
    and out: "\<And>e. e \<in> set (concat (map entries c1)) \<Longrightarrow> fst e < key"
    "\<And>e. e \<in> set (concat (map entries c2)) \<Longrightarrow> key < fst e"
    by (rule inner_at) blast
  have "map_of (entries (Inner ks cs)) key = map_of (entries c) key"
    using map_of_mid [of "concat (map entries c1)" key "concat (map entries c2)" "entries c"] out at
    by simp
  moreover have "descend (Inner ks cs) key = descend c key"
    using at by (simp flip: at(3))
  ultimately show ?case
    using Inner.IH [of c] at by simp
qed

lemma leaf_lookup:
  assumes "wfn mx mn own h lo hi (Leaf a ks rs nx)"
  shows "(if leafIndex ks key < length ks \<and> ks ! leafIndex ks key = key
          then do { r \<leftarrow> idx rs (leafIndex ks key); Some (r, True) }
          else Some (zeroRowID, False)) = Some (lookup (map_of (zip ks rs)) key)"
proof -
  from assms obtain k1 k2 r1 r2 where at: "ks = k1 @ k2" "rs = r1 @ r2"
    "length r1 = length k1" "length r2 = length k2" "leafIndex ks key = length k1"
    "\<forall>k \<in> set k1. k < key" "\<forall>k \<in> set k2. key \<le> k" by (rule leaf_at [where key = key]) blast
  have srt: "sorted_wrt (<) (k1 @ k2)" using assms at by simp
  note hit = leaf_hit [OF srt at(6,7)]
  show ?thesis
  proof (cases "key \<in> set ks")
    case True
    then obtain k2' where k2: "k2 = key # k2'" using hit at by auto
    then obtain r r2' where r2: "r2 = r # r2'" using at by (cases r2) auto
    have "key \<notin> set k1" using at by auto
    then have "map_of (zip k1 r1) key = None" using at(3) by (simp add: map_of_zip_is_None)
    then have "map_of (zip ks rs) key = Some r"
      using at(1-3) k2 r2 by (simp add: map_add_Some_iff)
    then have "lookup (map_of (zip ks rs)) key = (r, True)" by (simp add: lookup_def)
    moreover have "idx rs (length k1) = Some r" using at(2,3) r2 by (simp flip: at(3))
    moreover have "length k1 < length ks" "ks ! length k1 = key" using at(1) k2 by simp_all
    ultimately show ?thesis using at(5) by simp
  next
    case False
    then have "\<not> (length k1 < length (k1 @ k2) \<and> (k1 @ k2) ! length k1 = key)"
      using hit at(1) by simp
    moreover have "map_of (zip ks rs) key = None"
      using False at(1-4) by (simp add: map_of_zip_is_None del: zip_append)
    ultimately show ?thesis using at(1,5) by (auto simp: lookup_def)
  qed
qed

section \<open>The leaf chain\<close>

text \<open>The leaves of a node in order, each with its address and its \<open>next\<close> field; a list of such
  links is a chain when every \<open>next\<close> is the address of the following leaf, the last one \<open>stop\<close>.\<close>

fun links :: "node \<Rightarrow> (addr \<times> addr option) list" where
  "links (Leaf a ks rs nx) = [(a, nx)]"
| "links (Inner ks cs) = concat (map links cs)"

fun linked :: "(addr \<times> addr option) list \<Rightarrow> addr option \<Rightarrow> bool" where
  "linked [] stop \<longleftrightarrow> True"
| "linked (l # ls) stop \<longleftrightarrow> snd l = (case ls of [] \<Rightarrow> stop | m # _ \<Rightarrow> Some (fst m)) \<and> linked ls stop"

definition chain_ok :: "(addr \<times> addr option) list \<Rightarrow> addr \<Rightarrow> bool" where
  "chain_ok ls f \<longleftrightarrow> linked ls None \<and> distinct (map fst ls) \<and> (\<forall>a \<in> set (map fst ls). a < f)"

text \<open>A split adds a leaf behind the one it splits, under a fresh address.\<close>

definition chain_grows ::
    "(addr \<times> addr option) list \<Rightarrow> addr \<Rightarrow> (addr \<times> addr option) list \<Rightarrow> addr \<Rightarrow> bool" where
  "chain_grows ls f ls' f' \<longleftrightarrow>
     ls' = ls \<and> f' = f
     \<or> (\<exists>A a nx B. ls = A @ (a, nx) # B \<and> ls' = A @ (a, Some f) # (f, nx) # B \<and> f' = f + 1)"

lemma linked_append:
  "linked (A @ l # B) stop \<longleftrightarrow> linked A (Some (fst l)) \<and> linked (l # B) stop"
proof (induction A)
  case (Cons a A)
  then show ?case by (cases A) auto
qed simp

lemma linked_grow:
  "linked (A @ (a, nx) # B) stop \<Longrightarrow> linked (A @ (a, Some f) # (f, nx) # B) stop"
  by (simp add: linked_append)

lemma chain_grows_ok: 
  assumes "chain_grows ls f ls' f'" "chain_ok ls f"
  shows "chain_ok ls' f'"
proof -
  from assms(1) consider "ls' = ls" "f' = f"
    | A a nx B where "ls = A @ (a, nx) # B" "ls' = A @ (a, Some f) # (f, nx) # B" "f' = f + 1"
    unfolding chain_grows_def by blast
  then show ?thesis
  proof cases
    case 2
    have new: "\<forall>x \<in> fst ` set ls. x < f" using assms(2) by (simp add: chain_ok_def)
    then have "f \<notin> fst ` set ls" by blast
    then show ?thesis
      using assms(2) 2 new linked_grow [of A a nx B None f]
      by (auto simp: chain_ok_def ball_Un less_SucI)
  qed (use assms(2) in simp)
qed

lemma chain_grows_mid:
  "chain_grows ls f ls' f' \<Longrightarrow> chain_grows (A @ ls @ B) f (A @ ls' @ B) f'"
proof -
  assume "chain_grows ls f ls' f'"
  then consider "ls' = ls" "f' = f"
    | A0 a nx B0 where "ls = A0 @ (a, nx) # B0" "ls' = A0 @ (a, Some f) # (f, nx) # B0" "f' = f + 1"
    unfolding chain_grows_def by blast
  then show ?thesis
  proof cases
    case 2
    then have "A @ ls @ B = (A @ A0) @ (a, nx) # (B0 @ B)"
      "A @ ls' @ B = (A @ A0) @ (a, Some f) # (f, nx) # (B0 @ B)" by simp_all
    then show ?thesis using 2(3) unfolding chain_grows_def by blast
  qed (simp add: chain_grows_def)
qed

lemma chain_grows_refl: "chain_grows ls f ls f"
  by (simp add: chain_grows_def)

section \<open>Sound trees\<close>

text \<open>The number of levels below a node, along its first children as \<open>Tree.Height\<close> counts them.\<close>

fun node_height :: "node \<Rightarrow> nat" where
  "node_height (Leaf a ks rs nx) = 0"
| "node_height (Inner ks []) = 1"
| "node_height (Inner ks (c # cs)) = Suc (node_height c)"

definition tree_entries :: "Tree \<Rightarrow> (key \<times> RowID) list" where
  "tree_entries t = (case root t of None \<Rightarrow> [] | Some n \<Rightarrow> entries n)"

definition sized :: "Tree \<Rightarrow> bool" where
  "sized t \<longleftrightarrow> 3 \<le> order t \<and> maxKeys t = nat (order t - 1) \<and> minKeys t = nat ((order t - 1) div 2)"

definition root_min :: "node \<Rightarrow> nat" where
  "root_min n = (if leaf n then 0 else 1)"

definition wf_root :: "Tree \<Rightarrow> node \<Rightarrow> bool" where
  "wf_root t n \<longleftrightarrow>
     wfn (maxKeys t) (minKeys t) (root_min n) (node_height n) None None n
     \<and> chain_ok (links n) (fresh t)"

definition wf_tree :: "Tree \<Rightarrow> bool" where
  "wf_tree t \<longleftrightarrow>
     (order t = 0 \<and> root t = None \<or> sized t)
     \<and> count t = int (length (tree_entries t))
     \<and> (case root t of None \<Rightarrow> True | Some n \<Rightarrow> wf_root t n)"

lemma wfn_height: "wfn mx mn own h lo hi n \<Longrightarrow> h = node_height n"
proof (induction n arbitrary: own h lo hi rule: node_height.induct)
  case (3 ks c cs)
  then have "wfn mx mn mn (h - 1) lo (headb hi ks) c" "h \<noteq> 0" by (auto simp only: wfn.simps wfcs_at)
  then show ?case using "3.IH" [of mn "h - 1" lo "headb hi ks"] by simp
qed simp_all

lemma sized_keys: "sized t \<Longrightarrow> 2 \<le> maxKeys t \<and> minKeys t = maxKeys t div 2 \<and> 1 \<le> minKeys t"
  by (auto simp: sized_def nat_div_distrib)

lemma wf_rootI:
  "wfn (maxKeys t) (minKeys t) (root_min n) h None None n \<Longrightarrow> chain_ok (links n) (fresh t)
   \<Longrightarrow> wf_root t n"
  using wfn_height [of "maxKeys t" "minKeys t" "root_min n" h None None n]
  by (simp add: wf_root_def)

lemma wf_tree_sorted: "wf_tree t \<Longrightarrow> sorted_al (tree_entries t)"
  by (auto simp: wf_tree_def wf_root_def tree_entries_def dest: wfn_sorted split: option.splits)

lemma NewTree_wf: "NewTree ord = Inr t \<Longrightarrow> wf_tree t"
  by (auto simp: NewTree_def MinOrder_def wf_tree_def sized_def tree_entries_def emptyLeaf_def
      wf_root_def root_min_def chain_ok_def split: if_splits)

lemma zeroTree_wf: "wf_tree zeroTree"
  by (simp add: zeroTree_def wf_tree_def tree_entries_def)

lemma ensure_wf:
  assumes "wf_tree t"
  shows "wf_tree (ensure t)" "sized (ensure t)" "\<exists>n. root (ensure t) = Some n"
    "tree_entries (ensure t) = tree_entries t" "count (ensure t) = count t"
    "stats (ensure t) = stats t" "order (ensure t) = Order t"
  using assms
  by (auto simp: ensure_def Let_def wf_tree_def sized_def tree_entries_def emptyLeaf_def DefaultOrder_def
      wf_root_def root_min_def chain_ok_def Order_def split: if_splits option.splits)

end
