(* ===== verification/BTreePut.thy ===== *)
theory BTreePut
  imports BTreeInv
begin

text \<open>
  Insertion is correct: \<open>insert\<close> and \<open>Put\<close> never panic on a sound tree, keep it sound, and their
  effect on the entries is \<open>upd_al\<close>.
\<close>

section \<open>Splits\<close>

lemma splitLeaf_eq:
  assumes "length k1 = (length k1 + Suc (length k2)) div 2" "length r1 = length k1"
  shows "splitLeaf t a (k1 @ s # k2) (r1 @ r2) nx
    = Some (t\<lparr>fresh := fresh t + 1\<rparr>, Leaf a k1 r1 (Some (fresh t)),
            Some (s, Leaf (fresh t) (s # k2) r2 nx))"
proof -
  have "length (k1 @ s # k2) div 2 = length k1" using assms by simp
  then show ?thesis
    unfolding splitLeaf_def Let_def using assms(2) by (simp del: length_append)
qed

lemma splitInternal_eq:
  assumes "length k1 = (length k1 + Suc (length k2)) div 2" "length c1 = Suc (length k1)"
  shows "splitInternal t (k1 @ s # k2) (c1 @ c2) = Some (t, Inner k1 c1, Some (s, Inner k2 c2))"
proof -
  have mid: "length (k1 @ s # k2) div 2 = length k1" using assms by simp
  have "slice_from (c1 @ c2) (length k1 + 1) = Some c2" "slice_to (c1 @ c2) (length k1 + 1) = Some c1"
    using assms(2) by (simp_all add: slice_to_def slice_from_def)
  then show ?thesis
    unfolding splitInternal_def Let_def mid by simp
qed

text \<open>An overfull list of keys around its middle.\<close>

lemma halves:
  assumes "length ks = Suc mx" "2 \<le> mx"
  obtains k0 k1 s k2 where "ks = (k0 # k1) @ s # k2"
    "Suc (length k1) = (Suc (length k1) + Suc (length k2)) div 2" "mx = Suc (length k1) + length k2"
    "mx div 2 \<le> Suc (length k1)" "mx div 2 \<le> length k2"
proof -
  have "Suc mx div 2 < length ks" using assms by simp
  then obtain K s k2 where K: "ks = K @ s # k2" "length K = Suc mx div 2" by (rule list_at)
  then obtain k0 k1 where k: "K = k0 # k1" using assms(2) by (cases K) auto
  have half: "length K = Suc mx div 2" "length K + length k2 = mx" using assms K by simp_all
  show ?thesis
  proof (rule that [of k0 k1 s k2])
    show "ks = (k0 # k1) @ s # k2" using K k by simp
    have k1: "Suc (length k1) = Suc mx div 2" using half k by simp
    show mx: "mx = Suc (length k1) + length k2" using half k by simp
    then have "Suc (length k1) + Suc (length k2) = Suc mx" by simp
    then show "Suc (length k1) = (Suc (length k1) + Suc (length k2)) div 2" using k1 by simp
    show "mx div 2 \<le> Suc (length k1)" unfolding k1 by (simp add: div_le_mono)
    show "mx div 2 \<le> length k2" using k1 mx by linarith
  qed
qed

section \<open>\<open>insert\<close>\<close>

definition split_entries :: "(key \<times> node) option \<Rightarrow> (key \<times> RowID) list" where
  "split_entries sp = (case sp of None \<Rightarrow> [] | Some (s, r) \<Rightarrow> entries r)"

definition split_links :: "(key \<times> node) option \<Rightarrow> (addr \<times> addr option) list" where
  "split_links sp = (case sp of None \<Rightarrow> [] | Some (s, r) \<Rightarrow> links r)"

lemma split_simps [simp]:
  "split_entries None = []" "split_entries (Some (s, r)) = entries r"
  "split_links None = []" "split_links (Some (s, r)) = links r"
  by (simp_all add: split_entries_def split_links_def)

definition wf_split ::
    "nat \<Rightarrow> nat \<Rightarrow> nat \<Rightarrow> nat \<Rightarrow> key option \<Rightarrow> key option \<Rightarrow> node \<Rightarrow> (key \<times> node) option \<Rightarrow> bool" where
  "wf_split mx mn own h lo hi n sp \<longleftrightarrow>
     (case sp of
        None \<Rightarrow> wfn mx mn own h lo hi n
      | Some (s, r) \<Rightarrow> wfn mx mn mn h lo (Some s) n \<and> wfn mx mn mn h (Some s) hi r
                        \<and> gtb lo s \<and> ltb hi s)"

text \<open>What \<open>insert\<close> promises: only the counter and the allocator of the tree change, the counter by
  one when the key is new; the entries of the node, followed by those of the split-off right node,
  are the old ones updated; the chain of leaves grows in place; and the nodes are sound.\<close>

definition inserted :: "nat \<Rightarrow> nat \<Rightarrow> nat \<Rightarrow> nat \<Rightarrow> key option \<Rightarrow> key option \<Rightarrow> Tree \<Rightarrow> node \<Rightarrow> key \<Rightarrow> RowID
    \<Rightarrow> Tree \<times> node \<times> (key \<times> node) option \<Rightarrow> bool" where
  "inserted mx mn own h lo hi t n key rid res \<longleftrightarrow>
     (case res of (t', n', sp) \<Rightarrow>
        t' = t\<lparr>count := count t + (if key \<in> fst ` set (entries n) then 0 else 1), fresh := fresh t'\<rparr>
        \<and> entries n' @ split_entries sp = upd_al key rid (entries n)
        \<and> chain_grows (links n) (fresh t) (links n' @ split_links sp) (fresh t')
        \<and> wf_split mx mn own h lo hi n' sp)"

lemma upd_al_Nil [simp]: "upd_al k v [] = [(k, v)]"
  and upd_al_same [simp]: "upd_al k v [(k, w)] = [(k, v)]"
  by (simp_all add: upd_al_def)

lemma insert_leaf:
  assumes wf: "wfn mx (mx div 2) own h lo hi (Leaf a ks rs nx)" and key: "geb lo key" "ltb hi key"
    and mx: "maxKeys t = mx" "2 \<le> mx"
  shows "\<exists>res. insert t (Leaf a ks rs nx) key rid = Some res
    \<and> inserted mx (mx div 2) own h lo hi t (Leaf a ks rs nx) key rid res"
proof -
  from wf obtain k1 k2 r1 r2 where at: "ks = k1 @ k2" "rs = r1 @ r2"
    "length r1 = length k1" "length r2 = length k2" "leafIndex ks key = length k1"
    "\<forall>k \<in> set k1. k < key" "\<forall>k \<in> set k2. key \<le> k" "\<And>e. e \<in> set (zip k1 r1) \<Longrightarrow> fst e < key"
    by (rule leaf_at [where key = key]) blast
  have srt: "sorted_wrt (<) (k1 @ k2)" and bnd: "\<forall>k \<in> set ks. geb lo k \<and> ltb hi k"
    and len: "own \<le> length ks" "length ks \<le> mx" and h: "h = 0" using wf at by auto
  note hit = leaf_hit [OF srt at(6,7)]
  have ent: "entries (Leaf a ks rs nx) = zip k1 r1 @ zip k2 r2" using at by simp
  have dom: "fst ` set (entries (Leaf a ks rs nx)) = set ks"
    using at by (simp flip: set_map zip_append)
  show ?thesis
  proof (cases "key \<in> set ks")
    case True
    then obtain k2' where k2: "k2 = key # k2'" "\<forall>k \<in> set k2'. key < k" using hit at by auto
    then obtain r r2' where r2: "r2 = r # r2'" using at by (cases r2) auto
    have "insert t (Leaf a ks rs nx) key rid = Some (t, Leaf a ks (r1 @ rid # r2') nx, None)"
      using at(1-5) k2 r2 by (simp add: Let_def)
    moreover have "upd_al key rid (zip k1 r1 @ zip k2 r2) = zip k1 r1 @ (key, rid) # zip k2' r2'"
    proof -
      have "key < fst e" if "e \<in> set (zip k2' r2')" for e
        using that k2(2) set_zip_leftD [of "fst e" "snd e" k2' r2'] by simp
      then show ?thesis
        using upd_al_mid [of "zip k1 r1" key "zip k2' r2'" rid "[(key, r)]"] at(8) k2 r2 by simp
    qed
    moreover have "wfn mx (mx div 2) own h lo hi (Leaf a ks (r1 @ rid # r2') nx)"
      using wf at r2 by simp
    ultimately show ?thesis
      using at(1-4) k2 r2 True dom
      by (simp add: inserted_def wf_split_def chain_grows_refl)
  next
    case False
    then have miss: "\<not> (length k1 < length (k1 @ k2) \<and> (k1 @ k2) ! length k1 = key)"
      and above: "\<forall>k \<in> set k2. key < k"
      using hit at(1,7) by (auto simp: order_le_less)
    let ?ks = "k1 @ key # k2" and ?rs = "r1 @ rid # r2" and ?t = "t\<lparr>count := count t + 1\<rparr>"
    have ins: "insert t (Leaf a ks rs nx) key rid =
        (if length ?ks \<le> mx then Some (?t, Leaf a ?ks ?rs nx, None) else splitLeaf ?t a ?ks ?rs nx)"
      using at(3) mx by (simp only: insert.simps Let_def at(5) [unfolded at(1)] at(1,2) miss if_False)
        (simp del: length_append)
    have upd: "upd_al key rid (zip k1 r1 @ zip k2 r2) = zip ?ks ?rs"
    proof -
      have "key < fst e" if "e \<in> set (zip k2 r2)" for e
        using that above set_zip_leftD [of "fst e" "snd e" k2 r2] by simp
      then show ?thesis
        using upd_al_mid [of "zip k1 r1" key "zip k2 r2" rid "[]"] at(3,8) by simp
    qed
    have srt': "sorted_wrt (<) ?ks" using srt at(6) above by (auto simp: sorted_wrt_append)
    have bnd': "\<forall>k \<in> set ?ks. geb lo k \<and> ltb hi k" using bnd at(1) key by auto
    show ?thesis
    proof (cases "length ?ks \<le> mx")
      case True
      then show ?thesis
        using ins upd srt' bnd' h len at(1-4) False dom ent
        by (simp add: inserted_def wf_split_def chain_grows_refl)
    next
      case full: False
      then have "length ?ks = Suc mx" using len at(1) by simp
      then obtain k0 K s K2 where H: "?ks = (k0 # K) @ s # K2"
        "Suc (length K) = (Suc (length K) + Suc (length K2)) div 2" "mx = Suc (length K) + length K2"
        "mx div 2 \<le> Suc (length K)" "mx div 2 \<le> length K2"
        using mx(2) by (rule halves)
      define R1 R2 where R: "R1 = take (Suc (length K)) ?rs" "R2 = drop (Suc (length K)) ?rs"
      have "length ?rs = length ?ks" using at(3,4) by simp
      also have "\<dots> = Suc (length K) + Suc (length K2)" unfolding H(1) by simp
      finally have len': "length ?rs = Suc (length K) + Suc (length K2)" .
      have rs: "?rs = R1 @ R2" "length R1 = Suc (length K)" "length R2 = Suc (length K2)"
        by (simp_all only: R append_take_drop_id length_take length_drop len')
      have "insert t (Leaf a ks rs nx) key rid = splitLeaf ?t a ((k0 # K) @ s # K2) (R1 @ R2) nx"
        using ins full by (simp only: if_False H(1) rs(1))
      also have "\<dots> = Some (?t\<lparr>fresh := fresh t + 1\<rparr>, Leaf a (k0 # K) R1 (Some (fresh t)),
            Some (s, Leaf (fresh t) (s # K2) R2 nx))"
        using splitLeaf_eq [of "k0 # K" K2 R1 ?t a s R2 nx] H(2) rs(2) by simp
      finally have ins': "insert t (Leaf a ks rs nx) key rid = \<dots>" .
      have "zip ?ks ?rs = zip (k0 # K) R1 @ zip (s # K2) R2"
        unfolding H(1) rs(1) by (rule zip_append) (simp add: rs(2))
      moreover have "sorted_wrt (<) ((k0 # K) @ s # K2)" "\<forall>k \<in> set ((k0 # K) @ s # K2). geb lo k \<and> ltb hi k"
        using srt' bnd' unfolding H(1) .
      moreover have "gtb lo s" using calculation(2,3) by (auto intro: geb_less_gtb)
      moreover have "chain_grows [(a, nx)] (fresh t) [(a, Some (fresh t)), (fresh t, nx)] (fresh t + 1)"
        unfolding chain_grows_def by (metis append_Nil)
      ultimately show ?thesis
        using ins' upd ent h H(3-5) rs(2,3) False dom at(1)
        by (auto simp: inserted_def wf_split_def sorted_wrt_append)
    qed
  qed
qed

lemma insert_inner:
  assumes wf: "wfn mx (mx div 2) own h lo hi (Inner ks cs)" and key: "geb lo key" "ltb hi key"
    and mx: "maxKeys t = mx" "2 \<le> mx"
    and IH: "\<And>c l u. c \<in> set cs \<Longrightarrow> wfn mx (mx div 2) (mx div 2) (h - 1) l u c \<Longrightarrow>
      geb l key \<Longrightarrow> ltb u key \<Longrightarrow>
      \<exists>res. insert t c key rid = Some res
        \<and> inserted mx (mx div 2) (mx div 2) (h - 1) l u t c key rid res"
  shows "\<exists>res. insert t (Inner ks cs) key rid = Some res
    \<and> inserted mx (mx div 2) own h lo hi t (Inner ks cs) key rid res"
proof -
  let ?mn = "mx div 2"
  from wf key obtain k1 k2 c1 c c2 where at:
    "ks = k1 @ k2" "cs = c1 @ c # c2" "length c1 = length k1" "childIndex ks key = length k1"
    "wfl mx ?mn (h - 1) lo k1 c1" "wfn mx ?mn ?mn (h - 1) (lastb lo k1) (headb hi k2) c"
    "wfr mx ?mn (h - 1) hi k2 c2" "geb (lastb lo k1) key" "ltb (headb hi k2) key"
    and out: "\<And>e. e \<in> set (concat (map entries c1)) \<Longrightarrow> fst e < key"
    "\<And>e. e \<in> set (concat (map entries c2)) \<Longrightarrow> key < fst e"
    by (rule inner_at) blast
  have h: "h \<noteq> 0" and srt: "sorted_wrt (<) (k1 @ k2)" and bnd: "\<forall>k \<in> set (k1 @ k2). geb lo k \<and> ltb hi k"
    and len: "own \<le> length ks" "length ks \<le> mx" using wf at by auto
  obtain t' c' sp where res: "insert t c key rid = Some (t', c', sp)"
    and ins: "inserted mx ?mn ?mn (h - 1) (lastb lo k1) (headb hi k2) t c key rid (t', c', sp)"
    using IH [OF _ at(6,8,9)] at(2) by (metis in_set_conv_decomp prod_cases3)
  have t': "t' = t\<lparr>count := count t + (if key \<in> fst ` set (entries c) then 0 else 1), fresh := fresh t'\<rparr>"
    and ent: "entries c' @ split_entries sp = upd_al key rid (entries c)"
    and lnk: "chain_grows (links c) (fresh t) (links c' @ split_links sp) (fresh t')"
    and wfs: "wf_split mx ?mn ?mn (h - 1) (lastb lo k1) (headb hi k2) c' sp"
    using ins by (auto simp: inserted_def)
  let ?E1 = "concat (map entries c1)" and ?E2 = "concat (map entries c2)"
  have "key \<notin> fst ` set ?E1" "key \<notin> fst ` set ?E2" using out by (metis imageE less_irrefl)+
  then have dom: "key \<in> fst ` set (entries (Inner ks cs)) \<longleftrightarrow> key \<in> fst ` set (entries c)"
    using at(2) by (simp add: image_Un)
  have upd: "upd_al key rid (entries (Inner ks cs)) = ?E1 @ entries c' @ split_entries sp @ ?E2"
    using upd_al_mid [of ?E1 key ?E2 rid "entries c"] out at(2) ent [symmetric] by simp
  have grow: "chain_grows (links (Inner ks cs)) (fresh t)
      (concat (map links c1) @ links c' @ split_links sp @ concat (map links c2)) (fresh t')"
    using chain_grows_mid [OF lnk, of "concat (map links c1)" "concat (map links c2)"] at(2) by simp
  have mx': "maxKeys t' = mx" using mx arg_cong [OF t', of maxKeys] by simp
  have eqn: "insert t (Inner ks cs) key rid =
      (case sp of None \<Rightarrow> Some (t', Inner ks (c1 @ c' # c2), None)
       | Some (sep, right) \<Rightarrow>
          if length (k1 @ sep # k2) \<le> mx
          then Some (t', Inner (k1 @ sep # k2) (c1 @ c' # right # c2), None)
          else splitInternal t' (k1 @ sep # k2) (c1 @ c' # right # c2))"
    using at(3) res mx' unfolding insert.simps Let_def at(4) unfolding at(1,2)
    by (simp flip: at(3) split: option.splits)
  show ?thesis
  proof (cases sp)
    case None
    then have "wfn mx ?mn ?mn (h - 1) (lastb lo k1) (headb hi k2) c'"
      using wfs by (simp add: wf_split_def)
    then have "wfcs mx ?mn (h - 1) lo hi ks (c1 @ c' # c2)"
      using at(3,5,7) by (simp add: at(1) wfcs_mid)
    then show ?thesis
      using None eqn upd grow dom t' srt bnd h len at(1) by (simp add: inserted_def wf_split_def)
  next
    case (Some p)
    then obtain s r where sp: "sp = Some (s, r)" by (cases p) auto
    have w: "wfn mx ?mn ?mn (h - 1) (lastb lo k1) (Some s) c'"
      "wfn mx ?mn ?mn (h - 1) (Some s) (headb hi k2) r" "gtb (lastb lo k1) s" "ltb (headb hi k2) s"
      using wfs sp by (simp_all add: wf_split_def)
    have srt': "sorted_wrt (<) (k1 @ s # k2)" using sorted_sep [OF srt w(3,4)] .
    have s: "gtb lo s" "ltb hi s"
      using w(3,4) srt bnd gtb_lastb [of k1 lo s] ltb_headb [of k2 hi s]
      by (auto simp: sorted_wrt_append)
    then have bnd': "\<forall>k \<in> set (k1 @ s # k2). geb lo k \<and> ltb hi k" using bnd by (auto intro: gtb_geb)
    have wfc: "wfcs mx ?mn (h - 1) lo hi (k1 @ s # k2) (c1 @ c' # r # c2)"
    proof -
      have "wfcs mx ?mn (h - 1) (Some s) hi k2 (r # c2)" using at(7) w(2) by (simp only: wfcs_at)
      then have "wfcs mx ?mn (h - 1) (lastb lo k1) hi (s # k2) (c' # r # c2)" using w(1) by simp
      then show ?thesis using at(3,5) by (simp only: wfcs_append)
    qed
    show ?thesis
    proof (cases "length (k1 @ s # k2) \<le> mx")
      case True
      then show ?thesis
        using sp eqn upd grow dom t' srt' bnd' wfc h len at(1) by (simp add: inserted_def wf_split_def)
    next
      case False
      then have "length (k1 @ s # k2) = Suc mx" using len at(1) by simp
      then obtain k0 K m K2 where H: "k1 @ s # k2 = (k0 # K) @ m # K2"
        "Suc (length K) = (Suc (length K) + Suc (length K2)) div 2" "mx = Suc (length K) + length K2"
        "mx div 2 \<le> Suc (length K)" "mx div 2 \<le> length K2"
        using mx(2) by (rule halves)
      let ?cs = "c1 @ c' # r # c2"
      define C1 C2 where C: "C1 = take (Suc (Suc (length K))) ?cs" "C2 = drop (Suc (Suc (length K))) ?cs"
      have "length ?cs = Suc (length (k1 @ s # k2))" using wfcs_length [OF wfc] .
      also have "\<dots> = Suc (Suc (length K)) + Suc (length K2)" unfolding H(1) by simp
      finally have len': "length ?cs = Suc (Suc (length K)) + Suc (length K2)" .
      have cs: "?cs = C1 @ C2" "length C1 = Suc (Suc (length K))"
        by (simp_all only: C append_take_drop_id length_take len')
      have "insert t (Inner ks cs) key rid = splitInternal t' ((k0 # K) @ m # K2) (C1 @ C2)"
        using eqn sp False by (simp only: option.case prod.case if_False H(1) cs(1))
      also have "\<dots> = Some (t', Inner (k0 # K) C1, Some (m, Inner K2 C2))"
        using splitInternal_eq [of "k0 # K" K2 C1 t' m C2] H(2) cs(2) by simp
      finally have eqn': "insert t (Inner ks cs) key rid = \<dots>" .
      have wfc': "wfcs mx ?mn (h - 1) lo (Some m) (k0 # K) C1" "wfcs mx ?mn (h - 1) (Some m) hi K2 C2"
        using wfc wfcs_cut [of C1 "k0 # K" mx ?mn "h - 1" lo hi m K2 C2] cs(2)
        unfolding H(1) cs(1) by simp_all
      have E: "?E1 @ entries c' @ entries r @ ?E2 = concat (map entries C1) @ concat (map entries C2)"
        and L: "concat (map links c1) @ links c' @ links r @ concat (map links c2)
          = concat (map links C1) @ concat (map links C2)"
        using arg_cong [OF cs(1), of "\<lambda>x. concat (map entries x)"]
          arg_cong [OF cs(1), of "\<lambda>x. concat (map links x)"] by simp_all
      have "sorted_wrt (<) ((k0 # K) @ m # K2)" "\<forall>k \<in> set ((k0 # K) @ m # K2). geb lo k \<and> ltb hi k"
        using srt' bnd' unfolding H(1) .
      moreover have "gtb lo m" using calculation by (auto intro: geb_less_gtb)
      ultimately have "wf_split mx ?mn own h lo hi (Inner (k0 # K) C1) (Some (m, Inner K2 C2))"
        using wfc' h H(3-5) by (auto simp: wf_split_def sorted_wrt_append)
      then show ?thesis
        using eqn' upd grow E L dom t' sp by (simp add: inserted_def)
    qed
  qed
qed

lemma insert_correct:
  "wfn mx (mx div 2) own h lo hi n \<Longrightarrow> geb lo key \<Longrightarrow> ltb hi key \<Longrightarrow> maxKeys t = mx \<Longrightarrow> 2 \<le> mx \<Longrightarrow>
   \<exists>res. insert t n key rid = Some res \<and> inserted mx (mx div 2) own h lo hi t n key rid res"
proof (induction n arbitrary: own h lo hi)
  case (Inner ks cs)
  show ?case using Inner.prems
  proof (rule insert_inner)
    show "\<exists>res. insert t c key rid = Some res
        \<and> inserted mx (mx div 2) (mx div 2) (h - 1) l u t c key rid res"
      if "c \<in> set cs" "wfn mx (mx div 2) (mx div 2) (h - 1) l u c" "geb l key" "ltb u key" for c l u
      using Inner.IH [OF that] Inner.prems(4,5) .
  qed
qed (rule insert_leaf)

section \<open>\<open>Put\<close> and \<open>Get\<close> on a tree\<close>

lemma inserted_root_min:
  assumes "inserted mx mn (root_min n) h lo hi t n key rid (t', n', None)"
    and "insert t n key rid = Some (t', n', None)"
  shows "root_min n' = root_min n"
  using assms(2) by (cases n) (auto simp: root_min_def splitLeaf_def splitInternal_def Let_def
      split: if_splits option.splits Option.bind_splits)

lemma Put_correct:
  assumes "wf_tree t"
  shows "\<exists>t'. Put t key rid = Some t' \<and> wf_tree t'
    \<and> tree_entries t' = upd_al key rid (tree_entries t)
    \<and> stats t' = stats t \<and> order t' = Order t"
proof -
  note e = ensure_wf [OF assms]
  let ?t = "ensure t" let ?mx = "maxKeys ?t"
  obtain n where n: "root ?t = Some n" using e(3) by blast
  have sz: "2 \<le> ?mx" "minKeys ?t = ?mx div 2" "1 \<le> ?mx div 2" using sized_keys [OF e(2)] by auto
  have wf: "wfn ?mx (?mx div 2) (root_min n) (node_height n) None None n"
    and ch: "chain_ok (links n) (fresh ?t)"
    using e(1) n sz by (simp_all add: wf_tree_def wf_root_def)
  have ent: "tree_entries t = entries n" using e(4) n by (simp add: tree_entries_def)
  obtain t' n' sp where res: "insert ?t n key rid = Some (t', n', sp)"
    and ins: "inserted ?mx (?mx div 2) (root_min n) (node_height n) None None ?t n key rid (t', n', sp)"
    using insert_correct [OF wf _ _ refl sz(1)] by (metis bound_simps(1,3) prod_cases3)
  have t': "t' = ?t\<lparr>count := count ?t + (if key \<in> fst ` set (entries n) then 0 else 1), fresh := fresh t'\<rparr>"
    and en: "entries n' @ split_entries sp = upd_al key rid (entries n)"
    and gr: "chain_grows (links n) (fresh ?t) (links n' @ split_links sp) (fresh t')"
    and ws: "wf_split ?mx (?mx div 2) (root_min n) (node_height n) None None n' sp"
    using ins by (auto simp: inserted_def)
  have same: "maxKeys t' = ?mx" "minKeys t' = minKeys ?t" "order t' = order ?t" "stats t' = stats ?t"
    and cnt: "count t' = count ?t + (if key \<in> fst ` set (entries n) then 0 else 1)"
    using t' by (metis Tree.simps(2-7) Tree.update_convs(5,7) Tree.surjective)+
  have ok: "chain_ok (links n' @ split_links sp) (fresh t')" using chain_grows_ok [OF gr ch] .
  have "sorted_al (entries n)" using wfn_sorted [OF wf] .
  then have len: "count t' = int (length (upd_al key rid (entries n)))"
    using cnt e(1,5) n by (auto simp: length_upd_al wf_tree_def tree_entries_def)
  have sz': "sized t'" using e(2) same by (simp add: sized_def)
  show ?thesis
  proof (cases sp)
    case None
    have "root_min n' = root_min n" using inserted_root_min ins res None by blast
    then have "wf_root (t'\<lparr>root := Some n'\<rparr>) n'"
      using ws ok None same sz by (intro wf_rootI) (simp_all add: wf_split_def)
    then show ?thesis
      using None res n en len sz' same e ent
      by (auto simp: Put_def Let_def wf_tree_def tree_entries_def sized_def)
  next
    case (Some p)
    then obtain s r where sp: "sp = Some (s, r)" by (cases p) auto
    let ?n = "Inner [s] [n', r]"
    have "wf_root (t'\<lparr>root := Some ?n\<rparr>) ?n"
      using ws ok sp same sz
      by (intro wf_rootI [where h = "Suc (node_height n)"]) (simp_all add: wf_split_def root_min_def)
    then show ?thesis
      using sp res n en len sz' same e ent
      by (auto simp: Put_def Let_def wf_tree_def tree_entries_def sized_def)
  qed
qed

lemma Get_correct:
  assumes "wf_tree t"
  shows "Get t key = Some (lookup (map_of (tree_entries t)) key)"
proof (cases "root t")
  case None
  then show ?thesis by (simp add: Get_def tree_entries_def lookup_def)
next
  case (Some n)
  then have wf: "wfn (maxKeys t) (minKeys t) (root_min n) (node_height n) None None n"
    using assms by (simp add: wf_tree_def wf_root_def)
  obtain l o' u v where l: "descend n key = Some l" "wfn (maxKeys t) (minKeys t) o' 0 u v l"
    "map_of (entries n) key = map_of (entries l) key"
    using descend_correct [OF wf, of key] bound_simps(1,3) by blast
  then obtain a ks rs nx where leaf: "l = Leaf a ks rs nx" by (cases l) auto
  have "Get t key = (if leafIndex ks key < length ks \<and> ks ! leafIndex ks key = key
      then do { r \<leftarrow> idx rs (leafIndex ks key); Some (r, True) } else Some (zeroRowID, False))"
    using l(1) Some leaf by (simp add: Get_def Let_def del: idx_in_range)
  also have "\<dots> = Some (lookup (map_of (zip ks rs)) key)"
    using leaf_lookup l(2) leaf by blast
  finally show ?thesis
    using l(3) Some leaf by (simp add: tree_entries_def lookup_def)
qed

end
