(* ===== verification/BTreeDelete.thy ===== *)
theory BTreeDelete
  imports BTreeInv
begin

text \<open>
  Deletion (\<open>delete.go\<close>): removal from a leaf, repair of an underfull child by borrowing from
  a sibling or merging with it, the collapse of an empty root, and the proof that a deletion keeps
  the tree sound and removes exactly the key.
\<close>

section \<open>The code\<close>

definition ResetStats :: "Tree \<Rightarrow> Tree" where
  "ResetStats t = t\<lparr>stats := zeroStats\<rparr>"

text \<open>The three repairs take the keys and the children of the parent and return them updated.  Where
  the two siblings are not of one kind, the borrowing code indexes an empty \<open>rows\<close> or \<open>children\<close>
  slice and panics; \<open>merge\<close> appends the empty slices.\<close>

definition borrowFromLeft :: "key list \<Rightarrow> node list \<Rightarrow> nat \<Rightarrow> (key list \<times> node list) option" where
  "borrowFromLeft ks cs i =
     do { left \<leftarrow> idx cs (i - 1);
          child \<leftarrow> idx cs i;
          let last = length (keys left) - 1;
          case (left, child) of
            (Leaf la lks lrs lnx, Leaf a cks crs nx) \<Rightarrow>
              do { k \<leftarrow> idx lks last;
                   r \<leftarrow> idx lrs last;
                   lks \<leftarrow> slice_to lks last;
                   lrs \<leftarrow> slice_to lrs last;
                   ks \<leftarrow> upd_at ks (i - 1) k;
                   Some (ks, cs[i - 1 := Leaf la lks lrs lnx, i := Leaf a (k # cks) (r # crs) nx]) }
          | (Inner lks lcs, Inner cks ccs) \<Rightarrow>
              do { let lastChild = length lcs - 1;
                   sep \<leftarrow> idx ks (i - 1);
                   c \<leftarrow> idx lcs lastChild;
                   k \<leftarrow> idx lks last;
                   lks \<leftarrow> slice_to lks last;
                   lcs \<leftarrow> slice_to lcs lastChild;
                   Some (ks[i - 1 := k], cs[i - 1 := Inner lks lcs, i := Inner (sep # cks) (c # ccs)]) }
          | _ \<Rightarrow> None }"

definition borrowFromRight :: "key list \<Rightarrow> node list \<Rightarrow> nat \<Rightarrow> (key list \<times> node list) option" where
  "borrowFromRight ks cs i =
     do { child \<leftarrow> idx cs i;
          right \<leftarrow> idx cs (i + 1);
          case (child, right) of
            (Leaf a cks crs nx, Leaf ra rks rrs rnx) \<Rightarrow>
              do { k \<leftarrow> idx rks 0;
                   r \<leftarrow> idx rrs 0;
                   rks \<leftarrow> slice_from rks 1;
                   rrs \<leftarrow> slice_from rrs 1;
                   sep \<leftarrow> idx rks 0;
                   ks \<leftarrow> upd_at ks i sep;
                   Some (ks, cs[i := Leaf a (cks @ [k]) (crs @ [r]) nx, i + 1 := Leaf ra rks rrs rnx]) }
          | (Inner cks ccs, Inner rks rcs) \<Rightarrow>
              do { sep \<leftarrow> idx ks i;
                   c \<leftarrow> idx rcs 0;
                   k \<leftarrow> idx rks 0;
                   rks \<leftarrow> slice_from rks 1;
                   rcs \<leftarrow> slice_from rcs 1;
                   Some (ks[i := k], cs[i := Inner (cks @ [sep]) (ccs @ [c]), i + 1 := Inner rks rcs]) }
          | _ \<Rightarrow> None }"

definition merge :: "key list \<Rightarrow> node list \<Rightarrow> nat \<Rightarrow> (key list \<times> node list) option" where
  "merge ks cs i =
     do { left \<leftarrow> idx cs i;
          right \<leftarrow> idx cs (i + 1);
          left \<leftarrow> (case left of
                     Leaf a lks lrs lnx \<Rightarrow>
                       Some (Leaf a (lks @ keys right) (lrs @ rows right) (nextLeaf right))
                   | Inner lks lcs \<Rightarrow>
                       do { sep \<leftarrow> idx ks i;
                            Some (Inner (lks @ [sep] @ keys right) (lcs @ children right)) });
          ks \<leftarrow> del_at ks i;
          cs \<leftarrow> del_at (cs[i := left]) (i + 1);
          Some (ks, cs) }"

definition repair :: "Tree \<Rightarrow> key list \<Rightarrow> node list \<Rightarrow> nat \<Rightarrow> (Tree \<times> key list \<times> node list) option" where
  "repair t ks cs i =
     (if i > 0 \<and> length (keys (cs ! (i - 1))) > minKeys t then
        do { (ks, cs) \<leftarrow> borrowFromLeft ks cs i;
             Some (t\<lparr>stats := (stats t)\<lparr>BorrowsLeft := BorrowsLeft (stats t) + 1\<rparr>\<rparr>, ks, cs) }
      else if i < length cs - 1 \<and> length (keys (cs ! (i + 1))) > minKeys t then
        do { (ks, cs) \<leftarrow> borrowFromRight ks cs i;
             Some (t\<lparr>stats := (stats t)\<lparr>BorrowsRight := BorrowsRight (stats t) + 1\<rparr>\<rparr>, ks, cs) }
      else
        do { (ks, cs) \<leftarrow> (if i > 0 then merge ks cs (i - 1) else merge ks cs i);
             Some (t\<lparr>stats := (stats t)\<lparr>Merges := Merges (stats t) + 1\<rparr>\<rparr>, ks, cs) })"

fun delete :: "Tree \<Rightarrow> node \<Rightarrow> key \<Rightarrow> (Tree \<times> node \<times> bool) option" where
  "delete t (Leaf a ks rs nx) key =
     (let i = leafIndex ks key in
      if i \<ge> length ks \<or> ks ! i \<noteq> key then Some (t, Leaf a ks rs nx, False)
      else do { ks \<leftarrow> del_at ks i;
                rs \<leftarrow> del_at rs i;
                Some (t, Leaf a ks rs nx, True) })"
| "delete t (Inner ks cs) key =
     (let i = childIndex ks key in
      do { c \<leftarrow> idx cs i;
           (t, c, found) \<leftarrow> delete t c key;
           let cs = cs[i := c];
           if \<not> found then Some (t, Inner ks cs, False)
           else if length (keys c) < minKeys t then
             do { (t, ks, cs) \<leftarrow> repair t ks cs i;
                  Some (t, Inner ks cs, True) }
           else Some (t, Inner ks cs, True) })"

text \<open>The loop at the end of \<open>Delete\<close>, which drops a root left with a single child.\<close>

fun collapse :: "Tree \<Rightarrow> node \<Rightarrow> (Tree \<times> node) option" where
  "collapse t (Leaf a ks rs nx) = Some (t, Leaf a ks rs nx)"
| "collapse t (Inner ks cs) =
     (if length ks = 0 then
        do { c \<leftarrow> idx cs 0;
             collapse (t\<lparr>stats := (stats t)\<lparr>Collapses := Collapses (stats t) + 1\<rparr>\<rparr>) c }
      else Some (t, Inner ks cs))"

definition Delete :: "Tree \<Rightarrow> key \<Rightarrow> (Tree \<times> bool) option" where
  "Delete t key =
     (case root t of
        None \<Rightarrow> Some (t, False)
      | Some n \<Rightarrow>
          do { (t, n, found) \<leftarrow> delete t n key;
               if \<not> found then Some (t\<lparr>root := Some n\<rparr>, False)
               else do { let t = t\<lparr>count := count t - 1\<rparr>;
                         (t, n) \<leftarrow> collapse t n;
                         Some (t\<lparr>root := Some n\<rparr>, True) } })"

fun collectSeparators :: "node \<Rightarrow> key list" where
  "collectSeparators (Leaf a ks rs nx) = []"
| "collectSeparators (Inner ks cs) = ks @ concat (map collectSeparators cs)"

definition Separators :: "Tree \<Rightarrow> key list" where
  "Separators t = (case root t of None \<Rightarrow> [] | Some n \<Rightarrow> collectSeparators n)"

section \<open>Repairing a pair of siblings\<close>

text \<open>With at least one key per node below the root, an inner node's keys lie strictly above its
  lower bound, because its first child is not empty.\<close>

lemma wfn_nonempty: "wfn mx mn own h lo hi n \<Longrightarrow> 1 \<le> own \<Longrightarrow> 1 \<le> mn \<Longrightarrow> entries n \<noteq> []"
proof (induction n arbitrary: own h lo hi)
  case (Leaf a ks rs nx)
  then show ?case by (cases ks; cases rs) auto
next
  case (Inner ks cs)
  then obtain c cs' where cs: "cs = c # cs'" by (cases cs) auto
  then have "wfn mx mn mn (h - 1) lo (headb hi ks) c"
    using Inner.prems(1) by (simp only: wfn.simps wfcs_at)
  then show ?case using Inner.IH [of c mn] Inner.prems(3) cs by auto
qed

lemma inner_keys_gtb:
  assumes "wfn mx mn own h lo hi (Inner ks cs)" "1 \<le> mn" "k \<in> set ks"
  shows "gtb lo k"
proof -
  obtain k0 ks' c cs' where s: "ks = k0 # ks'" "cs = c # cs'"
    using assms by (cases ks; cases cs) auto
  then have "wfn mx mn mn (h - 1) lo (Some k0) c" using assms(1) by simp
  moreover from wfn_nonempty [OF this assms(2,2)] obtain e where "e \<in> set (entries c)" by (meson last_in_set)
  ultimately have "geb lo (fst e)" "fst e < k0" using wfn_entries by fastforce+
  moreover have "k0 \<le> k" using assms(1,3) s by auto
  ultimately show ?thesis by (meson geb_less_gtb order_less_le_trans)
qed

definition pair_ok :: "nat \<Rightarrow> nat \<Rightarrow> nat \<Rightarrow> key option \<Rightarrow> key option \<Rightarrow> node \<Rightarrow> key \<Rightarrow> node \<Rightarrow> bool" where
  "pair_ok mx mn h L U l s r \<longleftrightarrow>
     wfn mx mn mn h L (Some s) l \<and> wfn mx mn mn h (Some s) U r \<and> gtb L s \<and> ltb U s"

lemma borrowFromLeft_pair:
  assumes l: "wfn mx mn mn h L (Some s) l" "mn < length (keys l)"
    and c: "wfn mx mn (mn - 1) h (Some s) U c" "length (keys c) = mn - 1"
    and b: "1 \<le> mn" "mn \<le> mx" "ltb U s"
  shows "\<exists>l' s' c'. pair_ok mx mn h L U l' s' c'
    \<and> entries l' @ entries c' = entries l @ entries c \<and> links l' @ links c' = links l @ links c
    \<and> (\<forall>K1 K2 C1 C2. length C1 = length K1 \<longrightarrow>
        borrowFromLeft (K1 @ s # K2) (C1 @ l # c # C2) (Suc (length K1))
          = Some (K1 @ s' # K2, C1 @ l' # c' # C2))"
proof (cases l)
  case (Leaf la lks lrs lnx)
  then have h: "h = 0" using l by simp
  then obtain a cks crs nx where c': "c = Leaf a cks crs nx" using c by (cases c) auto
  obtain lk k where lk: "lks = lk @ [k]" using l(2) Leaf by (cases lks rule: rev_cases) auto
  then have "lk \<noteq> []" using l(2) b(1) Leaf by auto
  obtain lr r where lr: "lrs = lr @ [r]" "length lr = length lk"
    using l(1) Leaf lk by (cases lrs rule: rev_cases) auto
  obtain k0 lk' where k0: "lk = k0 # lk'" using \<open>lk \<noteq> []\<close> by (cases lk) auto
  have "pair_ok mx mn h L U (Leaf la lk lr lnx) k (Leaf a (k # cks) (r # crs) nx)"
    using l c b Leaf c' lk lr h k0
    by (auto simp: pair_ok_def sorted_wrt_append dest: less_le_trans
        intro: geb_less_gtb [of L k0 k] ltb_trans [of U s k])
  moreover have "borrowFromLeft (K1 @ s # K2) (C1 @ l # c # C2) (Suc (length K1))
      = Some (K1 @ k # K2, C1 @ Leaf la lk lr lnx # Leaf a (k # cks) (r # crs) nx # C2)"
    if "length C1 = length K1" for K1 K2 and C1 C2 :: "node list"
    using that Leaf c' lk lr by (simp add: borrowFromLeft_def nth_append list_update_append idx_def flip: that)
  ultimately show ?thesis
    using Leaf c' lk lr by (intro exI conjI allI impI) auto
next
  case (Inner lks lcs)
  then have h: "h \<noteq> 0" using l by simp
  then obtain cks ccs where c': "c = Inner cks ccs" using c by (cases c) auto
  obtain lk k where lk: "lks = lk @ [k]" using l(2) Inner by (cases lks rule: rev_cases) auto
  have len: "length lcs = Suc (Suc (length lk))"
    using l(1) Inner lk wfcs_length [of mx mn "h - 1" L "Some s" lks lcs] by simp
  then obtain lc x where lc: "lcs = lc @ [x]" "length lc = Suc (length lk)"
    by (cases lcs rule: rev_cases) auto
  have "wfcs mx mn (h - 1) L (Some k) lk lc" "wfn mx mn mn (h - 1) (Some k) (Some s) x"
    using l(1) Inner lk lc(1) wfcs_cut [OF lc(2), of mx mn "h - 1" L "Some s" k "[]" "[x]"] by simp_all
  moreover have "gtb L k" "k < s" using inner_keys_gtb [of mx mn mn h L "Some s" lks lcs k] l(1) Inner lk b(1) by auto
  moreover have "gtb (Some s) y" if "y \<in> set cks" for y
    using inner_keys_gtb [of mx mn "mn - 1" h "Some s" U cks ccs y] c c' b(1) that by simp
  ultimately have "pair_ok mx mn h L U (Inner lk lc) k (Inner (s # cks) (x # ccs))"
    using l c b Inner c' lk h
    by (auto simp: pair_ok_def sorted_wrt_append less_imp_le intro: ltb_trans [of U s k])
      (meson less_trans less_imp_le)
  moreover have "borrowFromLeft (K1 @ s # K2) (C1 @ l # c # C2) (Suc (length K1))
      = Some (K1 @ k # K2, C1 @ Inner lk lc # Inner (s # cks) (x # ccs) # C2)"
    if "length C1 = length K1" for K1 K2 and C1 C2 :: "node list"
    using that Inner c' lk lc by (simp add: borrowFromLeft_def nth_append list_update_append idx_def flip: that)
  ultimately show ?thesis
    using Inner c' lk lc by (intro exI conjI allI impI) auto
qed

lemma borrowFromRight_pair:
  assumes c: "wfn mx mn (mn - 1) h L (Some s) c" "length (keys c) = mn - 1"
    and r: "wfn mx mn mn h (Some s) U r" "mn < length (keys r)"
    and b: "1 \<le> mn" "mn \<le> mx" "geb L s"
  shows "\<exists>c' s' r'. pair_ok mx mn h L U c' s' r'
    \<and> entries c' @ entries r' = entries c @ entries r \<and> links c' @ links r' = links c @ links r
    \<and> (\<forall>K1 K2 C1 C2. length C1 = length K1 \<longrightarrow>
        borrowFromRight (K1 @ s # K2) (C1 @ c # r # C2) (length K1)
          = Some (K1 @ s' # K2, C1 @ c' # r' # C2))"
proof (cases c)
  case (Leaf a cks crs nx)
  then have h: "h = 0" using c by simp
  then obtain ra rks rrs rnx where r': "r = Leaf ra rks rrs rnx" using r by (cases r) auto
  obtain k rk where rk: "rks = k # rk" using r(2) r' by (cases rks) auto
  then have "rk \<noteq> []" using r(2) b(1) r' by auto
  then obtain k' rk' where k': "rk = k' # rk'" by (cases rk) auto
  obtain v rr where rr: "rrs = v # rr" "length rr = length rk"
    using r(1) r' rk by (cases rrs) auto
  have "pair_ok mx mn h L U (Leaf a (cks @ [k]) (crs @ [v]) nx) k' (Leaf ra rk rr rnx)"
    using c r b Leaf r' rk rr h k'
    by (auto simp: pair_ok_def sorted_wrt_append dest: less_le_trans
        intro: geb_less_gtb [of L k k'] geb_trans [of L s k])
  moreover have "borrowFromRight (K1 @ s # K2) (C1 @ c # r # C2) (length K1)
      = Some (K1 @ k' # K2, C1 @ Leaf a (cks @ [k]) (crs @ [v]) nx # Leaf ra rk rr rnx # C2)"
    if "length C1 = length K1" for K1 K2 and C1 C2 :: "node list"
    using that Leaf r' rk rr k' by (simp add: borrowFromRight_def nth_append list_update_append idx_def slice_from_def flip: that)
  ultimately show ?thesis
    using Leaf r' rk rr c(1) by (intro exI conjI allI impI) auto
next
  case (Inner cks ccs)
  then have h: "h \<noteq> 0" using c by simp
  then obtain rks rcs where r': "r = Inner rks rcs" using r by (cases r) auto
  obtain k rk where rk: "rks = k # rk" using r(2) r' by (cases rks) auto
  obtain x rc where rc: "rcs = x # rc" using r r' by (cases rcs) auto
  have w: "wfcs mx mn (h - 1) (Some k) U rk rc" "wfn mx mn mn (h - 1) (Some s) (Some k) x"
    using r(1) r' rk rc by simp_all
  have len: "length ccs = Suc (length cks)"
    using c(1) Inner wfcs_length [of mx mn "h - 1" L "Some s" cks ccs] by simp
  have "wfcs mx mn (h - 1) L (Some k) (cks @ [s]) (ccs @ [x])"
    using c(1) Inner w wfcs_cut [OF len, of mx mn "h - 1" L "Some k" s "[]" "[x]"] by simp
  moreover have "s < k" using inner_keys_gtb [of mx mn mn h "Some s" U rks rcs k] r(1) r' rk b(1) by simp
  ultimately have "pair_ok mx mn h L U (Inner (cks @ [s]) (ccs @ [x])) k (Inner rk rc)"
    using c r b Inner r' rk h w
    by (auto simp: pair_ok_def sorted_wrt_append less_imp_le intro: geb_less_gtb [of L s k])
  moreover have "borrowFromRight (K1 @ s # K2) (C1 @ c # r # C2) (length K1)
      = Some (K1 @ k # K2, C1 @ Inner (cks @ [s]) (ccs @ [x]) # Inner rk rc # C2)"
    if "length C1 = length K1" for K1 K2 and C1 C2 :: "node list"
    using that Inner r' rk rc by (simp add: borrowFromRight_def nth_append list_update_append idx_def slice_from_def flip: that)
  ultimately show ?thesis
    using Inner r' rk rc by (intro exI conjI allI impI) auto
qed

text \<open>A merge takes a leaf out of the chain.\<close>

definition chain_shrinks :: "(addr \<times> addr option) list \<Rightarrow> (addr \<times> addr option) list \<Rightarrow> bool" where
  "chain_shrinks ls ls' \<longleftrightarrow>
     ls' = ls \<or> (\<exists>A a na b nb B. ls = A @ (a, na) # (b, nb) # B \<and> ls' = A @ (a, nb) # B)"

lemma chain_shrinks_refl: "chain_shrinks ls ls"
  by (simp add: chain_shrinks_def)

lemma chain_shrinks_mid: "chain_shrinks ls ls' \<Longrightarrow> chain_shrinks (A @ ls @ B) (A @ ls' @ B)"
proof -
  assume "chain_shrinks ls ls'"
  then consider "ls' = ls"
    | A0 a na b nb B0 where "ls = A0 @ (a, na) # (b, nb) # B0" "ls' = A0 @ (a, nb) # B0"
    unfolding chain_shrinks_def by blast
  then show ?thesis
  proof cases
    case 2
    then have "A @ ls @ B = (A @ A0) @ (a, na) # (b, nb) # (B0 @ B)"
      "A @ ls' @ B = (A @ A0) @ (a, nb) # (B0 @ B)" by simp_all
    then show ?thesis unfolding chain_shrinks_def by blast
  qed (simp add: chain_shrinks_def)
qed

lemma chain_shrinks_ok:
  assumes "chain_shrinks ls ls'" "chain_ok ls f"
  shows "chain_ok ls' f"
proof -
  from assms(1) consider "ls' = ls"
    | A a na b nb B where "ls = A @ (a, na) # (b, nb) # B" "ls' = A @ (a, nb) # B"
    unfolding chain_shrinks_def by blast
  then show ?thesis
  proof cases
    case 2
    then show ?thesis
      using assms(2) by (auto simp: chain_ok_def linked_append)
  qed (use assms(2) in simp)
qed

lemma merge_pair:
  assumes l: "wfn mx mn (mn - 1) h L (Some s) l" and r: "wfn mx mn (mn - 1) h (Some s) U r"
    and len: "length (keys l) + length (keys r) < 2 * mn"
    and b: "1 \<le> mn" "2 * mn \<le> mx" "geb L s" "ltb U s" and full: "mn \<le> length (keys l) + length (keys r)"
  shows "\<exists>m. wfn mx mn mn h L U m \<and> entries m = entries l @ entries r
    \<and> chain_shrinks (links l @ links r) (links m)
    \<and> (\<forall>K1 K2 C1 C2. length C1 = length K1 \<longrightarrow>
        merge (K1 @ s # K2) (C1 @ l # r # C2) (length K1) = Some (K1 @ K2, C1 @ m # C2))"
proof (cases l)
  case (Leaf a lks lrs nx)
  then have h: "h = 0" using l by simp
  then obtain ra rks rrs rnx where r': "r = Leaf ra rks rrs rnx" using r by (cases r) auto
  have "wfn mx mn mn h L U (Leaf a (lks @ rks) (lrs @ rrs) rnx)"
    using l r Leaf r' h b len full
    by (auto simp: sorted_wrt_append dest: less_le_trans intro: geb_trans [of L s]
        ltb_trans [of U s] less_imp_le)
  moreover have "chain_shrinks (links l @ links r) (links (Leaf a (lks @ rks) (lrs @ rrs) rnx))"
    unfolding chain_shrinks_def using Leaf r' by force
  moreover have "merge (K1 @ s # K2) (C1 @ l # r # C2) (length K1)
      = Some (K1 @ K2, C1 @ Leaf a (lks @ rks) (lrs @ rrs) rnx # C2)"
    if "length C1 = length K1" for K1 K2 and C1 C2 :: "node list"
    using that Leaf r'
    by (simp add: merge_def nth_append list_update_append idx_def flip: that) 
  ultimately show ?thesis
    using Leaf r' l by (intro exI conjI allI impI) auto
next
  case (Inner lks lcs)
  then have h: "h \<noteq> 0" using l by simp
  then obtain rks rcs where r': "r = Inner rks rcs" using r by (cases r) auto
  have lc: "length lcs = Suc (length lks)"
    using l Inner wfcs_length [of mx mn "h - 1" L "Some s" lks lcs] by simp
  have "wfcs mx mn (h - 1) L U (lks @ s # rks) (lcs @ rcs)"
    using l r Inner r' wfcs_cut [OF lc, of mx mn "h - 1" L U s rks rcs] by simp
  moreover have "gtb (Some s) y" if "y \<in> set rks" for y
    using inner_keys_gtb [of mx mn "mn - 1" h "Some s" U rks rcs y] r r' b(1) that by simp
  ultimately have "wfn mx mn mn h L U (Inner (lks @ s # rks) (lcs @ rcs))"
    using l r Inner r' h b len full
    by (auto simp: sorted_wrt_append intro: geb_trans [of L s] ltb_trans [of U s] less_imp_le)
      (meson less_trans ltb_trans less_imp_le)+
  moreover have "merge (K1 @ s # K2) (C1 @ l # r # C2) (length K1)
      = Some (K1 @ K2, C1 @ Inner (lks @ s # rks) (lcs @ rcs) # C2)"
    if "length C1 = length K1" for K1 K2 and C1 C2 :: "node list"
    using that Inner r'
    by (simp add: merge_def nth_append list_update_append idx_def flip: that) 
  ultimately show ?thesis
    using Inner r' by (intro exI conjI allI impI) (auto simp: chain_shrinks_refl)
qed

section \<open>Repairing a child in its parent\<close>

lemma sorted_replace:
  "sorted_wrt (<) (K1 @ s # K2) \<Longrightarrow> gtb (lastb lo K1) s' \<Longrightarrow> ltb (headb hi K2) s' \<Longrightarrow>
   sorted_wrt (<) (K1 @ s' # K2)"
  by (rule sorted_sep) (auto simp: sorted_wrt_append)

lemma concat_pair:
  assumes "f l' @ f r' = f l @ f r"
  shows "concat (map f (A @ l' # r' # B)) = concat (map f (A @ l # r # B))"
proof -
  have "concat (map f (A @ l' # r' # B)) = concat (map f A) @ (f l' @ f r') @ concat (map f B)" by simp
  also have "\<dots> = concat (map f (A @ l # r # B))" unfolding assms by simp
  finally show ?thesis .
qed

lemma inner_replace_pair:
  assumes "h \<noteq> 0" "length C1 = length K1" "sorted_wrt (<) (K1 @ s # K2)"
    "\<forall>k \<in> set (K1 @ s # K2). geb lo k \<and> ltb hi k" "own \<le> length (K1 @ s # K2)"
    "length (K1 @ s # K2) \<le> mx" "wfl mx mn (h - 1) lo K1 C1" "wfr mx mn (h - 1) hi K2 C2"
    and p: "pair_ok mx mn (h - 1) (lastb lo K1) (headb hi K2) l' s' r'"
  shows "wfn mx mn own h lo hi (Inner (K1 @ s' # K2) (C1 @ l' # r' # C2))"
proof -
  have "wfcs mx mn (h - 1) (Some s') hi K2 (r' # C2)"
    using p assms(8) by (simp only: pair_ok_def wfcs_at)
  then have "wfcs mx mn (h - 1) lo hi (K1 @ s' # K2) (C1 @ l' # r' # C2)"
    using assms(2,7) p unfolding wfcs_append [OF assms(2) [symmetric]] by (simp add: pair_ok_def)
  moreover have "gtb lo s'" "ltb hi s'"
    using gtb_lastb [of K1 lo s'] ltb_headb [of K2 hi s'] assms(3,4) p
    by (auto simp: pair_ok_def sorted_wrt_append)
  moreover have "sorted_wrt (<) (K1 @ s' # K2)"
    using sorted_replace [OF assms(3), of lo s' hi] p by (simp add: pair_ok_def)
  ultimately show ?thesis using assms(1,4-6) by (auto intro: gtb_geb)
qed

lemma inner_replace_merged:
  assumes "h \<noteq> 0" "length C1 = length K1" "sorted_wrt (<) (K1 @ s # K2)"
    "\<forall>k \<in> set (K1 @ s # K2). geb lo k \<and> ltb hi k" "own \<le> length (K1 @ s # K2)"
    "length (K1 @ s # K2) \<le> mx" "wfl mx mn (h - 1) lo K1 C1" "wfr mx mn (h - 1) hi K2 C2"
    "wfn mx mn mn (h - 1) (lastb lo K1) (headb hi K2) m"
  shows "wfn mx mn (own - 1) h lo hi (Inner (K1 @ K2) (C1 @ m # C2))"
  using assms by (auto simp: wfcs_mid sorted_wrt_append)

definition repaired :: "nat \<Rightarrow> nat \<Rightarrow> nat \<Rightarrow> nat \<Rightarrow> key option \<Rightarrow> key option \<Rightarrow> Tree \<Rightarrow> node list
    \<Rightarrow> Tree \<times> key list \<times> node list \<Rightarrow> bool" where
  "repaired mx mn own h lo hi t cs res \<longleftrightarrow>
     (case res of (t', ks', cs') \<Rightarrow>
        t' = t\<lparr>stats := stats t'\<rparr> \<and> wfn mx mn (own - 1) h lo hi (Inner ks' cs')
        \<and> concat (map entries cs') = concat (map entries cs)
        \<and> chain_shrinks (concat (map links cs)) (concat (map links cs')))"

lemma repaired_same:
  "wfn mx mn (own - 1) h lo hi (Inner ks' cs') \<Longrightarrow>
   concat (map entries cs') = concat (map entries cs) \<Longrightarrow>
   concat (map links cs') = concat (map links cs) \<Longrightarrow>
   repaired mx mn own h lo hi t cs (t\<lparr>stats := x\<rparr>, ks', cs')"
  unfolding repaired_def by (simp add: chain_shrinks_refl del: wfn.simps)

text \<open>The three outcomes of a repair, each on the pair of siblings it works on.\<close>

lemma repair_step:
  assumes base: "h \<noteq> 0" "length C1 = length K1" "sorted_wrt (<) (K1 @ s # K2)"
    "\<forall>k \<in> set (K1 @ s # K2). geb lo k \<and> ltb hi k" "own \<le> length (K1 @ s # K2)"
    "length (K1 @ s # K2) \<le> mx" "wfl mx mn (h - 1) lo K1 C1" "wfr mx mn (h - 1) hi K2 C2"
    and mn: "1 \<le> mn" "2 * mn \<le> mx" "minKeys t = mn"
  shows
    "\<lbrakk>wfn mx mn mn (h - 1) (lastb lo K1) (Some s) l; mn < length (keys l);
      wfn mx mn (mn - 1) (h - 1) (Some s) (headb hi K2) c; length (keys c) = mn - 1\<rbrakk> \<Longrightarrow>
     \<exists>ks cs. borrowFromLeft (K1 @ s # K2) (C1 @ l # c # C2) (Suc (length K1)) = Some (ks, cs)
       \<and> repaired mx mn own h lo hi t (C1 @ l # c # C2) (t\<lparr>stats := x\<rparr>, ks, cs)"
    "\<lbrakk>wfn mx mn (mn - 1) (h - 1) (lastb lo K1) (Some s) c; length (keys c) = mn - 1;
      wfn mx mn mn (h - 1) (Some s) (headb hi K2) r; mn < length (keys r)\<rbrakk> \<Longrightarrow>
     \<exists>ks cs. borrowFromRight (K1 @ s # K2) (C1 @ c # r # C2) (length K1) = Some (ks, cs)
       \<and> repaired mx mn own h lo hi t (C1 @ c # r # C2) (t\<lparr>stats := x\<rparr>, ks, cs)"
    "\<lbrakk>wfn mx mn (mn - 1) (h - 1) (lastb lo K1) (Some s) l;
      wfn mx mn (mn - 1) (h - 1) (Some s) (headb hi K2) r;
      length (keys l) + length (keys r) < 2 * mn; mn \<le> length (keys l) + length (keys r)\<rbrakk> \<Longrightarrow>
     \<exists>ks cs. merge (K1 @ s # K2) (C1 @ l # r # C2) (length K1) = Some (ks, cs)
       \<and> repaired mx mn own h lo hi t (C1 @ l # r # C2) (t\<lparr>stats := x\<rparr>, ks, cs)"
proof -
  have "geb lo s" "ltb hi s" using base(4) by auto
  moreover have "k < s" if "k \<in> set K1" for k using base(3) that by (simp add: sorted_wrt_append)
  ultimately have s: "geb (lastb lo K1) s" "ltb (headb hi K2) s"
    using base(3) by (auto simp: lastb_conv less_imp_le) (cases K2; auto simp: sorted_wrt_append)
  have mx: "mn \<le> mx" using mn by simp
  show "\<exists>ks cs. borrowFromLeft (K1 @ s # K2) (C1 @ l # c # C2) (Suc (length K1)) = Some (ks, cs)
       \<and> repaired mx mn own h lo hi t (C1 @ l # c # C2) (t\<lparr>stats := x\<rparr>, ks, cs)"
    if "wfn mx mn mn (h - 1) (lastb lo K1) (Some s) l" "mn < length (keys l)"
      "wfn mx mn (mn - 1) (h - 1) (Some s) (headb hi K2) c" "length (keys c) = mn - 1"
  proof -
    from borrowFromLeft_pair [OF that mn(1) mx s(2)] base(2) obtain l' s' c' where
      p: "pair_ok mx mn (h - 1) (lastb lo K1) (headb hi K2) l' s' c'"
        "entries l' @ entries c' = entries l @ entries c" "links l' @ links c' = links l @ links c"
        "borrowFromLeft (K1 @ s # K2) (C1 @ l # c # C2) (Suc (length K1))
          = Some (K1 @ s' # K2, C1 @ l' # c' # C2)" by meson
    have "wfn mx mn (own - 1) h lo hi (Inner (K1 @ s' # K2) (C1 @ l' # c' # C2))"
      by (rule inner_replace_pair [OF base(1-4) _ base(6-8) p(1)]) (use base(5) in simp)
    moreover have "concat (map entries (C1 @ l' # c' # C2)) = concat (map entries (C1 @ l # c # C2))"
      "concat (map links (C1 @ l' # c' # C2)) = concat (map links (C1 @ l # c # C2))"
      using concat_pair [of entries, OF p(2)] concat_pair [of links, OF p(3)] by blast+
    ultimately show ?thesis
      using p(4) repaired_same by blast
  qed
  show "\<exists>ks cs. borrowFromRight (K1 @ s # K2) (C1 @ c # r # C2) (length K1) = Some (ks, cs)
       \<and> repaired mx mn own h lo hi t (C1 @ c # r # C2) (t\<lparr>stats := x\<rparr>, ks, cs)"
    if "wfn mx mn (mn - 1) (h - 1) (lastb lo K1) (Some s) c" "length (keys c) = mn - 1"
      "wfn mx mn mn (h - 1) (Some s) (headb hi K2) r" "mn < length (keys r)"
  proof -
    from borrowFromRight_pair [OF that mn(1) mx s(1)] base(2) obtain c' s' r' where
      p: "pair_ok mx mn (h - 1) (lastb lo K1) (headb hi K2) c' s' r'"
        "entries c' @ entries r' = entries c @ entries r" "links c' @ links r' = links c @ links r"
        "borrowFromRight (K1 @ s # K2) (C1 @ c # r # C2) (length K1)
          = Some (K1 @ s' # K2, C1 @ c' # r' # C2)" by meson
    have "wfn mx mn (own - 1) h lo hi (Inner (K1 @ s' # K2) (C1 @ c' # r' # C2))"
      by (rule inner_replace_pair [OF base(1-4) _ base(6-8) p(1)]) (use base(5) in simp)
    moreover have "concat (map entries (C1 @ c' # r' # C2)) = concat (map entries (C1 @ c # r # C2))"
      "concat (map links (C1 @ c' # r' # C2)) = concat (map links (C1 @ c # r # C2))"
      using concat_pair [of entries, OF p(2)] concat_pair [of links, OF p(3)] by blast+
    ultimately show ?thesis
      using p(4) repaired_same by blast
  qed
  show "\<exists>ks cs. merge (K1 @ s # K2) (C1 @ l # r # C2) (length K1) = Some (ks, cs)
       \<and> repaired mx mn own h lo hi t (C1 @ l # r # C2) (t\<lparr>stats := x\<rparr>, ks, cs)"
    if "wfn mx mn (mn - 1) (h - 1) (lastb lo K1) (Some s) l"
      "wfn mx mn (mn - 1) (h - 1) (Some s) (headb hi K2) r"
      "length (keys l) + length (keys r) < 2 * mn" "mn \<le> length (keys l) + length (keys r)"
  proof -
    from merge_pair [OF that(1-3) mn(1,2) s that(4)] base(2) obtain m where
      p: "wfn mx mn mn (h - 1) (lastb lo K1) (headb hi K2) m" "entries m = entries l @ entries r"
        "chain_shrinks (links l @ links r) (links m)"
        "merge (K1 @ s # K2) (C1 @ l # r # C2) (length K1) = Some (K1 @ K2, C1 @ m # C2)" by meson
    have "wfn mx mn (own - 1) h lo hi (Inner (K1 @ K2) (C1 @ m # C2))"
      by (rule inner_replace_merged [OF base p(1)])
    moreover have "chain_shrinks (concat (map links (C1 @ l # r # C2))) (concat (map links (C1 @ m # C2)))"
      using chain_shrinks_mid [OF p(3), of "concat (map links C1)" "concat (map links C2)"] by simp
    ultimately show ?thesis
      using p(2,4) by (simp add: repaired_def)
  qed
qed

lemma wfl_snoc: "length K = length C \<Longrightarrow>
  wfl mx mn h lo (K @ [s]) (C @ [l]) \<longleftrightarrow> wfl mx mn h lo K C \<and> wfn mx mn mn h (lastb lo K) (Some s) l"
  by (induction K C arbitrary: lo rule: list_induct2) auto

lemma wfn_weaken: "wfn mx mn own h lo hi n \<Longrightarrow> own' \<le> own \<Longrightarrow> wfn mx mn own' h lo hi n"
  by (cases n) auto

text \<open>A parent, cut at a child that a deletion left one key short.\<close>

definition underfull :: "nat \<Rightarrow> nat \<Rightarrow> nat \<Rightarrow> nat \<Rightarrow> key option \<Rightarrow> key option
    \<Rightarrow> key list \<Rightarrow> key list \<Rightarrow> node list \<Rightarrow> node \<Rightarrow> node list \<Rightarrow> bool" where
  "underfull mx mn own h lo hi k1 k2 c1 c c2 \<longleftrightarrow>
     h \<noteq> 0 \<and> length c1 = length k1 \<and> sorted_wrt (<) (k1 @ k2)
     \<and> (\<forall>k \<in> set (k1 @ k2). geb lo k \<and> ltb hi k)
     \<and> own \<le> length (k1 @ k2) \<and> length (k1 @ k2) \<le> mx
     \<and> wfl mx mn (h - 1) lo k1 c1 \<and> wfr mx mn (h - 1) hi k2 c2
     \<and> wfn mx mn (mn - 1) (h - 1) (lastb lo k1) (headb hi k2) c \<and> length (keys c) = mn - 1"

abbreviation left_can_lend :: "nat \<Rightarrow> node list \<Rightarrow> nat \<Rightarrow> bool" where
  "left_can_lend mn cs i \<equiv> i > 0 \<and> length (keys (cs ! (i - 1))) > mn"

abbreviation right_can_lend :: "nat \<Rightarrow> node list \<Rightarrow> nat \<Rightarrow> bool" where
  "right_can_lend mn cs i \<equiv> i < length cs - 1 \<and> length (keys (cs ! (i + 1))) > mn"

definition repairs :: "nat \<Rightarrow> nat \<Rightarrow> nat \<Rightarrow> nat \<Rightarrow> key option \<Rightarrow> key option \<Rightarrow> Tree
    \<Rightarrow> key list \<Rightarrow> key list \<Rightarrow> node list \<Rightarrow> node \<Rightarrow> node list \<Rightarrow> bool" where
  "repairs mx mn own h lo hi t k1 k2 c1 c c2 \<longleftrightarrow>
     (\<exists>res. repair t (k1 @ k2) (c1 @ c # c2) (length k1) = Some res
        \<and> repaired mx mn own h lo hi t (c1 @ c # c2) res)"

lemma underfull_right:
  assumes "underfull mx mn own h lo hi k1 k2 c1 c c2" "k2 \<noteq> []"
  obtains s K2 r C2 where "k2 = s # K2" "c2 = r # C2"
    "wfn mx mn mn (h - 1) (Some s) (headb hi K2) r" "wfr mx mn (h - 1) hi K2 C2"
proof -
  obtain s K2 where "k2 = s # K2" using assms(2) by (cases k2) auto
  moreover from this obtain r C2 where "c2 = r # C2"
    using assms(1) by (cases c2) (auto simp: underfull_def)
  ultimately show ?thesis
    using that assms(1) by (auto simp only: underfull_def wfr.simps wfcs_at)
qed

lemma repair_right:
  assumes u: "underfull mx mn own h lo hi k1 (s # K2) c1 c (r # C2)"
    and mn: "1 \<le> mn" "2 * mn \<le> mx" "minKeys t = mn"
    and R: "wfn mx mn mn (h - 1) (Some s) (headb hi K2) r" "wfr mx mn (h - 1) hi K2 C2"
    and big: "mn < length (keys r)" and noleft: "\<not> left_can_lend mn (c1 @ c # r # C2) (length k1)"
  shows "repairs mx mn own h lo hi t k1 (s # K2) c1 c (r # C2)"
proof -
  let ?x = "(stats t)\<lparr>BorrowsRight := BorrowsRight (stats t) + 1\<rparr>"
  have len: "length c1 = length k1" using u by (simp add: underfull_def)
  obtain ks cs where b: "borrowFromRight (k1 @ s # K2) (c1 @ c # r # C2) (length k1) = Some (ks, cs)"
    and rp: "repaired mx mn own h lo hi t (c1 @ c # r # C2) (t\<lparr>stats := ?x\<rparr>, ks, cs)"
    using repair_step(2) [of h c1 k1 s K2 lo hi own mx mn C2 t c r] u mn R big
    unfolding underfull_def headb.simps by blast
  have "length k1 < length (c1 @ c # r # C2) - 1" "(c1 @ c # r # C2) ! (length k1 + 1) = r"
    by (simp_all add: nth_append flip: len)
  then have "repair t (k1 @ s # K2) (c1 @ c # r # C2) (length k1) = Some (t\<lparr>stats := ?x\<rparr>, ks, cs)"
    unfolding repair_def mn(3) if_not_P [OF noleft] using b big by simp
  then show ?thesis using rp unfolding repairs_def by blast
qed

text \<open>The first child has a right sibling only.\<close>

lemma repair_first:
  assumes u: "underfull mx mn own h lo hi [] k2 c1 c c2" and k2: "k2 \<noteq> []"
    and mn: "1 \<le> mn" "2 * mn \<le> mx" "minKeys t = mn"
  shows "repairs mx mn own h lo hi t [] k2 c1 c c2"
proof -
  obtain s K2 r C2 where e: "k2 = s # K2" "c2 = r # C2"
    and R: "wfn mx mn mn (h - 1) (Some s) (headb hi K2) r" "wfr mx mn (h - 1) hi K2 C2"
    using underfull_right [OF u k2] .
  show ?thesis
  proof (cases "mn < length (keys r)")
    case True
    then show ?thesis using repair_right [OF u [unfolded e] mn R] e by simp
  next
    case False
    let ?x = "(stats t)\<lparr>Merges := Merges (stats t) + 1\<rparr>"
    have "mn \<le> length (keys r)" using R(1) wfn_own by blast
    then have "mn \<le> length (keys c) + length (keys r)" "length (keys c) + length (keys r) < 2 * mn"
      using u False mn(1) by (auto simp: underfull_def)
    then obtain ks cs where b: "merge (s # K2) (c1 @ c # r # C2) 0 = Some (ks, cs)"
      and rp: "repaired mx mn own h lo hi t (c1 @ c # r # C2) (t\<lparr>stats := ?x\<rparr>, ks, cs)"
      using repair_step(3) [of h c1 "[]" s K2 lo hi own mx mn C2 t c r] u mn R
        wfn_weaken [OF R(1) diff_le_self]
      unfolding underfull_def headb.simps e append_Nil list.size by blast
    have "c1 = []" using u by (simp add: underfull_def)
    then have "repair t (s # K2) (c1 @ c # r # C2) 0 = Some (t\<lparr>stats := ?x\<rparr>, ks, cs)"
      using False b by (simp add: repair_def mn(3))
    then show ?thesis using rp unfolding repairs_def e by auto
  qed
qed

text \<open>Every other child has a left sibling, and perhaps a right one.\<close>

lemma repair_later:
  assumes u: "underfull mx mn own h lo hi (K1 @ [s]) k2 (C1 @ [l]) c c2"
    and mn: "1 \<le> mn" "2 * mn \<le> mx" "minKeys t = mn"
  shows "repairs mx mn own h lo hi t (K1 @ [s]) k2 (C1 @ [l]) c c2"
proof -
  have len: "length C1 = length K1" using u by (simp add: underfull_def)
  have L: "wfl mx mn (h - 1) lo K1 C1" "wfn mx mn mn (h - 1) (lastb lo K1) (Some s) l"
    and r: "wfr mx mn (h - 1) hi k2 c2"
    and c: "wfn mx mn (mn - 1) (h - 1) (Some s) (headb hi k2) c" "length (keys c) = mn - 1"
    using u wfl_snoc [of K1 C1] len by (simp_all add: underfull_def)
  have base: "h \<noteq> 0" "sorted_wrt (<) (K1 @ s # k2)" "\<forall>k \<in> set (K1 @ s # k2). geb lo k \<and> ltb hi k"
    "own \<le> length (K1 @ s # k2)" "length (K1 @ s # k2) \<le> mx"
    using u by (simp_all add: underfull_def)
  note step = repair_step [OF base(1) len base(2-5) L(1) r mn]
  let ?cs = "C1 @ l # c # c2" and ?i = "Suc (length K1)"
  have goal: "repairs mx mn own h lo hi t (K1 @ [s]) k2 (C1 @ [l]) c c2 \<longleftrightarrow>
      (\<exists>res. repair t (K1 @ s # k2) ?cs ?i = Some res \<and> repaired mx mn own h lo hi t ?cs res)"
    by (simp add: repairs_def)
  have nth: "?cs ! length K1 = l" by (simp add: nth_append flip: len)
  show ?thesis
  proof (cases "mn < length (keys l)")
    case True
    let ?x = "(stats t)\<lparr>BorrowsLeft := BorrowsLeft (stats t) + 1\<rparr>"
    obtain ks cs where b: "borrowFromLeft (K1 @ s # k2) ?cs ?i = Some (ks, cs)"
      and rp: "repaired mx mn own h lo hi t ?cs (t\<lparr>stats := ?x\<rparr>, ks, cs)"
      using step(1) [OF L(2) True c] by blast
    have "repair t (K1 @ s # k2) ?cs ?i = Some (t\<lparr>stats := ?x\<rparr>, ks, cs)"
      using b True nth by (simp add: repair_def mn(3))
    then show ?thesis using rp unfolding goal by blast
  next
    case False
    show ?thesis
    proof (cases "\<exists>s2 K2 r C2. k2 = s2 # K2 \<and> c2 = r # C2 \<and> mn < length (keys r)")
      case True
      then obtain s2 K2 r' C2 where e: "k2 = s2 # K2" "c2 = r' # C2" "mn < length (keys r')" by blast
      have no: "\<not> left_can_lend mn ((C1 @ [l]) @ c # r' # C2) (length (K1 @ [s]))"
        using False nth e by simp
      have w: "wfn mx mn mn (h - 1) (Some s2) (headb hi K2) r'" "wfr mx mn (h - 1) hi K2 C2"
        using r e by (simp_all only: wfr.simps wfcs_at)
      show ?thesis
        unfolding e(1,2) by (rule repair_right [OF u [unfolded e(1,2)] mn w e(3) no])
    next
      case no: False
      let ?x = "(stats t)\<lparr>Merges := Merges (stats t) + 1\<rparr>"
      have "mn \<le> length (keys l)" using L(2) wfn_own by blast
      then have "mn \<le> length (keys l) + length (keys c)" "length (keys l) + length (keys c) < 2 * mn"
        using c(2) False mn(1) by auto
      then obtain ks cs where b: "merge (K1 @ s # k2) ?cs (length K1) = Some (ks, cs)"
        and rp: "repaired mx mn own h lo hi t ?cs (t\<lparr>stats := ?x\<rparr>, ks, cs)"
        using step(3) [OF wfn_weaken [OF L(2) diff_le_self] c(1)] by blast
      have "\<not> right_can_lend mn ?cs ?i"
      proof (cases "k2 = []")
        case True
        then show ?thesis using u len by (auto simp: underfull_def)
      next
        case False
        obtain s2 K2 r' C2 where e: "k2 = s2 # K2" "c2 = r' # C2"
          by (rule underfull_right [OF u False])
        have "?cs ! (?i + 1) = r'" using e(2) by (simp add: nth_append flip: len)
        moreover have "\<not> mn < length (keys r')" using no e by blast
        ultimately show ?thesis by simp
      qed
      then have "repair t (K1 @ s # k2) ?cs ?i = Some (t\<lparr>stats := ?x\<rparr>, ks, cs)"
        using b False nth by (auto simp: repair_def mn(3))
      then show ?thesis using rp unfolding goal by blast
    qed
  qed
qed

lemma repair_correct:
  assumes u: "underfull mx mn own h lo hi k1 k2 c1 c c2" and "k1 @ k2 \<noteq> []"
    and mn: "1 \<le> mn" "2 * mn \<le> mx" "minKeys t = mn"
  shows "repairs mx mn own h lo hi t k1 k2 c1 c c2"
proof (cases k1 rule: rev_cases)
  case Nil
  then show ?thesis using repair_first assms by simp
next
  case (snoc K1 s)
  then obtain C1 l where "c1 = C1 @ [l]"
    using u by (cases c1 rule: rev_cases) (auto simp: underfull_def)
  then show ?thesis using repair_later u snoc mn by simp
qed

section \<open>\<open>delete\<close>\<close>

abbreviation shrinks :: "(addr \<times> addr option) list \<Rightarrow> (addr \<times> addr option) list \<Rightarrow> bool" where
  "shrinks \<equiv> chain_shrinks\<^sup>*\<^sup>*"

lemma shrinks_mid: "shrinks ls ls' \<Longrightarrow> shrinks (A @ ls @ B) (A @ ls' @ B)"
  by (induction rule: rtranclp_induct) (auto intro: rtranclp.rtrancl_into_rtrancl chain_shrinks_mid)

lemma shrinks_ok: "shrinks ls ls' \<Longrightarrow> chain_ok ls f \<Longrightarrow> chain_ok ls' f"
  by (induction rule: rtranclp_induct) (auto intro: chain_shrinks_ok)

lemma only_stats:
  assumes "(t' :: Tree) = t\<lparr>stats := stats t'\<rparr>" "t'' = t'\<lparr>stats := stats t''\<rparr>"
  shows "t'' = t\<lparr>stats := stats t''\<rparr>"
proof -
  have "t'\<lparr>stats := stats t''\<rparr> = t\<lparr>stats := stats t''\<rparr>" by (subst assms(1)) simp
  then show ?thesis using assms(2) by simp
qed

definition deleted :: "nat \<Rightarrow> nat \<Rightarrow> nat \<Rightarrow> nat \<Rightarrow> key option \<Rightarrow> key option \<Rightarrow> Tree \<Rightarrow> node \<Rightarrow> key
    \<Rightarrow> Tree \<times> node \<times> bool \<Rightarrow> bool" where
  "deleted mx mn own h lo hi t n key res \<longleftrightarrow>
     (case res of (t', n', found) \<Rightarrow>
        t' = t\<lparr>stats := stats t'\<rparr>
        \<and> (found \<longleftrightarrow> key \<in> fst ` set (entries n))
        \<and> (\<not> found \<longrightarrow> n' = n \<and> t' = t)
        \<and> entries n' = del_al key (entries n)
        \<and> shrinks (links n) (links n')
        \<and> wfn mx mn (own - 1) h lo hi n')"

lemma delete_leaf:
  assumes wf: "wfn mx mn own h lo hi (Leaf a ks rs nx)"
  shows "\<exists>res. delete t (Leaf a ks rs nx) key = Some res
    \<and> deleted mx mn own h lo hi t (Leaf a ks rs nx) key res"
proof -
  from wf obtain k1 k2 r1 r2 where at: "ks = k1 @ k2" "rs = r1 @ r2"
    "length r1 = length k1" "length r2 = length k2" "leafIndex ks key = length k1"
    "\<forall>k \<in> set k1. k < key" "\<forall>k \<in> set k2. key \<le> k" "\<And>e. e \<in> set (zip k1 r1) \<Longrightarrow> fst e < key"
    by (rule leaf_at [where key = key]) blast
  have srt: "sorted_wrt (<) (k1 @ k2)" using wf at by auto
  note hit = leaf_hit [OF srt at(6,7)]
  have dom: "fst ` set (entries (Leaf a ks rs nx)) = set ks"
    using at by (simp flip: set_map zip_append)
  show ?thesis
  proof (cases "key \<in> set ks")
    case True
    then obtain k2' where k2: "k2 = key # k2'" "\<forall>k \<in> set k2'. key < k" using hit at by auto
    then obtain r r2' where r2: "r2 = r # r2'" using at by (cases r2) auto
    have "delete t (Leaf a ks rs nx) key = Some (t, Leaf a (k1 @ k2') (r1 @ r2') nx, True)"
      using at(1-5) k2 r2 by (simp add: Let_def)
    moreover have "del_al key (zip k1 r1 @ zip k2 r2) = zip k1 r1 @ zip k2' r2'"
    proof -
      have "key < fst e" if "e \<in> set (zip k2' r2')" for e
        using that k2(2) set_zip_leftD [of "fst e" "snd e" k2' r2'] by simp
      then show ?thesis
        using del_al_mid [of "zip k1 r1" key "zip k2' r2'" "[(key, r)]"] at(8) k2 r2
        by (simp add: del_al_def)
    qed
    moreover have "wfn mx mn (own - 1) h lo hi (Leaf a (k1 @ k2') (r1 @ r2') nx)"
      using wf at k2 r2 by (auto simp: sorted_wrt_append)
    ultimately show ?thesis
      using at(1-4) True dom k2(1) r2 by (simp add: deleted_def)
  next
    case False
    then have "leafIndex ks key \<ge> length ks \<or> ks ! leafIndex ks key \<noteq> key"
      using hit at(1,5) by (metis linorder_not_le)
    then have "delete t (Leaf a ks rs nx) key = Some (t, Leaf a ks rs nx, False)"
      by (simp add: Let_def)
    then show ?thesis
      using wf wfn_weaken [OF wf diff_le_self] False dom
        del_al_absent [of key "entries (Leaf a ks rs nx)"]
      by (simp add: deleted_def del: entries.simps)
  qed
qed

lemma delete_inner:
  assumes wf: "wfn mx mn own h lo hi (Inner ks cs)" and key: "geb lo key" "ltb hi key"
    and mn: "1 \<le> mn" "2 * mn \<le> mx" "minKeys t = mn" "1 \<le> own"
    and IH: "\<And>c l u. c \<in> set cs \<Longrightarrow> wfn mx mn mn (h - 1) l u c \<Longrightarrow> geb l key \<Longrightarrow> ltb u key \<Longrightarrow>
      \<exists>res. delete t c key = Some res \<and> deleted mx mn mn (h - 1) l u t c key res"
  shows "\<exists>res. delete t (Inner ks cs) key = Some res
    \<and> deleted mx mn own h lo hi t (Inner ks cs) key res"
proof -
  from wf key obtain k1 k2 c1 c c2 where at:
    "ks = k1 @ k2" "cs = c1 @ c # c2" "length c1 = length k1" "childIndex ks key = length k1"
    "wfl mx mn (h - 1) lo k1 c1" "wfn mx mn mn (h - 1) (lastb lo k1) (headb hi k2) c"
    "wfr mx mn (h - 1) hi k2 c2" "geb (lastb lo k1) key" "ltb (headb hi k2) key"
    and out: "\<And>e. e \<in> set (concat (map entries c1)) \<Longrightarrow> fst e < key"
    "\<And>e. e \<in> set (concat (map entries c2)) \<Longrightarrow> key < fst e"
    by (rule inner_at) blast
  obtain t' c' found where res: "delete t c key = Some (t', c', found)"
    and d: "deleted mx mn mn (h - 1) (lastb lo k1) (headb hi k2) t c key (t', c', found)"
    using IH [OF _ at(6,8,9)] at(2) by (metis in_set_conv_decomp prod_cases3)
  have t': "t' = t\<lparr>stats := stats t'\<rparr>" and fnd: "found \<longleftrightarrow> key \<in> fst ` set (entries c)"
    and miss: "\<not> found \<Longrightarrow> c' = c \<and> t' = t" and ent: "entries c' = del_al key (entries c)"
    and lnk: "shrinks (links c) (links c')"
    and wfc: "wfn mx mn (mn - 1) (h - 1) (lastb lo k1) (headb hi k2) c'"
    using d by (auto simp: deleted_def)
  let ?E1 = "concat (map entries c1)" and ?E2 = "concat (map entries c2)"
  have "key \<notin> fst ` set ?E1" "key \<notin> fst ` set ?E2" using out by (metis imageE less_irrefl)+
  then have dom: "key \<in> fst ` set (entries (Inner ks cs)) \<longleftrightarrow> key \<in> fst ` set (entries c)"
    using at(2) by (simp add: image_Un)
  have del: "del_al key (entries (Inner ks cs)) = concat (map entries (c1 @ c' # c2))"
    using del_al_mid [of ?E1 key ?E2 "entries c"] out at(2) ent by simp
  have lnks: "shrinks (links (Inner ks cs)) (concat (map links (c1 @ c' # c2)))"
    using shrinks_mid [OF lnk, of "concat (map links c1)" "concat (map links c2)"] at(2) by simp
  have mn': "minKeys t' = mn" using mn(3) arg_cong [OF t', of minKeys] by simp
  have eqn: "delete t (Inner ks cs) key =
      (if \<not> found then Some (t', Inner ks (c1 @ c' # c2), False)
       else if length (keys c') < mn then
         do { (t, ks, cs) \<leftarrow> repair t' ks (c1 @ c' # c2) (length k1); Some (t, Inner ks cs, True) }
       else Some (t', Inner ks (c1 @ c' # c2), True))"
    using res mn' unfolding delete.simps Let_def at(4) unfolding at(2)
    by (simp flip: at(3))
  show ?thesis
  proof (cases found)
    case False
    then show ?thesis
      using eqn miss dom fnd del lnks wfn_weaken [OF wf diff_le_self] at(2)
      by (simp add: deleted_def del: wfn.simps)
  next
    case True
    have u: "length (keys c') = mn - 1 \<Longrightarrow> underfull mx mn own h lo hi k1 k2 c1 c' c2"
      using at(1,3,5,7) wf wfc by (simp add: underfull_def)
    show ?thesis
    proof (cases "length (keys c') < mn")
      case short: True
      then have "length (keys c') = mn - 1" using wfc wfn_own [of mx mn "mn - 1"] by fastforce
      then have "repairs mx mn own h lo hi t' k1 k2 c1 c' c2"
        using repair_correct [OF u _ mn(1,2) mn'] wf mn(4) at(1) by fastforce
      then obtain t'' ks' cs' where r: "repair t' ks (c1 @ c' # c2) (length k1) = Some (t'', ks', cs')"
        and rp: "repaired mx mn own h lo hi t' (c1 @ c' # c2) (t'', ks', cs')"
        unfolding repairs_def at(1) by (metis prod_cases3)
      have "t'' = t\<lparr>stats := stats t''\<rparr>" using rp only_stats [OF t'] by (simp add: repaired_def)
      moreover have "shrinks (links (Inner ks cs)) (links (Inner ks' cs'))"
        using lnks rp unfolding repaired_def
        by (auto simp del: concat_append map_append wfn.simps intro: rtranclp.rtrancl_into_rtrancl)
      ultimately show ?thesis
        using eqn True short r rp dom fnd del
        by (simp add: deleted_def repaired_def del: wfn.simps)
    next
      case False
      then have "wfn mx mn mn (h - 1) (lastb lo k1) (headb hi k2) c'"
        using wfc wfn_own by (metis linorder_not_less)
      then have "wfn mx mn (own - 1) h lo hi (Inner ks (c1 @ c' # c2))"
        using wf at(1,3,5,7) by (auto simp: wfcs_mid)
      then show ?thesis
        using eqn True False t' dom fnd del lnks by (simp add: deleted_def del: wfn.simps)
    qed
  qed
qed

lemma delete_correct:
  "wfn mx mn own h lo hi n \<Longrightarrow> geb lo key \<Longrightarrow> ltb hi key \<Longrightarrow> 1 \<le> mn \<Longrightarrow> 2 * mn \<le> mx \<Longrightarrow>
   minKeys t = mn \<Longrightarrow> leaf n \<or> 1 \<le> own \<Longrightarrow>
   \<exists>res. delete t n key = Some res \<and> deleted mx mn own h lo hi t n key res"
proof (induction n arbitrary: own h lo hi)
  case (Inner ks cs)
  show ?case
  proof (rule delete_inner [OF Inner.prems(1-6)])
    show "1 \<le> own" using Inner.prems(7) by simp
    show "\<exists>res. delete t c key = Some res \<and> deleted mx mn mn (h - 1) l u t c key res"
      if "c \<in> set cs" "wfn mx mn mn (h - 1) l u c" "geb l key" "ltb u key" for c l u
      using Inner.IH [OF that Inner.prems(4-6)] Inner.prems(4) by simp
  qed
qed (rule delete_leaf)

lemma collapse_correct:
  assumes wf: "wfn mx mn 0 h None None n" and mn: "1 \<le> mn"
  shows "\<exists>t' n' h'. collapse t n = Some (t', n') \<and> t' = t\<lparr>stats := stats t'\<rparr>
    \<and> entries n' = entries n \<and> links n' = links n \<and> wfn mx mn (root_min n') h' None None n'"
proof (cases n)
  case (Leaf a ks rs nx)
  then show ?thesis using wf by (auto simp: root_min_def)
next
  case (Inner ks cs)
  show ?thesis
  proof (cases ks)
    case Nil
    then obtain c where c: "cs = [c]" "wfn mx mn mn (h - 1) None None c"
      using wf Inner by (cases cs) auto
    then have own: "mn \<le> length (keys c)" using wfn_own by blast
    let ?t = "t\<lparr>stats := (stats t)\<lparr>Collapses := Collapses (stats t) + 1\<rparr>\<rparr>"
    have "collapse ?t c = Some (?t, c)" using own mn by (cases c) auto
    moreover have "wfn mx mn (root_min c) (h - 1) None None c"
      using c(2) mn by (auto simp: root_min_def intro: wfn_weaken)
    ultimately show ?thesis using Inner Nil c(1) by auto
  next
    case (Cons k ks')
    then show ?thesis using wf Inner by (auto simp: root_min_def)
  qed
qed

lemma Delete_correct:
  assumes "wf_tree t"
  shows "\<exists>t' found. Delete t key = Some (t', found) \<and> wf_tree t'
    \<and> tree_entries t' = del_al key (tree_entries t)
    \<and> (found \<longleftrightarrow> key \<in> fst ` set (tree_entries t))
    \<and> (\<not> found \<longrightarrow> t' = t) \<and> order t' = order t"
proof (cases "root t")
  case None
  then show ?thesis using assms by (auto simp: Delete_def tree_entries_def del_al_def)
next
  case (Some n)
  let ?mx = "maxKeys t" and ?mn = "minKeys t"
  have wf: "wfn ?mx ?mn (root_min n) (node_height n) None None n" and ch: "chain_ok (links n) (fresh t)"
    and sz: "sized t" and cnt: "count t = int (length (entries n))"
    using assms Some by (auto simp: wf_tree_def wf_root_def tree_entries_def)
  have mn: "1 \<le> ?mn" "2 * ?mn \<le> ?mx" using sized_keys [OF sz] by auto
  have own: "leaf n \<or> 1 \<le> root_min n" by (simp add: root_min_def)
  from delete_correct [OF wf bound_simps(1,3) mn refl own, of key]
  obtain r where r: "delete t n key = Some r"
    "deleted ?mx ?mn (root_min n) (node_height n) None None t n key r" by blast
  obtain t1 n1 found where "r = (t1, n1, found)" by (cases r)
  with r have res: "delete t n key = Some (t1, n1, found)"
    and d: "deleted ?mx ?mn (root_min n) (node_height n) None None t n key (t1, n1, found)"
    by simp_all
  have t1: "t1 = t\<lparr>stats := stats t1\<rparr>" and fnd: "found \<longleftrightarrow> key \<in> fst ` set (entries n)"
    and miss: "\<not> found \<Longrightarrow> n1 = n \<and> t1 = t" and ent: "entries n1 = del_al key (entries n)"
    and lnk: "shrinks (links n) (links n1)" and w1: "wfn ?mx ?mn 0 (node_height n) None None n1"
    using d wfn_own unfolding deleted_def prod.case by blast+
  show ?thesis
  proof (cases found)
    case False
    have "t\<lparr>root := Some n\<rparr> = t" using Some by simp
    then have "Delete t key = Some (t, False)"
      using False res miss Some by (simp add: Delete_def)
    then show ?thesis using False miss Some assms ent fnd
      by (intro exI [of _ t] exI [of _ False]) (simp add: tree_entries_def)
  next
    case True
    obtain t2 n2 h2 where c: "collapse (t1\<lparr>count := count t1 - 1\<rparr>) n1 = Some (t2, n2)"
      and t2: "t2 = t1\<lparr>count := count t1 - 1, stats := stats t2\<rparr>" and e2: "entries n2 = entries n1"
      and l2: "links n2 = links n1" and w2: "wfn ?mx ?mn (root_min n2) h2 None None n2"
      using collapse_correct [OF w1 mn(1), of "t1\<lparr>count := count t1 - 1\<rparr>"] by auto
    have "t2 = t\<lparr>count := count t - 1, stats := stats t2\<rparr>"
      by (subst t2, subst t1) (use arg_cong [OF t1, of count] in simp)
    then have same: "maxKeys t2 = ?mx" "minKeys t2 = ?mn" "order t2 = order t" "count t2 = count t - 1"
      "fresh t2 = fresh t"
      by (metis Tree.simps(2-7) Tree.update_convs(5,6) Tree.surjective)+
    have "length (del_al key (entries n)) + 1 = length (entries n)"
      using length_del_al [OF wfn_sorted [OF wf], of key] True fnd by simp
    then have "count t2 = int (length (entries n2))" using same cnt e2 ent by simp
    moreover have "wf_root (t2\<lparr>root := Some n2\<rparr>) n2"
      using w2 same l2 shrinks_ok [OF lnk ch] by (intro wf_rootI [where h = h2]) simp_all
    ultimately have "wf_tree (t2\<lparr>root := Some n2\<rparr>)"
      using sz same by (simp add: wf_tree_def tree_entries_def sized_def wf_root_def)
    then show ?thesis
      using True res c Some e2 ent fnd same
      by (intro exI [of _ "t2\<lparr>root := Some n2\<rparr>"] exI [of _ True])
        (simp add: Delete_def Let_def tree_entries_def)
  qed
qed

end
