(* ===== verification/BTreeScan.thy ===== *)
theory BTreeScan
  imports BTreeInv
begin

text \<open>
  The leaf chain at work: range scans (\<open>Scan\<close>, \<open>Iterator\<close>), the checker \<open>Validate\<close>, and
  \<open>LeafFill\<close>.  A scan that is drained returns exactly the entries of the range, in order, and
  \<open>Validate\<close> accepts exactly the sound trees.
\<close>

section \<open>The code\<close>

fun collectLeaves :: "node \<Rightarrow> node list" where
  "collectLeaves (Leaf a ks rs nx) = [Leaf a ks rs nx]"
| "collectLeaves (Inner ks cs) = concat (map collectLeaves cs)"

text \<open>Following a \<open>next\<close> pointer: the leaf of the tree with that address.\<close>

definition leaves :: "Tree \<Rightarrow> node list" where
  "leaves t = (case root t of None \<Rightarrow> [] | Some n \<Rightarrow> collectLeaves n)"

definition leafAt :: "Tree \<Rightarrow> addr \<Rightarrow> node option" where
  "leafAt t a = find (\<lambda>l. leafAddr l = Some a) (leaves t)"

fun firstLeaf :: "node \<Rightarrow> node option" where
  "firstLeaf (Leaf a ks rs nx) = Some (Leaf a ks rs nx)"
| "firstLeaf (Inner ks cs) = do { c \<leftarrow> idx cs 0; firstLeaf c }"

text \<open>An iterator holds the address of a leaf and a position in it.  \<open>to\<close> is \<open>None\<close> for a scan
  without upper bound (a nil slice).\<close>

record Iterator =
  it_n :: "addr option"
  it_i :: nat
  it_to :: "key option"
  it_key :: key
  it_rid :: RowID
  it_done :: bool

definition zeroIterator :: Iterator where
  "zeroIterator = \<lparr>it_n = None, it_i = 0, it_to = None, it_key = [], it_rid = zeroRowID, it_done = False\<rparr>"

definition Scan :: "Tree \<Rightarrow> key \<Rightarrow> key option \<Rightarrow> Iterator option" where
  "Scan t from to =
     (case root t of
        None \<Rightarrow> Some (zeroIterator\<lparr>it_done := True\<rparr>)
      | Some n \<Rightarrow>
          do { n \<leftarrow> descend n from;
               Some (zeroIterator\<lparr>it_n := leafAddr n, it_i := leafIndex (keys n) from, it_to := to\<rparr>) })"

definition ScanAll :: "Tree \<Rightarrow> Iterator option" where
  "ScanAll t = Scan t [] None"

text \<open>The loop of \<open>Next\<close> that skips leaves whose keys are used up.\<close>

partial_function (option) skip :: "Tree \<Rightarrow> addr option \<Rightarrow> nat \<Rightarrow> (node option \<times> nat) option" where
  "skip t n i =
     (case n of
        None \<Rightarrow> Some (None, i)
      | Some a \<Rightarrow>
          do { l \<leftarrow> leafAt t a;
               if i \<ge> length (keys l) then skip t (nextLeaf l) 0 else Some (Some l, i) })"

definition Next :: "Tree \<Rightarrow> Iterator \<Rightarrow> (Iterator \<times> bool) option" where
  "Next t it =
     (if it_done it then Some (it, False)
      else
        do { (n, i) \<leftarrow> skip t (it_n it) (it_i it);
             case n of
               None \<Rightarrow> Some (it\<lparr>it_n := None, it_i := i, it_done := True\<rparr>, False)
             | Some l \<Rightarrow>
                 do { let it = it\<lparr>it_n := leafAddr l, it_i := i\<rparr>;
                      k \<leftarrow> idx (keys l) i;
                      if (case it_to it of None \<Rightarrow> False | Some to \<Rightarrow> bytes_compare k to \<ge> 0)
                      then Some (it\<lparr>it_done := True\<rparr>, False)
                      else do { r \<leftarrow> idx (rows l) i;
                                Some (it\<lparr>it_key := k, it_rid := r, it_i := i + 1\<rparr>, True) } } })"

definition CloseIterator :: "Iterator \<Rightarrow> Iterator" where
  "CloseIterator it = it\<lparr>it_done := True, it_n := None\<rparr>"

text \<open>The loop every caller of a scan writes: \<open>for it.Next() { use it.Key(), it.RowID() }\<close>.\<close>

partial_function (option) drain :: "Tree \<Rightarrow> Iterator \<Rightarrow> (key \<times> RowID) list option" where
  "drain t it =
     do { (it, more) \<leftarrow> Next t it;
          if more then do { es \<leftarrow> drain t it; Some ((it_key it, it_rid it) # es) } else Some [] }"

text \<open>The loop of \<open>LeafFill\<close>, along the chain.\<close>

partial_function (option) fill ::
    "Tree \<Rightarrow> addr option \<Rightarrow> nat \<Rightarrow> nat \<Rightarrow> nat \<Rightarrow> (nat \<times> nat \<times> nat) option" where
  "fill t n nleaves nkeys capacity =
     (case n of
        None \<Rightarrow> Some (nleaves, nkeys, capacity)
      | Some a \<Rightarrow>
          do { l \<leftarrow> leafAt t a;
               fill t (nextLeaf l) (nleaves + 1) (nkeys + length (keys l)) (capacity + maxKeys t) })"

definition LeafFill :: "Tree \<Rightarrow> (nat \<times> nat \<times> nat) option" where
  "LeafFill t =
     (case root t of
        None \<Rightarrow> Some (0, 0, 0)
      | Some n \<Rightarrow> do { l \<leftarrow> firstLeaf n; fill t (leafAddr l) 0 0 0 })"

subsection \<open>\<open>Validate\<close>\<close>

text \<open>Every error wraps \<open>ErrInvariant\<close>; the constructors name the facts it can report.\<close>

datatype ErrInvariant =
    KeysOutOfOrder | KeyBelowBound | KeyAboveBound | TooManyKeys | TooFewKeys | RowsMismatch
  | DepthsDiffer | ChildrenMismatch | RootTooNarrow | ChainTooLong | ChainOrder | ChainTooShort

fun check_order :: "key list \<Rightarrow> bool" where
  "check_order (a # b # ks) \<longleftrightarrow> bytes_compare a b < 0 \<and> check_order (b # ks)"
| "check_order ks \<longleftrightarrow> True"

fun check_bounds :: "key option \<Rightarrow> key option \<Rightarrow> key list \<Rightarrow> ErrInvariant option" where
  "check_bounds low high [] = None"
| "check_bounds low high (k # ks) =
     (if (case low of None \<Rightarrow> False | Some l \<Rightarrow> bytes_compare k l < 0) then Some KeyBelowBound
      else if (case high of None \<Rightarrow> False | Some u \<Rightarrow> bytes_compare k u \<ge> 0) then Some KeyAboveBound
      else check_bounds low high ks)"

definition check_keys :: "Tree \<Rightarrow> key list \<Rightarrow> key option \<Rightarrow> key option \<Rightarrow> bool \<Rightarrow> ErrInvariant option" where
  "check_keys t ks low high isRoot =
     (if \<not> check_order ks then Some KeysOutOfOrder
      else case check_bounds low high ks of
        Some e \<Rightarrow> Some e
      | None \<Rightarrow>
          if length ks > maxKeys t then Some TooManyKeys
          else if \<not> isRoot \<and> length ks < minKeys t then Some TooFewKeys
          else None)"

text \<open>\<open>leafDepth\<close> is the variable the Go code passes by pointer, -1 until the first leaf.\<close>

fun check :: "Tree \<Rightarrow> node \<Rightarrow> int \<Rightarrow> int \<Rightarrow> key option \<Rightarrow> key option \<Rightarrow> bool \<Rightarrow> ErrInvariant + int"
  and check_children :: "Tree \<Rightarrow> node list \<Rightarrow> key list \<Rightarrow> nat \<Rightarrow> int \<Rightarrow> int \<Rightarrow> key option \<Rightarrow> key option
    \<Rightarrow> ErrInvariant + int" where
  "check t (Leaf a ks rs nx) level leafDepth low high isRoot =
     (case check_keys t ks low high isRoot of
        Some e \<Rightarrow> Inl e
      | None \<Rightarrow>
          if length rs \<noteq> length ks then Inl RowsMismatch
          else if leafDepth = -1 then Inr level
          else if leafDepth \<noteq> level then Inl DepthsDiffer
          else Inr leafDepth)"
| "check t (Inner ks cs) level leafDepth low high isRoot =
     (case check_keys t ks low high isRoot of
        Some e \<Rightarrow> Inl e
      | None \<Rightarrow>
          if length cs \<noteq> length ks + 1 then Inl ChildrenMismatch
          else if isRoot \<and> length cs < 2 then Inl RootTooNarrow
          else check_children t cs ks 0 level leafDepth low high)"
| "check_children t [] ks i level leafDepth low high = Inr leafDepth"
| "check_children t (c # cs) ks i level leafDepth low high =
     (let childLow = (if i > 0 then Some (ks ! (i - 1)) else low);
          childHigh = (if i < length ks then Some (ks ! i) else high)
      in case check t c (level + 1) leafDepth childLow childHigh False of
           Inl e \<Rightarrow> Inl e
         | Inr leafDepth \<Rightarrow> check_children t cs ks (i + 1) level leafDepth low high)"

text \<open>The loop of \<open>checkLeafChain\<close> over the leaves in tree order, \<open>n\<close> following the chain.\<close>

fun chain_loop :: "node list \<Rightarrow> addr option \<Rightarrow> ErrInvariant + unit" where
  "chain_loop inTree None = (if inTree \<noteq> [] then Inl ChainTooShort else Inr ())"
| "chain_loop [] (Some n) = Inl ChainTooLong"
| "chain_loop (l # inTree) (Some n) =
     (if leafAddr l \<noteq> Some n then Inl ChainOrder else chain_loop inTree (nextLeaf l))"

definition checkLeafChain :: "node \<Rightarrow> (ErrInvariant + unit) option" where
  "checkLeafChain n = do { l \<leftarrow> firstLeaf n; Some (chain_loop (collectLeaves n) (leafAddr l)) }"

definition Validate :: "Tree \<Rightarrow> (ErrInvariant + unit) option" where
  "Validate t =
     (case root t of
        None \<Rightarrow> Some (Inr ())
      | Some n \<Rightarrow>
          (case check t n 0 (-1) None None True of
             Inl e \<Rightarrow> Some (Inl e)
           | Inr d \<Rightarrow> checkLeafChain n))"

section \<open>The leaves in order\<close>

fun lnk :: "node \<Rightarrow> addr \<times> addr option" where
  "lnk (Leaf a ks rs nx) = (a, nx)"
| "lnk (Inner ks cs) = (0, None)"

lemma concat_map_concat: "concat (map f (concat xss)) = concat (map (\<lambda>xs. concat (map f xs)) xss)"
  by (induction xss) auto

lemma find_mid: "(\<And>x. x \<in> set xs \<Longrightarrow> \<not> P x) \<Longrightarrow> P y \<Longrightarrow> find P (xs @ y # ys) = Some y"
  by (induction xs) auto

lemma links_leaves: "links n = map lnk (collectLeaves n)"
proof (induction n)
  case (Inner ks cs)
  then show ?case by (simp add: map_concat comp_def cong: map_cong)
qed simp

lemma entries_leaves: "entries n = concat (map entries (collectLeaves n))"
proof (induction n)
  case (Inner ks cs)
  then show ?case by (simp add: concat_map_concat cong: map_cong)
qed simp

lemma collectLeaves_leaf: "l \<in> set (collectLeaves n) \<Longrightarrow> leaf l"
  by (induction n) auto

lemma leaf_parts: "leaf l \<Longrightarrow> leafAddr l = Some (fst (lnk l)) \<and> nextLeaf l = snd (lnk l)
    \<and> entries l = zip (keys l) (rows l)"
  by (cases l) auto

definition rows_match :: "node \<Rightarrow> bool" where
  "rows_match l \<longleftrightarrow> length (rows l) = length (keys l)"

lemma wfn_rows: "wfn mx mn own h lo hi n \<Longrightarrow> l \<in> set (collectLeaves n) \<Longrightarrow> rows_match l"
proof (induction n arbitrary: own h lo hi)
  case (Inner ks cs)
  then obtain c where c: "c \<in> set cs" "l \<in> set (collectLeaves c)" by auto
  then obtain c1 c2 where cs: "cs = c1 @ c # c2" by (meson split_list)
  have w: "wfcs mx mn (h - 1) lo hi ks cs" using Inner.prems(1) by simp
  let ?i = "length c1"
  have "wfcs mx mn (h - 1) lo hi (take ?i ks @ drop ?i ks) (c1 @ c # c2)" "?i \<le> length ks"
    using w wfcs_length [OF w] cs by simp_all
  then have "wfn mx mn mn (h - 1) (lastb lo (take ?i ks)) (headb hi (drop ?i ks)) c"
    using wfcs_mid [of "take ?i ks" c1 mx mn "h - 1" lo hi "drop ?i ks" c c2] by simp
  then show ?case using Inner.IH [OF c(1) _ c(2)] by blast
qed (simp add: rows_match_def)

text \<open>What a tree's leaves are for the code that walks the chain.\<close>

definition chained :: "Tree \<Rightarrow> bool" where
  "chained t \<longleftrightarrow>
     linked (map lnk (leaves t)) None \<and> distinct (map (fst \<circ> lnk) (leaves t))
     \<and> (\<forall>l \<in> set (leaves t). leaf l \<and> rows_match l)"

lemma wf_tree_chained: "wf_tree t \<Longrightarrow> chained t"
  by (auto simp: chained_def wf_tree_def leaves_def wf_root_def chain_ok_def links_leaves
      collectLeaves_leaf comp_def dest: wfn_rows split: option.splits)

lemma tree_entries_leaves: "tree_entries t = concat (map entries (leaves t))"
  by (simp add: tree_entries_def leaves_def entries_leaves [symmetric] split: option.split)

lemma leafAt_mid:
  assumes "chained t" "leaves t = L1 @ l # L2"
  shows "leafAt t (fst (lnk l)) = Some l"
proof -
  have "leafAddr x = Some (fst (lnk x))" if "x \<in> set (leaves t)" for x
    using assms(1) leaf_parts that by (simp add: chained_def)
  moreover have "fst (lnk x) \<noteq> fst (lnk l)" if "x \<in> set L1" for x
    using assms that by (auto simp: chained_def dest!: imageI [of x _ "\<lambda>x. fst (lnk x)"])
  ultimately show ?thesis
    unfolding leafAt_def assms(2) by (intro find_mid) auto
qed

lemma next_mid:
  assumes "chained t" "leaves t = L1 @ l # L2"
  shows "nextLeaf l = (case L2 of [] \<Rightarrow> None | m # _ \<Rightarrow> leafAddr m)"
proof -
  have "linked (lnk l # map lnk L2) None"
    using assms by (auto simp: chained_def linked_append)
  moreover have "leaf l" "\<forall>m \<in> set L2. leaf m" using assms by (auto simp: chained_def)
  ultimately show ?thesis using leaf_parts by (cases L2) auto
qed

section \<open>The iterator is a cursor over the entries\<close>

text \<open>The entries left from a position in the chain.\<close>

definition rest :: "node \<Rightarrow> nat \<Rightarrow> node list \<Rightarrow> (key \<times> RowID) list" where
  "rest l i L2 = drop i (zip (keys l) (rows l)) @ concat (map entries L2)"

lemma skip_here:
  assumes "leaves t = L1 @ l # L2" "leafAt t a = Some l" "rows_match l" "i < length (keys l)"
  shows "case rest l i L2 of
      [] \<Rightarrow> False
    | e # es \<Rightarrow> \<exists>M1 m M2 i'. skip t (Some a) i = Some (Some m, i') \<and> leaves t = M1 @ m # M2
        \<and> i' < length (keys m) \<and> rest m i' M2 = e # es"
proof (cases "rest l i L2")
  case Nil
  then show ?thesis using assms(3,4) by (simp add: rest_def rows_match_def)
next
  case (Cons e es)
  moreover have "skip t (Some a) i = Some (Some l, i)"
    using assms by (simp add: skip.simps [of t "Some a" i])
  ultimately show ?thesis using assms(1,4) by auto
qed

lemma skip_correct:
  assumes "chained t" "leaves t = L1 @ l # L2" "leafAddr l = Some a"
  shows "case rest l i L2 of
      [] \<Rightarrow> \<exists>i'. skip t (Some a) i = Some (None, i')
    | e # es \<Rightarrow> \<exists>M1 m M2 i'. skip t (Some a) i = Some (Some m, i') \<and> leaves t = M1 @ m # M2
        \<and> i' < length (keys m) \<and> rest m i' M2 = e # es"
  using assms(2,3)
proof (induction L2 arbitrary: L1 l a i)
  case Nil
  have l: "leaf l" "rows_match l" "leafAt t a = Some l"
    using assms(1) Nil leafAt_mid [OF assms(1) Nil(1)] leaf_parts [of l] by (auto simp: chained_def)
  show ?case
  proof (cases "i < length (keys l)")
    case True
    show ?thesis using skip_here [OF Nil(1) l(3,2) True] by (auto split: list.splits)
  next
    case False
    have "skip t (Some a) i = skip t None 0"
      using False l next_mid [OF assms(1) Nil(1)] by (simp add: skip.simps [of t "Some a" i])
    then show ?thesis using False l
      by (simp add: rest_def rows_match_def skip.simps [of t None])
  qed
next
  case (Cons m L2)
  have l: "leaf l" "rows_match l" "leafAt t a = Some l" "leaf m"
    using assms(1) Cons.prems leafAt_mid [OF assms(1) Cons.prems(1)] leaf_parts [of l]
    by (auto simp: chained_def)
  show ?case
  proof (cases "i < length (keys l)")
    case True
    show ?thesis using skip_here [OF Cons.prems(1) l(3,2) True] by (auto split: list.splits)
  next
    case False
    have "skip t (Some a) i = skip t (leafAddr m) 0"
      using False l next_mid [OF assms(1) Cons.prems(1)] by (simp add: skip.simps [of t "Some a" i])
    moreover have "rest l i (m # L2) = rest m 0 L2"
      using False l leaf_parts [of m] by (simp add: rest_def rows_match_def)
    moreover have "leafAddr m = Some (fst (lnk m))" using l leaf_parts by blast
    ultimately show ?thesis
      using Cons.IH [of "L1 @ [l]" m "fst (lnk m)" 0] Cons.prems(1)
      by (cases "rest m 0 L2") auto
  qed
qed


definition at :: "Tree \<Rightarrow> Iterator \<Rightarrow> (key \<times> RowID) list \<Rightarrow> bool" where
  "at t it es \<longleftrightarrow>
     \<not> it_done it
     \<and> (\<exists>L1 l L2. leaves t = L1 @ l # L2 \<and> it_n it = leafAddr l \<and> es = rest l (it_i it) L2)"

definition past :: "key option \<Rightarrow> key \<Rightarrow> bool" where
  "past to k = (case to of None \<Rightarrow> False | Some u \<Rightarrow> u \<le> k)"

lemma Next_correct:
  assumes "chained t" "at t it es"
  shows "case es of
      [] \<Rightarrow> \<exists>it'. Next t it = Some (it', False) \<and> it_done it'
    | e # es' \<Rightarrow>
        if past (it_to it) (fst e) then \<exists>it'. Next t it = Some (it', False) \<and> it_done it'
        else \<exists>it'. Next t it = Some (it', True) \<and> it_key it' = fst e \<and> it_rid it' = snd e
          \<and> it_to it' = it_to it \<and> at t it' es'"
proof -
  obtain L1 l L2 where l: "leaves t = L1 @ l # L2" "it_n it = leafAddr l" "es = rest l (it_i it) L2"
    and nd: "\<not> it_done it" using assms(2) by (auto simp: at_def)
  have "leaf l" using assms(1) l(1) by (simp add: chained_def)
  then obtain a where a: "leafAddr l = Some a" using leaf_parts by blast
  note skip = skip_correct [OF assms(1) l(1) a, of "it_i it"]
  show ?thesis
  proof (cases es)
    case Nil
    then show ?thesis using skip l nd a by (auto simp: Next_def)
  next
    case (Cons e es')
    then obtain M1 m M2 i where m: "skip t (Some a) (it_i it) = Some (Some m, i)"
      "leaves t = M1 @ m # M2" "i < length (keys m)" "rest m i M2 = e # es'"
      using skip l(3) by auto
    have "rows_match m" "leaf m" using assms(1) m(2) by (simp_all add: chained_def)
    then have rm: "i < length (rows m)" and e: "e = (keys m ! i, rows m ! i)"
      and es': "es' = rest m (Suc i) M2"
      using m(3,4) by (simp_all add: rows_match_def rest_def Cons_nth_drop_Suc [symmetric])
    have st: "past (it_to it) (fst e) \<longleftrightarrow>
        (case it_to it of None \<Rightarrow> False | Some to \<Rightarrow> bytes_compare (keys m ! i) to \<ge> 0)"
      using e by (simp add: past_def split: option.split)
    let ?it = "it\<lparr>it_n := leafAddr m, it_i := i\<rparr>"
    have nx: "Next t it = (if past (it_to it) (fst e) then Some (?it\<lparr>it_done := True\<rparr>, False)
        else Some (?it\<lparr>it_key := fst e, it_rid := snd e, it_i := i + 1\<rparr>, True))"
      using nd l(2) a m(1,3) rm e unfolding st by (simp add: Next_def Let_def)
    moreover have "at t (?it\<lparr>it_key := fst e, it_rid := snd e, it_i := i + 1\<rparr>) es'"
      using nd m(2) es' by (auto simp: at_def)
    ultimately show ?thesis using Cons by simp
  qed
qed

lemma drain_correct:
  "chained t \<Longrightarrow> at t it es \<Longrightarrow> drain t it = Some (takeWhile (\<lambda>e. \<not> past (it_to it) (fst e)) es)"
proof (induction es arbitrary: it)
  case Nil
  then show ?case using Next_correct [OF Nil] by (auto simp: drain.simps [of t it])
next
  case (Cons e es)
  show ?case
    using Next_correct [OF Cons.prems] Cons.IH [OF Cons.prems(1)]
    by (auto simp: drain.simps [of t it] split: if_splits)
qed

section \<open>\<open>Scan\<close>\<close>

lemma descend_leaves:
  "wfn mx mn own h lo hi n \<Longrightarrow> geb lo key \<Longrightarrow> ltb hi key \<Longrightarrow>
   \<exists>L1 l L2. descend n key = Some l \<and> collectLeaves n = L1 @ l # L2
     \<and> (\<exists>u v o'. wfn mx mn o' 0 u v l)
     \<and> (\<forall>e \<in> set (concat (map entries L1)). fst e < key)
     \<and> (\<forall>e \<in> set (concat (map entries L2)). key < fst e)"
proof (induction n arbitrary: own h lo hi)
  case (Leaf a ks rs nx)
  have "h = 0" using Leaf by simp
  then show ?case using Leaf by (intro exI [of _ "[]"]) auto
next
  case (Inner ks cs)
  from Inner.prems obtain k1 k2 c1 c c2 where at:
    "ks = k1 @ k2" "cs = c1 @ c # c2" "length c1 = length k1" "childIndex ks key = length k1"
    "wfn mx mn mn (h - 1) (lastb lo k1) (headb hi k2) c"
    "geb (lastb lo k1) key" "ltb (headb hi k2) key"
    and out: "\<And>e. e \<in> set (concat (map entries c1)) \<Longrightarrow> fst e < key"
    "\<And>e. e \<in> set (concat (map entries c2)) \<Longrightarrow> key < fst e"
    by (rule inner_at) blast
  obtain L1 l L2 where IH: "descend c key = Some l" "collectLeaves c = L1 @ l # L2"
    "\<exists>u v o'. wfn mx mn o' 0 u v l" "\<forall>e \<in> set (concat (map entries L1)). fst e < key"
    "\<forall>e \<in> set (concat (map entries L2)). key < fst e"
    using Inner.IH [OF _ at(5-7)] at(2) by (metis in_set_conv_decomp)
  let ?L1 = "concat (map collectLeaves c1)" and ?L2 = "concat (map collectLeaves c2)"
  have eq: "concat (map entries (concat (map collectLeaves cs'))) = concat (map entries cs')" for cs'
    unfolding concat_map_concat list.map_comp comp_def by (simp flip: entries_leaves)
  have "collectLeaves (Inner ks cs) = (?L1 @ L1) @ l # (L2 @ ?L2)" using IH(2) at(2) by simp
  moreover have "descend (Inner ks cs) key = Some l"
    using at IH(1) by (simp flip: at(3))
  moreover have "\<forall>e \<in> set (concat (map entries (?L1 @ L1))). fst e < key"
    using IH(4) out(1) eq [of c1] by (simp only: map_append concat_append set_append) blast
  moreover have "\<forall>e \<in> set (concat (map entries (L2 @ ?L2))). key < fst e"
    using IH(5) out(2) eq [of c2] by (simp only: map_append concat_append set_append) blast
  ultimately show ?case using IH(3) by blast
qed

lemma Scan_at:
  assumes "wf_tree t" "root t = Some n"
  shows "\<exists>it. Scan t from to = Some it \<and> it_to it = to
    \<and> at t it (filter (\<lambda>e. from \<le> fst e) (tree_entries t))"
proof -
  have wf: "wfn (maxKeys t) (minKeys t) (root_min n) (node_height n) None None n"
    using assms by (simp add: wf_tree_def wf_root_def)
  from descend_leaves [OF wf bound_simps(1,3), of "from"]
  obtain L1 l L2 u v o' where l: "descend n from = Some l" "collectLeaves n = L1 @ l # L2"
    and w: "wfn (maxKeys t) (minKeys t) o' 0 u v l"
    and out: "\<forall>e \<in> set (concat (map entries L1)). fst e < from"
    "\<forall>e \<in> set (concat (map entries L2)). from < fst e" by blast
  obtain a ks rs nx where lf: "l = Leaf a ks rs nx" using w by (cases l) auto
  from w [unfolded lf] obtain k1 k2 r1 r2 where at: "ks = k1 @ k2" "rs = r1 @ r2"
    "length r1 = length k1" "length r2 = length k2" "leafIndex ks from = length k1"
    "\<forall>k \<in> set k2. from \<le> k" "\<And>e. e \<in> set (zip k1 r1) \<Longrightarrow> fst e < from"
    by (rule leaf_at [where key = "from"]) blast
  have r: "rest l (leafIndex (keys l) from) L2 = zip k2 r2 @ concat (map entries L2)"
    using at(1-5) lf by (simp add: rest_def flip: at(3))
  have "filter (\<lambda>e. from \<le> fst e) (concat (map entries L1)) = []"
    "filter (\<lambda>e. from \<le> fst e) (concat (map entries L2)) = concat (map entries L2)"
    "filter (\<lambda>e. from \<le> fst e) (zip k1 r1) = []"
    using out at(7) unfolding filter_empty_conv filter_id_conv by (meson leD less_imp_le)+
  moreover have "filter (\<lambda>e. from \<le> fst e) (zip k2 r2) = zip k2 r2"
    using at(6) by (auto simp: filter_id_conv dest: set_zip_leftD)
  ultimately have "filter (\<lambda>e. from \<le> fst e) (tree_entries t) = rest l (leafIndex (keys l) from) L2"
    unfolding tree_entries_leaves leaves_def assms(2) option.case l(2) r
    using lf at(1-4) by simp
  moreover have "leaves t = L1 @ l # L2" using assms(2) l(2) by (simp add: leaves_def)
  ultimately have "at t (zeroIterator\<lparr>it_n := leafAddr l, it_i := leafIndex (keys l) from, it_to := to\<rparr>)
      (filter (\<lambda>e. from \<le> fst e) (tree_entries t))"
    unfolding at_def zeroIterator_def by auto
  then show ?thesis using assms(2) l(1) by (simp add: Scan_def)
qed

lemma takeWhile_sorted:
  "sorted_al es \<Longrightarrow> takeWhile (\<lambda>e. \<not> past to (fst e)) es = filter (\<lambda>e. \<not> past to (fst e)) es"
proof (induction es)
  case (Cons e es)
  have "filter (\<lambda>e. \<not> past to (fst e)) es = []" if "past to (fst e)"
    unfolding filter_empty_conv using that Cons.prems
    by (fastforce simp: past_def split: option.splits)
  then show ?case using Cons by simp
qed simp

definition in_range :: "key \<Rightarrow> key option \<Rightarrow> key \<times> RowID \<Rightarrow> bool" where
  "in_range from to e \<longleftrightarrow> from \<le> fst e \<and> (case to of None \<Rightarrow> True | Some u \<Rightarrow> fst e < u)"

lemma Scan_drain:
  assumes "wf_tree t"
  shows "do { it \<leftarrow> Scan t from to; drain t it } = Some (filter (in_range from to) (tree_entries t))"
proof (cases "root t")
  case None
  then show ?thesis
    by (simp add: Scan_def tree_entries_def drain.simps Next_def)
next
  case (Some n)
  then obtain it where it: "Scan t from to = Some it" "it_to it = to"
    "at t it (filter (\<lambda>e. from \<le> fst e) (tree_entries t))"
    using Scan_at [OF assms] by blast
  have "sorted_al (filter (\<lambda>e. from \<le> fst e) (tree_entries t))"
    using wf_tree_sorted [OF assms] by (simp add: sorted_wrt_map sorted_wrt_filter)
  moreover have "filter (\<lambda>e. \<not> past to (fst e)) (filter (\<lambda>e. from \<le> fst e) (tree_entries t))
      = filter (in_range from to) (tree_entries t)"
    unfolding filter_filter
    by (rule filter_cong) (auto simp: in_range_def past_def not_le split: option.split)
  ultimately have "takeWhile (\<lambda>e. \<not> past to (fst e)) (filter (\<lambda>e. from \<le> fst e) (tree_entries t))
      = filter (in_range from to) (tree_entries t)"
    by (simp only: takeWhile_sorted)
  then show ?thesis
    using drain_correct [OF wf_tree_chained [OF assms] it(3)] it(1,2) by simp
qed

section \<open>\<open>Validate\<close> decides soundness\<close>

lemma check_order_sorted: "check_order ks \<longleftrightarrow> sorted_wrt (<) ks"
proof (induction ks rule: check_order.induct)
  case (1 a b ks)
  then show ?case by (auto dest: less_trans)
qed simp_all

lemma check_bounds_None: "check_bounds lo hi ks = None \<longleftrightarrow> (\<forall>k \<in> set ks. geb lo k \<and> ltb hi k)"
  by (induction ks) (auto simp: geb_def ltb_def not_less split: option.splits)

lemma check_keys_None: "check_keys t ks lo hi isRoot = None \<longleftrightarrow>
    sorted_wrt (<) ks \<and> (\<forall>k \<in> set ks. geb lo k \<and> ltb hi k) \<and> length ks \<le> maxKeys t
    \<and> (isRoot \<or> minKeys t \<le> length ks)"
proof (cases "check_bounds lo hi ks")
  case None
  then show ?thesis
    using check_bounds_None [of lo hi ks] by (auto simp: check_keys_def check_order_sorted)
next
  case (Some e)
  then have "\<not> (\<forall>k \<in> set ks. geb lo k \<and> ltb hi k)" using check_bounds_None [of lo hi ks] by simp
  then show ?thesis using Some by (auto simp: check_keys_def)
qed

lemma sum_case_Inr: "(case x of Inl e \<Rightarrow> Inl e | Inr y \<Rightarrow> f y) = Inr z \<longleftrightarrow> (\<exists>y. x = Inr y \<and> f y = Inr z)"
  by (cases x) auto

text \<open>What a successful check of a node at a level says: the node is sound at some height, and the
  depth of its leaves agrees with the one found so far.\<close>

definition checks_as :: "(nat \<Rightarrow> bool) \<Rightarrow> int \<Rightarrow> int \<Rightarrow> int \<Rightarrow> bool" where
  "checks_as P level d d' \<longleftrightarrow> (\<exists>h. P h \<and> (d = -1 \<or> d = level + int h) \<and> d' = level + int h)"

lemma checks_as_then:
  assumes "0 \<le> level"
  shows "(\<exists>d1. checks_as P level d d1 \<and> checks_as Q level d1 d') \<longleftrightarrow> checks_as (\<lambda>h. P h \<and> Q h) level d d'"
proof
  assume "\<exists>d1. checks_as P level d d1 \<and> checks_as Q level d1 d'"
  then obtain h1 h2 where h: "P h1" "Q h2" "d = -1 \<or> d = level + int h1"
    "level + int h1 = -1 \<or> level + int h1 = level + int h2" "d' = level + int h2"
    by (auto simp: checks_as_def)
  then have "h1 = h2" using assms by linarith
  then show "checks_as (\<lambda>h. P h \<and> Q h) level d d'" using h by (auto simp: checks_as_def)
qed (auto simp: checks_as_def)

lemma check_children_wfcs:
  assumes "0 \<le> level" "length cs = Suc (length ks - i)" "i \<le> length ks"
    and "\<And>c lo hi d d'. c \<in> set cs \<Longrightarrow> check t c (level + 1) d lo hi False = Inr d' \<longleftrightarrow>
      checks_as (\<lambda>h. wfn mx mn mn h lo hi c) (level + 1) d d'"
  shows "check_children t cs ks i level d lo hi = Inr d' \<longleftrightarrow>
    checks_as (\<lambda>h. wfcs mx mn h (if i > 0 then Some (ks ! (i - 1)) else lo) hi (drop i ks) cs)
      (level + 1) d d'"
  using assms(2-4)
proof (induction cs arbitrary: i d)
  case (Cons c cs)
  let ?lo = "if i > 0 then Some (ks ! (i - 1)) else lo"
  show ?case
  proof (cases cs)
    case Nil
    then have "i = length ks" using Cons.prems(1,2) by simp
    then show ?thesis using Nil Cons.prems(3) [of c] by (simp add: sum_case_Inr)
  next
    case (Cons c2 cs2)
    then have i: "i < length ks" "length cs = Suc (length ks - (i + 1))" using Cons.prems(1) by simp_all
    have "check_children t (c # cs) ks i level d lo hi = Inr d' \<longleftrightarrow>
        (\<exists>d1. check t c (level + 1) d ?lo (Some (ks ! i)) False = Inr d1
          \<and> check_children t cs ks (i + 1) level d1 lo hi = Inr d')"
      using i by (simp add: Let_def sum_case_Inr)
    also have "\<dots> \<longleftrightarrow> (\<exists>d1. checks_as (\<lambda>h. wfn mx mn mn h ?lo (Some (ks ! i)) c) (level + 1) d d1
          \<and> checks_as (\<lambda>h. wfcs mx mn h (Some (ks ! i)) hi (drop (i + 1) ks) cs) (level + 1) d1 d')"
      using Cons.IH [of "i + 1", OF i(2)] i(1) Cons.prems(3) by simp
    also have "\<dots> \<longleftrightarrow> checks_as (\<lambda>h. wfcs mx mn h ?lo hi (drop i ks) (c # cs)) (level + 1) d d'"
      using checks_as_then [of "level + 1"] assms(1) i(1) by (simp flip: Cons_nth_drop_Suc)
    finally show ?thesis .
  qed
qed simp

definition own_min :: "Tree \<Rightarrow> bool \<Rightarrow> node \<Rightarrow> nat" where
  "own_min t isRoot n = (if isRoot then root_min n else minKeys t)"

lemma check_wfn:
  "0 \<le> level \<Longrightarrow> check t n level d lo hi isRoot = Inr d' \<longleftrightarrow>
     checks_as (\<lambda>h. wfn (maxKeys t) (minKeys t) (own_min t isRoot n) h lo hi n) level d d'"
proof (induction n arbitrary: level d lo hi isRoot d')
  case (Leaf a ks rs nx)
  show ?case
  proof (cases "check_keys t ks lo hi isRoot")
    case None
    then have "sorted_wrt (<) ks" "\<forall>k \<in> set ks. geb lo k \<and> ltb hi k" "length ks \<le> maxKeys t"
      "own_min t isRoot (Leaf a ks rs nx) \<le> length ks"
      by (auto simp: check_keys_None own_min_def root_min_def)
    then show ?thesis using None by (auto simp: checks_as_def)
  next
    case (Some e)
    then have "\<not> wfn (maxKeys t) (minKeys t) (own_min t isRoot (Leaf a ks rs nx)) h lo hi (Leaf a ks rs nx)" for h
      using check_keys_None [of t ks lo hi isRoot] by (auto simp: own_min_def)
    then have "\<not> checks_as (\<lambda>h. wfn (maxKeys t) (minKeys t) (own_min t isRoot (Leaf a ks rs nx)) h lo hi
        (Leaf a ks rs nx)) level d d'"
      unfolding checks_as_def by blast
    then show ?thesis using Some by simp
  qed
next
  case (Inner ks cs)
  let ?own = "own_min t isRoot (Inner ks cs)"
  have own: "isRoot \<Longrightarrow> ?own = 1" "\<not> isRoot \<Longrightarrow> ?own = minKeys t"
    by (simp_all add: own_min_def root_min_def)
  show ?case
  proof (cases "check_keys t ks lo hi isRoot = None \<and> length cs = Suc (length ks) \<and> (isRoot \<longrightarrow> 2 \<le> length cs)")
    case True
    then have ok: "sorted_wrt (<) ks" "\<forall>k \<in> set ks. geb lo k \<and> ltb hi k" "length ks \<le> maxKeys t"
      "?own \<le> length ks"
      using own by (cases isRoot; simp add: check_keys_None)+
    have "check t (Inner ks cs) level d lo hi isRoot = check_children t cs ks 0 level d lo hi"
      using True by auto
    also have "\<dots> = Inr d' \<longleftrightarrow>
        checks_as (\<lambda>h. wfcs (maxKeys t) (minKeys t) h lo hi ks cs) (level + 1) d d'"
      using check_children_wfcs [of level cs ks 0 t "maxKeys t" "minKeys t" d lo hi d']
        Inner.IH Inner.prems True by (simp add: own_min_def)
    also have "\<dots> \<longleftrightarrow> checks_as (\<lambda>h. wfn (maxKeys t) (minKeys t) ?own h lo hi (Inner ks cs)) level d d'"
    proof -
      have "(\<exists>h. Q (Suc h)) \<longleftrightarrow> (\<exists>h. h \<noteq> 0 \<and> Q h)" for Q by (metis not0_implies_Suc nat.distinct(1))
      from this [of "\<lambda>h. wfcs (maxKeys t) (minKeys t) (h - 1) lo hi ks cs
          \<and> (d = -1 \<or> d = level + int h) \<and> d' = level + int h"]
      show ?thesis using ok by (simp add: checks_as_def algebra_simps)
    qed
    finally show ?thesis .
  next
    case False
    have "\<not> wfn (maxKeys t) (minKeys t) ?own h lo hi (Inner ks cs)" for h
      using False own wfcs_length [of "maxKeys t" "minKeys t" "h - 1" lo hi ks cs]
      by (cases isRoot) (auto simp: check_keys_None)
    then have "\<not> checks_as (\<lambda>h. wfn (maxKeys t) (minKeys t) ?own h lo hi (Inner ks cs)) level d d'"
      unfolding checks_as_def by blast
    then show ?thesis using False by (auto split: option.splits)
  qed
qed


lemma chain_loop_linked:
  "\<forall>l \<in> set ls. leaf l \<Longrightarrow>
   chain_loop ls n = Inr () \<longleftrightarrow>
     n = (case ls of [] \<Rightarrow> None | l # _ \<Rightarrow> leafAddr l) \<and> linked (map lnk ls) None"
proof (induction ls n rule: chain_loop.induct)
  case (1 inTree)
  show ?case
  proof (cases inTree)
    case (Cons l ls)
    then have "leafAddr l \<noteq> None" using 1 leaf_parts by auto
    then show ?thesis using Cons by auto
  qed simp
next
  case (3 l inTree n)
  have l: "leafAddr l = Some (fst (lnk l))" "nextLeaf l = snd (lnk l)"
    using 3(2) leaf_parts [of l] by auto
  have "(case map lnk inTree of [] \<Rightarrow> None | m # _ \<Rightarrow> Some (fst m))
      = (case inTree of [] \<Rightarrow> None | m # _ \<Rightarrow> leafAddr m)"
    using 3(2) leaf_parts by (cases inTree) auto
  then show ?case using 3 l by auto
qed simp

lemma firstLeaf_hd:
  "wfn mx mn own h lo hi n \<Longrightarrow> \<exists>l ls. firstLeaf n = Some l \<and> collectLeaves n = l # ls"
proof (induction n arbitrary: own h lo hi)
  case (Inner ks cs)
  then obtain c cs' where cs: "cs = c # cs'" by (cases cs) auto
  then have "wfn mx mn mn (h - 1) lo (headb hi ks) c"
    using Inner.prems by (simp only: wfn.simps wfcs_at)
  then show ?case using Inner.IH [of c] cs by fastforce
qed simp

lemma Validate_total: "\<exists>r. Validate t = Some r"
proof (cases "root t")
  case (Some n)
  show ?thesis
  proof (cases "check t n 0 (-1) None None True")
    case (Inr d)
    then obtain h where "wfn (maxKeys t) (minKeys t) (root_min n) h None None n"
      using check_wfn [of 0 t n "-1" None None True d] by (auto simp: checks_as_def own_min_def)
    then show ?thesis using firstLeaf_hd Inr Some
      by (fastforce simp: Validate_def checkLeafChain_def)
  qed (simp add: Validate_def Some)
qed (simp add: Validate_def)

lemma Validate_iff:
  assumes "root t = Some n"
  shows "Validate t = Some (Inr ()) \<longleftrightarrow>
    wfn (maxKeys t) (minKeys t) (root_min n) (node_height n) None None n \<and> linked (links n) None"
proof (cases "check t n 0 (-1) None None True")
  case (Inl e)
  then have "\<not> checks_as (\<lambda>h. wfn (maxKeys t) (minKeys t) (root_min n) h None None n) 0 (-1) d" for d
    using check_wfn [of 0 t n "-1" None None True d] by (simp add: own_min_def)
  then have "\<not> wfn (maxKeys t) (minKeys t) (root_min n) (node_height n) None None n"
    unfolding checks_as_def by blast
  then show ?thesis using Inl assms by (simp add: Validate_def)
next
  case (Inr d)
  then obtain h where w: "wfn (maxKeys t) (minKeys t) (root_min n) h None None n"
    using check_wfn [of 0 t n "-1" None None True d] by (auto simp: checks_as_def own_min_def)
  obtain l ls where l: "firstLeaf n = Some l" "collectLeaves n = l # ls"
    using firstLeaf_hd [OF w] by blast
  have "\<forall>l \<in> set (collectLeaves n). leaf l" using collectLeaves_leaf by blast
  then have "chain_loop (collectLeaves n) (leafAddr l) = Inr () \<longleftrightarrow> linked (links n) None"
    using chain_loop_linked [of "collectLeaves n" "leafAddr l"] l(2) unfolding links_leaves by simp
  then show ?thesis
    using Inr assms l(1) w wfn_height [OF w] by (simp add: Validate_def checkLeafChain_def)
qed

text \<open>Distinct leaves of the Go heap have distinct addresses.\<close>

definition pointers_ok :: "Tree \<Rightarrow> bool" where
  "pointers_ok t \<longleftrightarrow>
     (case root t of None \<Rightarrow> True
      | Some n \<Rightarrow> distinct (map fst (links n)) \<and> (\<forall>a \<in> set (map fst (links n)). a < fresh t))"

lemma Validate_wf:
  assumes "sized t" "pointers_ok t"
  shows "(Validate t = Some (Inr ()) \<and> count t = int (length (tree_entries t))) \<longleftrightarrow> wf_tree t"
proof (cases "root t")
  case None
  then show ?thesis using assms by (simp add: Validate_def wf_tree_def)
next
  case (Some n)
  then show ?thesis
    using assms by (auto simp: Validate_iff wf_tree_def wf_root_def chain_ok_def pointers_ok_def)
qed

text \<open>\<open>LeafFill\<close> walks the whole chain.\<close>

lemma fill_correct:
  "chained t \<Longrightarrow> leaves t = L1 @ L2 \<Longrightarrow>
   fill t (case L2 of [] \<Rightarrow> None | l # _ \<Rightarrow> leafAddr l) a b c
     = Some (a + length L2, b + length (concat (map entries L2)), c + length L2 * maxKeys t)"
proof (induction L2 arbitrary: L1 a b c)
  case Nil
  then show ?case by (simp add: fill.simps [of t None])
next
  case (Cons l L2)
  have l: "leaf l" "rows_match l" "leafAddr l = Some (fst (lnk l))"
    using Cons.prems leaf_parts by (auto simp: chained_def)
  have "fill t (leafAddr l) a b c
      = fill t (case L2 of [] \<Rightarrow> None | l # _ \<Rightarrow> leafAddr l) (a + 1) (b + length (keys l)) (c + maxKeys t)"
    using l leafAt_mid [OF Cons.prems] next_mid [OF Cons.prems] by (simp add: fill.simps [of t "Some _"])
  moreover have "length (entries l) = length (keys l)"
    using l leaf_parts [of l] by (simp add: rows_match_def)
  ultimately show ?case
    using Cons.IH [of "L1 @ [l]"] Cons.prems by (simp add: algebra_simps)
qed

lemma LeafFill_correct:
  assumes "wf_tree t"
  shows "LeafFill t = Some (length (leaves t), length (tree_entries t), length (leaves t) * maxKeys t)"
proof (cases "root t")
  case None
  then show ?thesis by (simp add: LeafFill_def leaves_def tree_entries_def)
next
  case (Some n)
  then have "wfn (maxKeys t) (minKeys t) (root_min n) (node_height n) None None n"
    using assms by (simp add: wf_tree_def wf_root_def)
  then obtain l ls where l: "firstLeaf n = Some l" "collectLeaves n = l # ls"
    using firstLeaf_hd by blast
  have "leaves t = [] @ (l # ls)" using Some l by (simp add: leaves_def)
  then show ?thesis
    using fill_correct [OF wf_tree_chained [OF assms], of "[]" "l # ls" 0 0 0] Some l
    by (simp add: LeafFill_def tree_entries_leaves)
qed

end
