(* ===== verification/OrderedIndex.thy ===== *)
theory OrderedIndex
  imports BTreePut BTreeDelete BTreeScan
begin

text \<open>
  The interface \<open>index.Index\<close> (\<open>internal/index\<close>) as a locale, the adapter that implements it with
  a B+Tree (\<open>internal/btree/adapter.go\<close>), and what a client of the interface may rely on: any
  sequence of insertions and deletions behaves as the same sequence of updates of a map.
\<close>

section \<open>The adapter\<close>

record Index =
  tree :: Tree

definition NewIndex :: "int \<Rightarrow> btree_error + Index" where
  "NewIndex ord = (case NewTree ord of Inl e \<Rightarrow> Inl e | Inr t \<Rightarrow> Inr \<lparr>tree = t\<rparr>)"

definition IndexGet :: "Index \<Rightarrow> key \<Rightarrow> (core_error + RowID) option" where
  "IndexGet x key =
     do { (rid, ok) \<leftarrow> Get (tree x) key;
          if \<not> ok then Some (Inl ErrNotFound) else Some (Inr rid) }"

definition IndexPut :: "Index \<Rightarrow> key \<Rightarrow> RowID \<Rightarrow> (core_error option \<times> Index) option" where
  "IndexPut x key rid = do { t \<leftarrow> Put (tree x) key rid; Some (None, x\<lparr>tree := t\<rparr>) }"

definition IndexDelete :: "Index \<Rightarrow> key \<Rightarrow> (core_error option \<times> Index) option" where
  "IndexDelete x key =
     do { (t, ok) \<leftarrow> Delete (tree x) key;
          if \<not> ok then Some (Some ErrNotFound, x\<lparr>tree := t\<rparr>) else Some (None, x\<lparr>tree := t\<rparr>) }"

definition IndexScan :: "Index \<Rightarrow> key \<Rightarrow> key option \<Rightarrow> Iterator option" where
  "IndexScan x from to = Scan (tree x) from to"

section \<open>The interface\<close>

text \<open>The reading half: lookups and range scans of the entries a state holds.  A scan stands for
  the loop of its caller, the list of what the iterator delivers until \<open>Next\<close> returns false.\<close>

locale index_reader =
  fixes inv :: "'s \<Rightarrow> bool"
    and ents :: "'s \<Rightarrow> (key \<times> RowID) list"
    and get :: "'s \<Rightarrow> key \<Rightarrow> (core_error + RowID) option"
    and scan :: "'s \<Rightarrow> key \<Rightarrow> key option \<Rightarrow> (key \<times> RowID) list option"
  assumes ents_sorted: "inv s \<Longrightarrow> sorted_al (ents s)"
    and get_law: "inv s \<Longrightarrow>
      get s k = Some (case map_of (ents s) k of None \<Rightarrow> Inl ErrNotFound | Some r \<Rightarrow> Inr r)"
    and scan_law: "inv s \<Longrightarrow> scan s from to = Some (filter (in_range from to) (ents s))"
begin

lemma scan_sorted: "inv s \<Longrightarrow> scan s from to = Some es \<Longrightarrow> sorted_al es"
  using ents_sorted [of s] scan_law [of s "from" to] by (auto simp: sorted_wrt_map sorted_wrt_filter)

text \<open>A scan delivers an entry exactly when the key is in the range and a lookup finds it.\<close>

lemma scan_get:
  assumes "inv s" "scan s from to = Some es"
  shows "(k, r) \<in> set es \<longleftrightarrow> in_range from to (k, r) \<and> get s k = Some (Inr r)"
proof -
  have "distinct (map fst (ents s))"
    using ents_sorted [OF assms(1)] by (simp add: strict_sorted_iff)
  then have "(k, r) \<in> set (ents s) \<longleftrightarrow> map_of (ents s) k = Some r" by simp
  then show ?thesis
    using scan_law [OF assms(1), of "from" to] assms(2) get_law [OF assms(1), of k]
    by (auto split: option.splits)
qed

end

text \<open>The whole interface, with its two mutators.\<close>

locale index = index_reader +
  fixes put :: "'s \<Rightarrow> key \<Rightarrow> RowID \<Rightarrow> (core_error option \<times> 's) option"
    and del :: "'s \<Rightarrow> key \<Rightarrow> (core_error option \<times> 's) option"
  assumes put_law: "inv s \<Longrightarrow>
      \<exists>s'. put s k r = Some (None, s') \<and> inv s' \<and> ents s' = upd_al k r (ents s)"
    and del_law: "inv s \<Longrightarrow>
      \<exists>s'. del s k = Some (if k \<in> fst ` set (ents s) then None else Some ErrNotFound, s')
        \<and> inv s' \<and> ents s' = del_al k (ents s)"

text \<open>Sequences of updates, on an implementation of the interface and on a map.\<close>

datatype index_op = OpPut key RowID | OpDelete key

fun run_ops :: "('s \<Rightarrow> key \<Rightarrow> RowID \<Rightarrow> (core_error option \<times> 's) option)
    \<Rightarrow> ('s \<Rightarrow> key \<Rightarrow> (core_error option \<times> 's) option) \<Rightarrow> 's \<Rightarrow> index_op list \<Rightarrow> 's option" where
  "run_ops put del s [] = Some s"
| "run_ops put del s (OpPut k r # ops) = do { (_, s) \<leftarrow> put s k r; run_ops put del s ops }"
| "run_ops put del s (OpDelete k # ops) = do { (_, s) \<leftarrow> del s k; run_ops put del s ops }"

fun run_map :: "(key \<rightharpoonup> RowID) \<Rightarrow> index_op list \<Rightarrow> (key \<rightharpoonup> RowID)" where
  "run_map m [] = m"
| "run_map m (OpPut k r # ops) = run_map (m(k \<mapsto> r)) ops"
| "run_map m (OpDelete k # ops) = run_map (m(k := None)) ops"

context index begin

lemma run_refines:
  "inv s \<Longrightarrow> \<exists>s'. run_ops put del s ops = Some s' \<and> inv s'
    \<and> map_of (ents s') = run_map (map_of (ents s)) ops"
proof (induction ops arbitrary: s)
  case (Cons op ops)
  show ?case
  proof (cases op)
    case (OpPut k r)
    obtain s1 where s1: "put s k r = Some (None, s1)" "inv s1" "ents s1 = upd_al k r (ents s)"
      using put_law [OF Cons.prems] by blast
    then show ?thesis using Cons.IH [OF s1(2)] OpPut unfolding s1(3) map_of_upd_al
      by (simp add: fun_upd_def)
  next
    case (OpDelete k)
    obtain s1 e where s1: "del s k = Some (e, s1)" "inv s1" "ents s1 = del_al k (ents s)"
      using del_law [OF Cons.prems] by blast
    then show ?thesis using Cons.IH [OF s1(2)] OpDelete unfolding s1(3) map_of_del_al
      by (simp add: fun_upd_def)
  qed
qed simp

text \<open>After any run, lookups answer from the map and a scan lists it in key order.\<close>

lemma run_reads:
  assumes "inv s"
  shows "\<exists>s'. run_ops put del s ops = Some s'
    \<and> (\<forall>k. get s' k = Some (case run_map (map_of (ents s)) ops k of
            None \<Rightarrow> Inl ErrNotFound | Some r \<Rightarrow> Inr r))
    \<and> (\<forall>from to. \<exists>es. scan s' from to = Some es \<and> sorted_al es
        \<and> (\<forall>k r. (k, r) \<in> set es \<longleftrightarrow>
            in_range from to (k, r) \<and> run_map (map_of (ents s)) ops k = Some r))"
proof -
  obtain s' where s': "run_ops put del s ops = Some s'" "inv s'"
    "map_of (ents s') = run_map (map_of (ents s)) ops" using run_refines [OF assms] by blast
  have get: "get s' k = Some (case run_map (map_of (ents s)) ops k of
      None \<Rightarrow> Inl ErrNotFound | Some r \<Rightarrow> Inr r)" for k
    using get_law [OF s'(2)] s'(3) by simp
  have "\<exists>es. scan s' from to = Some es \<and> sorted_al es \<and> (\<forall>k r. (k, r) \<in> set es \<longleftrightarrow>
      in_range from to (k, r) \<and> run_map (map_of (ents s)) ops k = Some r)" for "from" to
  proof -
    obtain es where es: "scan s' from to = Some es" using scan_law [OF s'(2)] by blast
    show ?thesis
      using scan_get [OF s'(2) es] scan_sorted [OF s'(2) es] es get
      by (auto split: option.splits intro!: exI [of _ es])
  qed
  then show ?thesis using s'(1) get by blast
qed

end

section \<open>The B+Tree implements it\<close>

definition index_inv :: "Index \<Rightarrow> bool" where
  "index_inv x \<longleftrightarrow> wf_tree (tree x)"

definition index_entries :: "Index \<Rightarrow> (key \<times> RowID) list" where
  "index_entries x = tree_entries (tree x)"

definition index_scan :: "Index \<Rightarrow> key \<Rightarrow> key option \<Rightarrow> (key \<times> RowID) list option" where
  "index_scan x from to = do { it \<leftarrow> IndexScan x from to; drain (tree x) it }"

interpretation bt: index index_inv index_entries IndexGet index_scan IndexPut IndexDelete
proof
  fix x :: Index and k :: key and r :: RowID and "from" :: key and to
  assume inv: "index_inv x"
  then have wf: "wf_tree (tree x)" by (simp add: index_inv_def)
  show "sorted_al (index_entries x)" using wf_tree_sorted [OF wf] by (simp add: index_entries_def)
  show "IndexGet x k
      = Some (case map_of (index_entries x) k of None \<Rightarrow> Inl ErrNotFound | Some r \<Rightarrow> Inr r)"
    using Get_correct [OF wf]
    by (simp add: IndexGet_def index_entries_def lookup_def split: option.split)
  show "index_scan x from to = Some (filter (in_range from to) (index_entries x))"
    using Scan_drain [OF wf] by (simp add: index_scan_def IndexScan_def index_entries_def)
  show "\<exists>x'. IndexPut x k r = Some (None, x') \<and> index_inv x'
      \<and> index_entries x' = upd_al k r (index_entries x)"
    using Put_correct [OF wf, of k r]
    by (force simp: IndexPut_def index_inv_def index_entries_def)
  show "\<exists>x'. IndexDelete x k
        = Some (if k \<in> fst ` set (index_entries x) then None else Some ErrNotFound, x')
      \<and> index_inv x' \<and> index_entries x' = del_al k (index_entries x)"
    using Delete_correct [OF wf, of k]
    by (force simp: IndexDelete_def index_inv_def index_entries_def)
qed

lemma NewIndex_inv: "NewIndex ord = Inr x \<Longrightarrow> index_inv x \<and> index_entries x = []"
  using NewTree_wf [of ord]
  by (auto simp: NewIndex_def NewTree_def index_inv_def index_entries_def tree_entries_def
      emptyLeaf_def split: sum.splits if_splits)

section \<open>Height\<close>

lemma wfcs_all: "wfcs mx mn h lo hi ks cs \<Longrightarrow> c \<in> set cs \<Longrightarrow> \<exists>l u. wfn mx mn mn h l u c"
proof (induction cs arbitrary: lo ks)
  case (Cons x cs)
  have x: "wfn mx mn mn h lo (headb hi ks) x" "wfr mx mn h hi ks cs"
    using Cons.prems(1) by (simp_all only: wfcs_at)
  show ?case
  proof (cases "c = x")
    case False
    then have "c \<in> set cs" using Cons.prems(2) by simp
    then show ?thesis using Cons.IH x(2) by (cases ks) auto
  qed (use x in blast)
qed simp

lemma sum_list_bounds:
  "(\<And>x. x \<in> set xs \<Longrightarrow> a \<le> f x \<and> f x \<le> (b :: nat)) \<Longrightarrow>
   length xs * a \<le> sum_list (map f xs) \<and> sum_list (map f xs) \<le> length xs * b"
  by (induction xs) (auto simp: add_mono)

lemma wfn_size:
  "wfn mx mn own h lo hi n \<Longrightarrow>
   (if h = 0 then own else (own + 1) * (mn + 1) ^ (h - 1) * mn) \<le> length (entries n)
   \<and> length (entries n) \<le> mx * (mx + 1) ^ h"
proof (induction n arbitrary: own h lo hi)
  case (Inner ks cs)
  have h: "h \<noteq> 0" and len: "own \<le> length ks" "length ks \<le> mx"
    and w: "wfcs mx mn (h - 1) lo hi ks cs" using Inner.prems by auto
  have n: "length cs = length ks + 1" using wfcs_length [OF w] by simp
  let ?a = "(mn + 1) ^ (h - 1) * mn" and ?b = "mx * (mx + 1) ^ (h - 1)"
  have "?a \<le> length (entries c) \<and> length (entries c) \<le> ?b" if c: "c \<in> set cs" for c
  proof -
    have e: "(if h - 1 = 0 then mn else (mn + 1) * (mn + 1) ^ (h - 1 - 1) * mn) = ?a"
      by (cases "h - 1") simp_all
    obtain l u where "wfn mx mn mn (h - 1) l u c" using wfcs_all [OF w c] by blast
    from Inner.IH [OF c this] show ?thesis unfolding e .
  qed
  then have b: "length cs * ?a \<le> length (entries (Inner ks cs))"
    "length (entries (Inner ks cs)) \<le> length cs * ?b"
    using sum_list_bounds [of cs ?a "\<lambda>c. length (entries c)" ?b]
    by (simp_all add: length_concat comp_def)
  have "(own + 1) * ?a \<le> length cs * ?a" using n len by (intro mult_le_mono1) simp
  moreover have "length cs * ?b \<le> (mx + 1) * ?b" using n len by (intro mult_le_mono1) simp
  moreover have "(mx + 1) * ?b = mx * (mx + 1) ^ h"
    using h by (cases h) (simp_all add: algebra_simps)
  ultimately show ?case using b h by (simp only: if_False mult.assoc) linarith
qed simp

lemma height_loop_correct: "wfn mx mn own h lo hi n \<Longrightarrow> height_loop n = Some (int h + 1)"
proof (induction n arbitrary: own h lo hi)
  case (Inner ks cs)
  then obtain c cs' where cs: "cs = c # cs'" by (cases cs) auto
  then have "wfn mx mn mn (h - 1) lo (headb hi ks) c" "h \<noteq> 0"
    using Inner.prems by (auto simp only: wfn.simps wfcs_at)
  then show ?case using Inner.IH [of c] cs by simp
qed simp

section \<open>Properties\<close>

definition tree_map :: "Tree \<Rightarrow> (key \<rightharpoonup> RowID)" where
  "tree_map t = map_of (tree_entries t)"

text \<open>A tree of order 3 with three leaves, for the witnesses.\<close>

definition exRow :: "nat \<Rightarrow> RowID" where
  "exRow n = \<lparr>Page = word_of_nat n, Slot = 0\<rparr>"

definition exTree :: Tree where
  "exTree = \<lparr>root = Some (Inner [[2], [4]]
       [Leaf 0 [[1]] [exRow 1] (Some 2), Leaf 2 [[2], [3]] [exRow 2, exRow 3] (Some 1),
        Leaf 1 [[4]] [exRow 4] None]),
     order = 3, maxKeys = 2, minKeys = 1, count = 4, stats = zeroStats, fresh = 3\<rparr>"

lemma exTree_wf: "wf_tree exTree"
  by (simp add: wf_tree_def exTree_def sized_def tree_entries_def wf_root_def root_min_def chain_ok_def)

text \<open>Claim C5.  \<open>Put\<close> on a sound tree (of any order, also the zero \<open>Tree\<close>) does not panic, leaves
  a sound tree, and changes the map from keys to rows at that key only; the stored entries stay the
  sorted list of the map and \<open>Len\<close> grows by one exactly when the key was new.\<close>

theorem tree_put:
  assumes "wf_tree t"
  shows "\<exists>t'. Put t key rid = Some t' \<and> wf_tree t' \<and> tree_map t' = (tree_map t)(key \<mapsto> rid)
    \<and> tree_entries t' = upd_al key rid (tree_entries t)
    \<and> Len t' = Len t + (if tree_map t key = None then 1 else 0) \<and> Order t' = Order t"
proof -
  obtain t' where t': "Put t key rid = Some t'" "wf_tree t'"
    "tree_entries t' = upd_al key rid (tree_entries t)" "order t' = Order t"
    using Put_correct [OF assms] by blast
  have "key \<notin> fst ` set (tree_entries t) \<longleftrightarrow> tree_map t key = None"
    by (simp add: tree_map_def map_of_eq_None_iff)
  moreover have "Order t \<noteq> 0"
    using assms by (auto simp: wf_tree_def sized_def Order_def DefaultOrder_def)
  ultimately show ?thesis
    using t' assms length_upd_al [OF wf_tree_sorted [OF assms], of key rid]
    by (auto simp: tree_map_def map_of_upd_al Len_def wf_tree_def Order_def)
qed

theorem tree_put_witness:
  "\<exists>t'. Put exTree [3, 0] (exRow 9) = Some t' \<and> wf_tree t' \<and> Len t' = 5"
  using tree_put [OF exTree_wf, of "[3, 0]" "exRow 9"]
  by (auto simp: tree_map_def exTree_def tree_entries_def Len_def)

text \<open>Claim C6.  \<open>Delete\<close> on a sound tree does not panic and leaves a sound tree without the key and
  with every other entry; it reports whether the key was there, and a tree in which it was not is
  returned unchanged.\<close>

theorem tree_delete:
  assumes "wf_tree t"
  shows "\<exists>t' found. Delete t key = Some (t', found) \<and> wf_tree t'
    \<and> tree_map t' = (tree_map t)(key := None) \<and> tree_entries t' = del_al key (tree_entries t)
    \<and> (found \<longleftrightarrow> tree_map t key \<noteq> None) \<and> (\<not> found \<longrightarrow> t' = t)
    \<and> Len t' = Len t - (if found then 1 else 0) \<and> order t' = order t"
proof -
  obtain t' found where t': "Delete t key = Some (t', found)" "wf_tree t'"
    "tree_entries t' = del_al key (tree_entries t)"
    "found \<longleftrightarrow> key \<in> fst ` set (tree_entries t)" "\<not> found \<longrightarrow> t' = t" "order t' = order t"
    using Delete_correct [OF assms] by blast
  have "key \<notin> fst ` set (tree_entries t) \<longleftrightarrow> tree_map t key = None"
    by (simp add: tree_map_def map_of_eq_None_iff)
  moreover have "Len t' = Len t - (if found then 1 else 0)"
  proof -
    have "length (del_al key (tree_entries t)) + (if found then 1 else 0) = length (tree_entries t)"
      using length_del_al [OF wf_tree_sorted [OF assms], of key] t'(4) by simp
    then show ?thesis using t'(2,3) assms by (simp add: Len_def wf_tree_def split: if_splits)
  qed
  ultimately show ?thesis
    using t' by (intro exI [of _ t'] exI [of _ found]) (auto simp: tree_map_def map_of_del_al)
qed

theorem tree_delete_witness:
  "\<exists>t'. Delete exTree [4] = Some (t', True) \<and> wf_tree t' \<and> Len t' = 3"
  using tree_delete [OF exTree_wf, of "[4]"]
  by (auto simp: tree_map_def exTree_def tree_entries_def Len_def)

text \<open>Claim C1.  A tree that starts empty and sees any sequence of insertions and deletions through
  the index interface answers every lookup, every range scan and \<open>Len\<close> as the map that saw the same
  sequence; no step panics, whatever the keys.\<close>

theorem index_runs_as_map:
  assumes "NewIndex ord = Inr x"
  shows "\<exists>x'. run_ops IndexPut IndexDelete x ops = Some x' \<and> index_inv x'
    \<and> Len (tree x') = int (card (dom (run_map Map.empty ops)))
    \<and> (\<forall>k. IndexGet x' k = Some (case run_map Map.empty ops k of
            None \<Rightarrow> Inl ErrNotFound | Some r \<Rightarrow> Inr r))
    \<and> (\<forall>from to. \<exists>es. index_scan x' from to = Some es \<and> sorted_al es
        \<and> (\<forall>k r. (k, r) \<in> set es \<longleftrightarrow> in_range from to (k, r) \<and> run_map Map.empty ops k = Some r))"
proof -
  have x: "index_inv x" "map_of (index_entries x) = Map.empty" using NewIndex_inv [OF assms] by simp_all
  obtain x' where x': "run_ops IndexPut IndexDelete x ops = Some x'" "index_inv x'"
    "map_of (index_entries x') = run_map Map.empty ops"
    using bt.run_refines [OF x(1), of ops] x(2) by auto
  have "sorted_al (index_entries x')" using bt.ents_sorted [OF x'(2)] .
  then have d: "distinct (map fst (index_entries x'))" by (simp add: strict_sorted_iff)
  have "card (dom (run_map Map.empty ops)) = length (index_entries x')"
    using distinct_card [OF d] unfolding x'(3) [symmetric] dom_map_of_conv_image_fst by simp
  then have "Len (tree x') = int (card (dom (run_map Map.empty ops)))"
    using x'(2) by (simp add: Len_def index_inv_def wf_tree_def index_entries_def)
  then show ?thesis
    using bt.run_reads [OF x(1), of ops] x(2) x'(1,2) by auto
qed

theorem index_runs_as_map_witness:
  "\<exists>x x'. NewIndex 3 = Inr x
    \<and> run_ops IndexPut IndexDelete x [OpPut [1] zeroRowID, OpPut [2] (exRow 2), OpDelete [1]] = Some x'
    \<and> IndexGet x' [2] = Some (Inr (exRow 2)) \<and> IndexGet x' [1] = Some (Inl ErrNotFound)
    \<and> Len (tree x') = 1"
proof -
  obtain x where x: "NewIndex 3 = Inr x" by (simp add: NewIndex_def NewTree_def MinOrder_def)
  show ?thesis
    using index_runs_as_map [OF x, of "[OpPut [1] zeroRowID, OpPut [2] (exRow 2), OpDelete [1]]"] x
    by fastforce
qed

text \<open>Claim C7.  A range scan of a sound tree, drained, delivers exactly the entries with
  \<open>from \<le> key < to\<close>, each once and in key order; without an upper bound it runs to the end.
  In particular the loop of \<open>Next\<close> over the leaf chain ends.\<close>

theorem tree_scan:
  assumes "wf_tree t"
  shows "\<exists>it. Scan t from to = Some it
    \<and> drain t it = Some (filter (in_range from to) (tree_entries t))
    \<and> sorted_al (filter (in_range from to) (tree_entries t))"
proof -
  have "sorted_al (filter (in_range from to) (tree_entries t))"
    using wf_tree_sorted [OF assms] by (simp add: sorted_wrt_map sorted_wrt_filter)
  then show ?thesis using Scan_drain [OF assms, of "from" to] by (auto simp: bind_eq_Some_conv)
qed

theorem tree_scan_witness:
  "\<exists>it. Scan exTree [2] (Some [4]) = Some it \<and> drain exTree it = Some [([2], exRow 2), ([3], exRow 3)]"
  using tree_scan [OF exTree_wf, of "[2]" "Some [4]"]
  by (simp add: exTree_def tree_entries_def in_range_def)

text \<open>Claim C9.  The iterator is a cursor: on a tree whose leaves are chained and an iterator at a
  position with the entries \<open>es\<close> still ahead, \<open>Next\<close> returns false for good when nothing is ahead or
  the first entry is at or past the upper bound, and otherwise exposes that entry and moves to the
  position with one entry less ahead.\<close>

theorem iterator_is_cursor:
  assumes "chained t" "at t it es"
  shows "case es of
      [] \<Rightarrow> \<exists>it'. Next t it = Some (it', False) \<and> Next t it' = Some (it', False)
    | e # es' \<Rightarrow>
        if past (it_to it) (fst e) then \<exists>it'. Next t it = Some (it', False) \<and> Next t it' = Some (it', False)
        else \<exists>it'. Next t it = Some (it', True) \<and> (it_key it', it_rid it') = e
          \<and> it_to it' = it_to it \<and> at t it' es'"
proof -
  have idle: "Next t it' = Some (it', False)" if "it_done it'" for it' using that by (simp add: Next_def)
  show ?thesis
  proof (cases es)
    case Nil
    then show ?thesis using Next_correct [OF assms] idle by auto
  next
    case (Cons e es')
    then show ?thesis using Next_correct [OF assms] idle by (auto split: if_splits)
  qed
qed

theorem iterator_is_cursor_witness:
  "\<exists>it'. Next exTree \<lparr>it_n = Some 0, it_i = 1, it_to = None, it_key = [], it_rid = zeroRowID,
      it_done = False\<rparr> = Some (it', True) \<and> it_key it' = [2]"
proof -
  let ?it = "\<lparr>it_n = Some 0, it_i = 1, it_to = None, it_key = [], it_rid = zeroRowID, it_done = False\<rparr>"
  have "at exTree ?it [([2], exRow 2), ([3], exRow 3), ([4], exRow 4)]"
    unfolding at_def rest_def
    by (auto simp: exTree_def leaves_def intro!: exI [of _ "[]"])
  from iterator_is_cursor [OF wf_tree_chained [OF exTree_wf] this] show ?thesis
    by (auto simp: past_def)
qed

text \<open>Claim C8.  \<open>Validate\<close> never panics, and on a tree of a legal order whose leaves have distinct
  addresses it accepts, together with a correct counter, exactly the sound trees: the checker is
  neither too weak nor too strict.\<close>

theorem validate_exact:
  assumes "sized t" "pointers_ok t"
  shows "(\<exists>r. Validate t = Some r)
    \<and> ((Validate t = Some (Inr ()) \<and> count t = int (length (tree_entries t))) \<longleftrightarrow> wf_tree t)"
  using Validate_total Validate_wf [OF assms] by blast

theorem validate_exact_witness: "Validate exTree = Some (Inr ())"
proof -
  have "sized exTree" "pointers_ok exTree"
    by (simp_all add: exTree_def sized_def pointers_ok_def)
  then show ?thesis using validate_exact exTree_wf by blast
qed

text \<open>Claim C10.  The tree is balanced: every leaf is at the depth \<open>Height\<close> reports, and a tree of
  height \<open>h + 1\<close> holds at least \<open>2 * (minKeys + 1) ^ (h - 1) * minKeys\<close> entries when \<open>h > 0\<close> and at
  most \<open>maxKeys * (maxKeys + 1) ^ h\<close>, so the height is logarithmic in \<open>Len\<close>.\<close>

theorem height_logarithmic:
  assumes "wf_tree t" "root t = Some n"
  shows "\<exists>h. Height t = Some (int h + 1)
    \<and> (0 < h \<longrightarrow> int (2 * (minKeys t + 1) ^ (h - 1) * minKeys t) \<le> Len t)
    \<and> Len t \<le> int (maxKeys t * (maxKeys t + 1) ^ h)"
proof -
  let ?h = "node_height n"
  have w: "wfn (maxKeys t) (minKeys t) (root_min n) ?h None None n"
    and c: "count t = int (length (entries n))"
    using assms by (simp_all add: wf_tree_def wf_root_def tree_entries_def)
  have "0 < ?h \<Longrightarrow> root_min n = 1" using wfn_leaf [OF w] by (simp add: root_min_def)
  then show ?thesis
    using wfn_size [OF w] height_loop_correct [OF w] assms(2) c
    by (intro exI [of _ ?h]) (auto simp: Height_def Len_def mult_2 simp del: of_nat_mult of_nat_power)
qed

theorem height_logarithmic_witness:
  "\<exists>h. Height exTree = Some (int h + 1)
    \<and> (0 < h \<longrightarrow> int (2 * 2 ^ (h - 1)) \<le> Len exTree) \<and> Len exTree \<le> int (2 * 3 ^ h)"
proof -
  obtain n where n: "root exTree = Some n" by (simp add: exTree_def)
  from height_logarithmic [OF exTree_wf n] show ?thesis by (simp add: exTree_def)
qed

end
