(* ===== verification/Device.thy ===== *)
theory Device
  imports Prelude
begin

text \<open>
  Package \<open>fileio\<close>: the file a store lives in.  \<open>OSFile\<close> forwards to the operating system, which
  the model describes as the repository's documentation does: reads see the page cache (\<open>live\<close>),
  a power part leaves what the drive holds (\<open>disk\<close>) plus any part of the writes that no fsync has
  confirmed (\<open>wlog\<close>), one 512-byte sector being written entirely or not at all, and a failed fsync
  persists some of those sectors and forgets the others.  Which calls fail is the schedule
  \<open>sched\<close>, consumed one outcome per call; theorems quantify over it.
\<close>

section \<open>The device\<close>

datatype io_error = EOF | UnexpectedEOF | EIO | EClosed

text \<open>\<open>Fail part kept\<close>: the call fails; a failing write has still written its first \<open>part\<close>
  sectors, a failing read delivers \<open>part\<close> bytes, and a failing fsync has persisted sector \<open>k\<close> of the
  \<open>i\<close>-th unconfirmed write when \<open>kept i k\<close>.\<close>

datatype fault = Succeed | Fail nat "nat \<Rightarrow> nat \<Rightarrow> bool"

type_synonym logged = "nat \<times> bytes"

record Dev =
  live :: bytes
  disk :: bytes
  wlog :: "logged list"
  sched :: "fault list"
  dev_closed :: bool

definition emptyDev :: "fault list \<Rightarrow> Dev" where
  "emptyDev sc = \<lparr>live = [], disk = [], wlog = [], sched = sc, dev_closed = False\<rparr>"

definition next_fault :: "Dev \<Rightarrow> fault \<times> Dev" where
  "next_fault d = (case sched d of [] \<Rightarrow> (Succeed, d) | f # fs \<Rightarrow> (f, d\<lparr>sched := fs\<rparr>))"

text \<open>Writing past the end extends the file with zeros.\<close>

definition write_into :: "bytes \<Rightarrow> nat \<Rightarrow> bytes \<Rightarrow> bytes" where
  "write_into img off p = overwrite off p (img @ replicate (off + length p - length img) 0)"

definition masked :: "(nat \<Rightarrow> bool) \<Rightarrow> bytes \<Rightarrow> nat \<Rightarrow> bytes \<Rightarrow> bytes" where
  "masked keep img off p =
     map (\<lambda>j. if keep (j div 512) then p ! j
              else if off + j < length img then img ! (off + j) else 0) [0..<length p]"

fun apply_write :: "(nat \<Rightarrow> bool) \<Rightarrow> logged \<Rightarrow> bytes \<Rightarrow> bytes" where
  "apply_write keep (off, p) img =
     (if \<exists>j < length p. keep (j div 512) then write_into img off (masked keep img off p) else img)"

fun apply_log :: "(nat \<Rightarrow> nat \<Rightarrow> bool) \<Rightarrow> nat \<Rightarrow> logged list \<Rightarrow> bytes \<Rightarrow> bytes" where
  "apply_log kept i [] img = img"
| "apply_log kept i (w # ws) img = apply_log kept (Suc i) ws (apply_write (kept i) w img)"

definition all_kept :: "nat \<Rightarrow> nat \<Rightarrow> bool" where
  "all_kept i k = True"

definition log_write :: "Dev \<Rightarrow> nat \<Rightarrow> bytes \<Rightarrow> Dev" where
  "log_write d off p = d\<lparr>live := write_into (live d) off p, wlog := wlog d @ [(off, p)]\<rparr>"

section \<open>\<open>fileio.File\<close>\<close>

definition ReadAt :: "Dev \<Rightarrow> nat \<Rightarrow> nat \<Rightarrow> bytes \<times> io_error option \<times> Dev" where
  "ReadAt d n off =
     (if dev_closed d then ([], Some EClosed, d)
      else
        (let b = subslice off n (live d) in
         case next_fault d of
           (Fail part kept, d) \<Rightarrow> (take part b, Some EIO, d)
         | (Succeed, d) \<Rightarrow> (b, if length b < n then Some EOF else None, d)))"

definition WriteAt :: "Dev \<Rightarrow> bytes \<Rightarrow> nat \<Rightarrow> io_error option \<times> Dev" where
  "WriteAt d p off =
     (if dev_closed d then (Some EClosed, d)
      else
        (case next_fault d of
           (Fail part kept, d) \<Rightarrow> (Some EIO, if part = 0 then d else log_write d off (take (512 * part) p))
         | (Succeed, d) \<Rightarrow> (None, log_write d off p)))"

definition SyncFile :: "Dev \<Rightarrow> io_error option \<times> Dev" where
  "SyncFile d =
     (if dev_closed d then (Some EClosed, d)
      else
        (case next_fault d of
           (Fail part kept, d) \<Rightarrow> (Some EIO, d\<lparr>disk := apply_log kept 0 (wlog d) (disk d), wlog := []\<rparr>)
         | (Succeed, d) \<Rightarrow> (None, d\<lparr>disk := apply_log all_kept 0 (wlog d) (disk d), wlog := []\<rparr>)))"

definition SizeFile :: "Dev \<Rightarrow> (io_error + nat) \<times> Dev" where
  "SizeFile d =
     (if dev_closed d then (Inl EClosed, d)
      else
        (case next_fault d of
           (Fail part kept, d) \<Rightarrow> (Inl EIO, d)
         | (Succeed, d) \<Rightarrow> (Inr (length (live d)), d)))"

definition CloseFile :: "Dev \<Rightarrow> io_error option \<times> Dev" where
  "CloseFile d =
     (if dev_closed d then (Some EClosed, d)
      else
        (case next_fault d of
           (Fail part kept, d) \<Rightarrow> (Some EIO, d\<lparr>dev_closed := True\<rparr>)
         | (Succeed, d) \<Rightarrow> (None, d\<lparr>dev_closed := True\<rparr>)))"

text \<open>What can happen to the file while no process has it open: a power loss, which leaves what the
  drive holds with any sectors of the unconfirmed writes; the end of the process, which leaves the
  page cache as it is, unconfirmed writes included; and the eviction of clean pages from the cache,
  after which a read sees the drive's bytes.\<close>

definition power_loss :: "(nat \<Rightarrow> nat \<Rightarrow> bool) \<Rightarrow> fault list \<Rightarrow> Dev \<Rightarrow> Dev" where
  "power_loss kept sc d =
     (let img = apply_log kept 0 (wlog d) (disk d)
      in \<lparr>live = img, disk = img, wlog = [], sched = sc, dev_closed = False\<rparr>)"

definition restart :: "fault list \<Rightarrow> Dev \<Rightarrow> Dev" where
  "restart sc d = d\<lparr>sched := sc, dev_closed := False\<rparr>"

section \<open>Pages of an image\<close>

definition page_of :: "bytes \<Rightarrow> nat \<Rightarrow> bytes" where
  "page_of img i = subslice (4096 * i) 4096 img"

definition has_page :: "bytes \<Rightarrow> nat \<Rightarrow> bool" where
  "has_page img i \<longleftrightarrow> 4096 * (i + 1) \<le> length img"

definition avoids :: "logged \<Rightarrow> nat \<Rightarrow> bool" where
  "avoids w i \<longleftrightarrow> fst w + length (snd w) \<le> 4096 * i \<or> 4096 * (i + 1) \<le> fst w"

lemma length_page_of [simp]: "has_page img i \<Longrightarrow> length (page_of img i) = 4096"
  by (simp add: page_of_def has_page_def)

lemma length_write_into: "length (write_into img off p) = max (length img) (off + length p)"
  by (simp add: write_into_def)

lemma length_masked [simp]: "length (masked keep img off p) = length p"
  by (simp add: masked_def)

lemma has_page_write_into: "has_page img i \<Longrightarrow> has_page (write_into img off p) i"
  by (simp add: has_page_def length_write_into)

lemma subslice_append: "off + n \<le> length xs \<Longrightarrow> subslice off n (xs @ ys) = subslice off n xs"
  by (simp add: subslice_def)

lemma page_of_write_into_other:
  assumes "avoids (off, p) i" "has_page img i"
  shows "page_of (write_into img off p) i = page_of img i"
proof -
  let ?img = "img @ replicate (off + length p - length img) 0"
  have "page_of (write_into img off p) i = subslice (4096 * i) 4096 ?img"
    unfolding page_of_def write_into_def
    using assms by (auto simp: avoids_def has_page_def slice_simps)
  then show ?thesis using assms(2) by (simp add: page_of_def has_page_def subslice_append)
qed

lemma page_of_write_into_same:
  "length p = 4096 \<Longrightarrow> page_of (write_into img (4096 * i) p) i = p"
  by (simp add: page_of_def write_into_def slice_simps)

lemma has_page_write_into_same: "length p = 4096 \<Longrightarrow> has_page (write_into img (4096 * i) p) i"
  by (simp add: has_page_def length_write_into)

lemma apply_write_other:
  "avoids w i \<Longrightarrow> has_page img i \<Longrightarrow>
   has_page (apply_write keep w img) i \<and> page_of (apply_write keep w img) i = page_of img i"
  by (cases w) (simp add: has_page_write_into page_of_write_into_other avoids_def)

lemma apply_log_other:
  "\<forall>w \<in> set ws. avoids w i \<Longrightarrow> has_page img i \<Longrightarrow>
   has_page (apply_log kept n ws img) i \<and> page_of (apply_log kept n ws img) i = page_of img i"
proof (induction ws arbitrary: n img)
  case (Cons w ws)
  then show ?case using apply_write_other [of w i img "kept n"] by simp
qed simp

lemma length_apply_log: "length img \<le> length (apply_log kept n ws img)"
proof (induction ws arbitrary: n img)
  case (Cons w ws)
  have "length img \<le> length (apply_write (kept n) w img)"
    by (cases w) (simp add: length_write_into)
  then show ?case using Cons [of "apply_write (kept n) w img" "Suc n"] by simp
qed simp

lemma masked_all [simp]: "masked (all_kept n) img off p = p"
  by (simp add: masked_def all_kept_def map_nth)

lemma apply_log_all_snoc:
  "apply_log all_kept n (ws @ [(off, p)]) img
     = (if p = [] then apply_log all_kept n ws img
        else write_into (apply_log all_kept n ws img) off p)"
  by (induction ws arbitrary: n img) (auto simp: all_kept_def)

end
