(* ===== verification/PageFile.thy ===== *)
theory PageFile
  imports Pages Device
begin

text \<open>
  Package \<open>page\<close>, the page file (\<open>page.File\<close> in \<open>page.go\<close>): pages read, written and grown at
  their offsets of a file, and what each call leaves alone on the device.  A method of \<open>*File\<close>
  threads the device.
\<close>

section \<open>The code\<close>

datatype file_error = FileIO io_error | ErrShortRead | ErrPageLength nat

definition PageCount :: "Dev \<Rightarrow> (file_error + u32) \<times> Dev" where
  "PageCount d =
     (case SizeFile d of
        (Inl e, d) \<Rightarrow> (Inl (FileIO e), d)
      | (Inr sz, d) \<Rightarrow> (Inr (word_of_nat (min (sz div PageSize) 0xFFFFFFFF)), d))"

definition ReadPage :: "Dev \<Rightarrow> PageID \<Rightarrow> (file_error + Page) \<times> Dev" where
  "ReadPage d i =
     (case ReadAt d PageSize (Offset i) of
        (b, err, d) \<Rightarrow>
          (case err of
             Some e \<Rightarrow> if length b \<noteq> PageSize then (Inl (FileIO e), d) else (Inr b, d)
           | None \<Rightarrow> if length b \<noteq> PageSize then (Inl ErrShortRead, d) else (Inr b, d)))"

definition WritePage :: "Dev \<Rightarrow> Page \<Rightarrow> file_error option \<times> Dev" where
  "WritePage d p =
     (if length p \<noteq> PageSize then (Some (ErrPageLength (length p)), d)
      else case WriteAt d p (Offset (ID p)) of
             (Some e, d) \<Rightarrow> (Some (FileIO e), d)
           | (None, d) \<Rightarrow> (None, d))"

definition growPiece :: u32 where "growPiece = 256"

lemma grow_step:
  assumes "at < to"
  shows "unat (min (to - at) growPiece) = min (unat to - unat at) 256"
    "unat (at + min (to - at) growPiece) = unat at + min (unat to - unat at) 256"
    "at + min (to - at) growPiece \<le> to"
proof -
  have lt: "unat at < unat to" using assms by (simp add: word_less_nat_alt)
  have d: "unat (to - at) = unat to - unat at" using assms by (simp add: unat_sub less_imp_le)
  show m: "unat (min (to - at) growPiece) = min (unat to - unat at) 256"
    unfolding min_def word_le_nat_alt d by (simp add: growPiece_def d)
  have "unat at + unat (min (to - at) growPiece) < 2 ^ LENGTH(32)"
    using lt unat_u32 [of to] unfolding m by simp
  then show a: "unat (at + min (to - at) growPiece) = unat at + min (unat to - unat at) 256"
    using unat_add_lem [of at "min (to - at) growPiece"] m by simp
  show "at + min (to - at) growPiece \<le> to"
    unfolding word_le_nat_alt a using lt by simp
qed

lemma grow_step_less:
  "at < to \<Longrightarrow> unat (to - (at + min (to - at) growPiece)) < unat (to - at)"
  using grow_step [of at to] by (simp add: unat_sub word_less_nat_alt less_imp_le) arith

text \<open>The loop of \<open>Grow\<close>: zeros from page \<open>at\<close> up to page \<open>to\<close>, at most 256 pages a write.\<close>

function grow_loop :: "Dev \<Rightarrow> u32 \<Rightarrow> u32 \<Rightarrow> file_error option \<times> Dev" where
  "grow_loop d at to =
     (if at < to then
        (let step = min (to - at) growPiece in
         case WriteAt d (replicate (unat step * PageSize) 0) (Offset at) of
           (Some e, d) \<Rightarrow> (Some (FileIO e), d)
         | (None, d) \<Rightarrow> grow_loop d (at + step) to)
      else (None, d))"
  by pat_completeness auto
termination
  by (relation "measure (\<lambda>(d, at, to). unat (to - at))") (auto simp: grow_step_less)

declare grow_loop.simps [simp del]

definition Grow :: "Dev \<Rightarrow> u32 \<Rightarrow> u32 \<Rightarrow> file_error option \<times> Dev" where
  "Grow d from to = (if to \<le> from then (None, d) else grow_loop d from to)"

definition AllocatePage :: "Dev \<Rightarrow> Kind \<Rightarrow> (file_error + Page) \<times> Dev" where
  "AllocatePage d kind =
     (case PageCount d of
        (Inl e, d) \<Rightarrow> (Inl e, d)
      | (Inr n, d) \<Rightarrow>
          (let p = NewPage n kind in
           case WritePage d p of
             (Some e, d) \<Rightarrow> (Inl e, d)
           | (None, d) \<Rightarrow> (Inr p, d)))"

definition SyncPages :: "Dev \<Rightarrow> file_error option \<times> Dev" where
  "SyncPages d = (case SyncFile d of (Some e, d) \<Rightarrow> (Some (FileIO e), d) | (None, d) \<Rightarrow> (None, d))"

definition ClosePages :: "Dev \<Rightarrow> file_error option \<times> Dev" where
  "ClosePages d = (case CloseFile d of (Some e, d) \<Rightarrow> (Some (FileIO e), d) | (None, d) \<Rightarrow> (None, d))"


section \<open>What the calls leave alone\<close>

text \<open>The image the drive would hold after a fsync that succeeds.\<close>

definition flushed :: "Dev \<Rightarrow> bytes" where
  "flushed d = apply_log all_kept 0 (wlog d) (disk d)"

definition clean :: "Dev \<Rightarrow> nat \<Rightarrow> bool" where
  "clean d i \<longleftrightarrow> (\<forall>w \<in> set (wlog d). avoids w i)"

definition same_page :: "nat \<Rightarrow> bytes \<Rightarrow> bytes \<Rightarrow> bool" where
  "same_page i img img' \<longleftrightarrow> (has_page img i \<longrightarrow> has_page img' i \<and> page_of img' i = page_of img i)"

text \<open>A page agrees when a fsync would make the drive hold what readers see, and is stable when the
  drive holds it already, whatever happens to the unconfirmed writes.\<close>

definition agree :: "Dev \<Rightarrow> nat \<Rightarrow> bool" where
  "agree d i \<longleftrightarrow>
     has_page (live d) i \<and> has_page (flushed d) i \<and> page_of (flushed d) i = page_of (live d) i"

definition stable :: "Dev \<Rightarrow> nat \<Rightarrow> bool" where
  "stable d i \<longleftrightarrow>
     has_page (live d) i \<and> has_page (disk d) i \<and> page_of (disk d) i = page_of (live d) i \<and> clean d i"

text \<open>\<open>frame P d d'\<close>: from \<open>d\<close> to \<open>d'\<close>, whatever failed, nothing wrote into the pages \<open>P\<close> and the
  file did not shrink.  \<open>progress P d d'\<close>: besides, no fsync failed, so nothing was lost.\<close>

definition frame :: "nat set \<Rightarrow> Dev \<Rightarrow> Dev \<Rightarrow> bool" where
  "frame P d d' \<longleftrightarrow>
     length (live d) \<le> length (live d') \<and> length (disk d) \<le> length (disk d')
     \<and> (\<forall>i \<in> P. same_page i (live d) (live d')
          \<and> (clean d i \<longrightarrow> clean d' i \<and> same_page i (disk d) (disk d')))"

definition progress :: "nat set \<Rightarrow> Dev \<Rightarrow> Dev \<Rightarrow> bool" where
  "progress P d d' \<longleftrightarrow>
     frame P d d' \<and> length (flushed d) \<le> length (flushed d') \<and> (\<forall>i. agree d i \<longrightarrow> agree d' i)"

lemma same_page_refl [simp]: "same_page i img img"
  by (simp add: same_page_def)

lemma same_page_trans: "same_page i a b \<Longrightarrow> same_page i b c \<Longrightarrow> same_page i a c"
  by (simp add: same_page_def)

lemma frame_refl [simp]: "frame P d d"
  by (simp add: frame_def)

lemma frame_trans: "frame P a b \<Longrightarrow> frame P b c \<Longrightarrow> frame P a c"
  unfolding frame_def using same_page_trans le_trans by meson

lemma frame_mono: "frame P d d' \<Longrightarrow> Q \<subseteq> P \<Longrightarrow> frame Q d d'"
  unfolding frame_def by blast

lemma progress_refl [simp]: "progress P d d"
  by (simp add: progress_def)

lemma progress_trans: "progress P a b \<Longrightarrow> progress P b c \<Longrightarrow> progress P a c"
  unfolding progress_def using frame_trans le_trans by meson

lemma progress_mono: "progress P d d' \<Longrightarrow> Q \<subseteq> P \<Longrightarrow> progress Q d d'"
  unfolding progress_def using frame_mono by blast

lemma progress_frame: "progress P d d' \<Longrightarrow> frame P d d'"
  by (simp add: progress_def)

lemma progress_agree: "progress P d d' \<Longrightarrow> agree d i \<Longrightarrow> agree d' i"
  by (simp add: progress_def)

lemma frame_live:
  "frame P d d' \<Longrightarrow> i \<in> P \<Longrightarrow> has_page (live d) i \<Longrightarrow>
   has_page (live d') i \<and> page_of (live d') i = page_of (live d) i"
  by (simp add: frame_def same_page_def)

lemma frame_stable: "frame P d d' \<Longrightarrow> i \<in> P \<Longrightarrow> stable d i \<Longrightarrow> stable d' i"
  by (simp add: frame_def stable_def same_page_def)

lemma frame_length:
  "frame P d d' \<Longrightarrow> n \<le> length (live d) \<Longrightarrow> n \<le> length (live d')"
  "frame P d d' \<Longrightarrow> n \<le> length (disk d) \<Longrightarrow> n \<le> length (disk d')"
  by (simp_all add: frame_def)

lemma flushed_page: "stable d i \<Longrightarrow> has_page (flushed d) i \<and> page_of (flushed d) i = page_of (disk d) i"
  by (simp add: stable_def clean_def flushed_def apply_log_other)

lemma stable_agree: "stable d i \<Longrightarrow> agree d i"
  using flushed_page [of d i] by (simp add: stable_def agree_def)

text \<open>What a crash leaves: a stable page survives every power loss.\<close>

lemma stable_survives:
  "stable d i \<Longrightarrow> has_page (live (power_loss kept sc d)) i
     \<and> page_of (live (power_loss kept sc d)) i = page_of (live d) i"
  by (simp add: stable_def clean_def power_loss_def Let_def apply_log_other)

lemma stable_power_loss: "stable d i \<Longrightarrow> stable (power_loss kept sc d) i"
  using stable_survives [of d i kept sc]
  by (simp add: stable_def clean_def power_loss_def Let_def)

lemma stable_restart [simp]: "stable (restart sc d) i = stable d i"
  by (simp add: stable_def clean_def restart_def)

section \<open>The effect of each call\<close>

lemma next_fault_device [simp]:
  "live (snd (next_fault d)) = live d" "disk (snd (next_fault d)) = disk d"
  "wlog (snd (next_fault d)) = wlog d" "dev_closed (snd (next_fault d)) = dev_closed d"
  by (simp_all add: next_fault_def split: list.split)

text \<open>Two devices that differ only in the schedule and in being closed.\<close>

definition same_file :: "Dev \<Rightarrow> Dev \<Rightarrow> bool" where
  "same_file d d' \<longleftrightarrow> live d' = live d \<and> disk d' = disk d \<and> wlog d' = wlog d"

lemma same_file_refl [simp]: "same_file d d"
  by (simp add: same_file_def)

lemma same_file_trans: "same_file a b \<Longrightarrow> same_file b c \<Longrightarrow> same_file a c"
  by (simp add: same_file_def)

lemma same_file_progress: "same_file d d' \<Longrightarrow> progress P d d'"
  by (simp add: same_file_def progress_def frame_def agree_def clean_def flushed_def)

lemma next_fault_same:
  obtains f d' where "next_fault d = (f, d')" "same_file d d'"
  using next_fault_device [of d] by (metis prod.collapse same_file_def)

lemma next_fault_eq: "next_fault d = (f, d') \<Longrightarrow> same_file d d'"
  using next_fault_device [of d] by (simp add: same_file_def)

lemma ReadAt_same: "ReadAt d n off = (b, e, d') \<Longrightarrow> same_file d d'"
  by (auto simp: ReadAt_def Let_def next_fault_eq split: if_splits prod.splits fault.splits)

lemma SizeFile_same: "SizeFile d = (r, d') \<Longrightarrow> same_file d d'"
  by (auto simp: SizeFile_def next_fault_eq split: if_splits prod.splits fault.splits)

lemma CloseFile_same: "CloseFile d = (r, d') \<Longrightarrow> same_file d d'"
proof -
  assume r: "CloseFile d = (r, d')"
  obtain f d1 where n: "next_fault d = (f, d1)" "same_file d d1" by (rule next_fault_same)
  then show ?thesis
    using r by (auto simp: CloseFile_def same_file_def split: if_splits fault.splits)
qed

lemma nth_write_into:
  "j < length img \<Longrightarrow> write_into img off p ! j = (if off \<le> j \<and> j < off + length p then p ! (j - off) else img ! j)"
  by (simp add: write_into_def nth_overwrite nth_append)

lemma page_of_eqI:
  assumes "has_page a i" "has_page b i" "\<And>j. 4096 * i \<le> j \<Longrightarrow> j < 4096 * (i + 1) \<Longrightarrow> a ! j = b ! j"
  shows "page_of a i = page_of b i"
  using assms by (auto intro!: nth_equalityI simp: page_of_def has_page_def subslice_nth)

lemma page_of_nth: "has_page img i \<Longrightarrow> j < 4096 \<Longrightarrow> page_of img i ! j = img ! (4096 * i + j)"
  by (simp add: page_of_def has_page_def subslice_nth)

lemma page_of_write_into_cong:
  assumes "has_page a i" "has_page b i" "page_of a i = page_of b i"
  shows "page_of (write_into a off p) i = page_of (write_into b off p) i"
proof (rule page_of_eqI)
  fix j assume j: "4096 * i \<le> j" "j < 4096 * (i + 1)"
  then have "a ! j = b ! j"
    using page_of_nth [OF assms(1), of "j - 4096 * i"] page_of_nth [OF assms(2), of "j - 4096 * i"] assms(3)
    by simp
  then show "write_into a off p ! j = write_into b off p ! j"
    using j assms(1,2) by (simp add: nth_write_into has_page_def)
qed (use assms in \<open>simp_all add: has_page_write_into\<close>)

lemma flushed_log_write:
  "flushed (log_write d off p) = (if p = [] then flushed d else write_into (flushed d) off p)"
  by (simp add: flushed_def log_write_def apply_log_all_snoc)

lemma same_page_write_into: "avoids (off, p) i \<Longrightarrow> same_page i img (write_into img off p)"
  by (simp add: same_page_def has_page_write_into page_of_write_into_other)

lemma log_write_progress:
  assumes "\<And>i. i \<in> P \<Longrightarrow> avoids (off, p) i" "p \<noteq> []"
  shows "progress P d (log_write d off p)"
proof -
  have "frame P d (log_write d off p)"
    using assms by (auto simp: frame_def log_write_def length_write_into clean_def same_page_write_into)
  moreover have "agree d i \<Longrightarrow> agree (log_write d off p) i" for i
    using page_of_write_into_cong [of "flushed d" i "live d" off p] assms(2)
    by (simp add: agree_def flushed_log_write has_page_write_into) (simp add: log_write_def has_page_write_into)
  ultimately show ?thesis
    using assms(2) by (simp add: progress_def flushed_log_write length_write_into)
qed

lemma avoids_take: "avoids (off, p) i \<Longrightarrow> avoids (off, take n p) i"
  by (auto simp: avoids_def min_def)

lemma WriteAt_progress:
  assumes "WriteAt d p off = (e, d')" "\<And>i. i \<in> P \<Longrightarrow> avoids (off, p) i" "p \<noteq> []"
  shows "progress P d d'"
proof (cases "dev_closed d")
  case False
  obtain f d1 where n: "next_fault d = (f, d1)" "same_file d d1" by (rule next_fault_same)
  have "progress P d1 (log_write d1 off p)"
    using assms(2,3) by (rule log_write_progress)
  moreover have "progress P d1 (log_write d1 off (take (512 * m) p))" if "m \<noteq> 0" for m
    using assms(2,3) that avoids_take by (auto intro!: log_write_progress)
  ultimately show ?thesis
    using assms(1) False n progress_trans [OF same_file_progress [OF n(2), of P]]
    by (auto simp: WriteAt_def same_file_progress split: fault.splits if_splits)
qed (use assms in \<open>simp add: WriteAt_def\<close>)

lemma SyncFile_live: "SyncFile d = (e, d') \<Longrightarrow> live d' = live d"
  by (auto simp: SyncFile_def same_file_def dest!: next_fault_eq split: if_splits prod.splits fault.splits)

lemma SyncFile_frame:
  assumes "SyncFile d = (e, d')"
  shows "frame P d d'"
proof (cases "dev_closed d")
  case False
  obtain f d1 where n: "next_fault d = (f, d1)" "same_file d d1" by (rule next_fault_same)
  obtain kept where d': "live d' = live d" "disk d' = apply_log kept 0 (wlog d) (disk d)" "wlog d' = []"
    using assms False n by (auto simp: SyncFile_def same_file_def split: fault.splits)
  show ?thesis
    using d' apply_log_other [of "wlog d"] length_apply_log
    by (auto simp: frame_def clean_def same_page_def)
qed (use assms in \<open>simp add: SyncFile_def\<close>)

lemma SyncFile_done:
  assumes "SyncFile d = (None, d')"
  shows "live d' = live d" "disk d' = flushed d" "wlog d' = []"
proof -
  obtain f d1 where n: "next_fault d = (f, d1)" "same_file d d1" by (rule next_fault_same)
  show "live d' = live d" "disk d' = flushed d" "wlog d' = []"
    using assms n by (auto simp: SyncFile_def same_file_def flushed_def split: if_splits fault.splits)
qed

lemma flushed_empty_log: "wlog d = [] \<Longrightarrow> flushed d = disk d"
  by (simp add: flushed_def)

lemma SyncFile_progress: "SyncFile d = (None, d') \<Longrightarrow> progress P d d'"
  using SyncFile_frame [of d None d' P] SyncFile_done [of d d'] flushed_empty_log [of d']
  by (simp add: progress_def agree_def)

lemma SyncFile_stable: "SyncFile d = (None, d') \<Longrightarrow> agree d i \<Longrightarrow> stable d' i"
  using SyncFile_done [of d d'] by (simp add: agree_def stable_def clean_def)

section \<open>The effect of the page calls\<close>

lemma Offset_page: "Offset i = 4096 * unat i"
  by (simp add: Offset_def)

lemma avoids_page: "length p = 4096 \<Longrightarrow> avoids (Offset i, p) j \<longleftrightarrow> j \<noteq> unat i"
  by (auto simp: avoids_def Offset_page)

lemma ReadPage_same: "ReadPage d i = (r, d') \<Longrightarrow> same_file d d'"
  by (auto simp: ReadPage_def dest: ReadAt_same split: prod.splits option.splits if_splits)

lemma PageCount_same: "PageCount d = (r, d') \<Longrightarrow> same_file d d'"
  by (auto simp: PageCount_def dest: SizeFile_same split: prod.splits sum.splits)

lemma ClosePages_same: "ClosePages d = (r, d') \<Longrightarrow> same_file d d'"
  by (auto simp: ClosePages_def dest: CloseFile_same split: prod.splits option.splits)

lemma ReadAt_data:
  "ReadAt d n off = (b, e, d') \<Longrightarrow> length b = n \<Longrightarrow> 0 < n \<Longrightarrow>
   off + n \<le> length (live d) \<and> b = subslice off n (live d)"
  using next_fault_device(1) [of d]
  by (auto simp: ReadAt_def Let_def subslice_def min_def split: if_splits prod.splits fault.splits)

lemma ReadPage_data:
  assumes "ReadPage d i = (Inr p, d')"
  shows "has_page (live d) (unat i)" "p = page_of (live d) (unat i)" "is_page p"
proof -
  obtain b e d1 where r: "ReadAt d PageSize (Offset i) = (b, e, d1)" by (metis prod_cases3)
  then have b: "length b = PageSize" "b = p"
    using assms by (auto simp: ReadPage_def split: option.splits if_splits)
  then show "has_page (live d) (unat i)" "p = page_of (live d) (unat i)" "is_page p"
    using ReadAt_data [OF r] by (auto simp: has_page_def page_of_def Offset_page is_page_def)
qed

lemma ReadPage_ok:
  "sched d = [] \<Longrightarrow> \<not> dev_closed d \<Longrightarrow> has_page (live d) (unat i) \<Longrightarrow>
   ReadPage d i = (Inr (page_of (live d) (unat i)), d)"
  by (simp add: ReadPage_def ReadAt_def next_fault_def Offset_page page_of_def has_page_def)

lemma PageCount_data:
  assumes "PageCount d = (Inr n, d')"
  shows "unat n = min (length (live d) div 4096) 4294967295"
proof -
  obtain f d1 where n: "next_fault d = (f, d1)" "same_file d d1" by (rule next_fault_same)
  have "n = word_of_nat (min (length (live d) div 4096) 4294967295)"
    using assms n
    by (auto simp: PageCount_def SizeFile_def same_file_def split: if_splits fault.splits)
  then show ?thesis by (simp add: unat_of_nat)
qed

lemma PageCount_ok:
  "sched d = [] \<Longrightarrow> \<not> dev_closed d \<Longrightarrow>
   PageCount d = (Inr (word_of_nat (min (length (live d) div 4096) 4294967295)), d)"
  by (simp add: PageCount_def SizeFile_def next_fault_def)

lemma WriteAt_done:
  assumes "WriteAt d p off = (None, d')"
  shows "live d' = write_into (live d) off p" "wlog d' = wlog d @ [(off, p)]" "disk d' = disk d"
proof -
  obtain f d1 where n: "next_fault d = (f, d1)" "same_file d d1" by (rule next_fault_same)
  show "live d' = write_into (live d) off p" "wlog d' = wlog d @ [(off, p)]" "disk d' = disk d"
    using assms n
    by (auto simp: WriteAt_def log_write_def same_file_def split: if_splits fault.splits)
qed

lemma WriteAt_flushed:
  "WriteAt d p off = (None, d') \<Longrightarrow> p \<noteq> [] \<Longrightarrow> flushed d' = write_into (flushed d) off p"
  using WriteAt_done [of d p off d'] by (simp add: flushed_def apply_log_all_snoc)

lemma WritePage_progress:
  assumes "WritePage d p = (e, d')" "unat (ID p) \<notin> P"
  shows "progress P d d'"
proof (cases "length p = PageSize")
  case True
  obtain e1 where "WriteAt d p (Offset (ID p)) = (e1, d')"
    using assms(1) True by (auto simp: WritePage_def split: prod.splits option.splits)
  moreover have "p \<noteq> []" using True by auto
  ultimately show ?thesis
    using assms(2) True avoids_page by (intro WriteAt_progress) auto
qed (use assms(1) in \<open>simp add: WritePage_def\<close>)

lemma WritePage_done:
  assumes "WritePage d p = (None, d')"
  shows "is_page p" "live d' = write_into (live d) (Offset (ID p)) p"
    "flushed d' = write_into (flushed d) (Offset (ID p)) p"
    "agree d' (unat (ID p))" "page_of (live d') (unat (ID p)) = p"
proof -
  have l: "length p = 4096" and w: "WriteAt d p (Offset (ID p)) = (None, d')"
    using assms by (auto simp: WritePage_def split: if_splits prod.splits option.splits)
  have n: "p \<noteq> []" using l by auto
  note d' = WriteAt_done(1) [OF w] WriteAt_flushed [OF w n]
  show "is_page p" "live d' = write_into (live d) (Offset (ID p)) p"
    "flushed d' = write_into (flushed d) (Offset (ID p)) p"
    "agree d' (unat (ID p))" "page_of (live d') (unat (ID p)) = p"
    using l d' by (simp_all add: is_page_def agree_def Offset_page has_page_write_into_same
        page_of_write_into_same)
qed

lemma WritePage_ok:
  "sched d = [] \<Longrightarrow> \<not> dev_closed d \<Longrightarrow> is_page p \<Longrightarrow>
   WritePage d p = (None, log_write d (Offset (ID p)) p)"
  by (simp add: WritePage_def WriteAt_def next_fault_def is_page_def)

lemma SyncPages_file: "SyncPages d = (e, d') \<Longrightarrow> \<exists>e1. SyncFile d = (e1, d') \<and> (e = None \<longleftrightarrow> e1 = None)"
  by (auto simp: SyncPages_def split: prod.splits option.splits)

lemma SyncPages_frame: "SyncPages d = (e, d') \<Longrightarrow> frame P d d'"
  using SyncPages_file SyncFile_frame by blast

lemma SyncPages_live: "SyncPages d = (e, d') \<Longrightarrow> live d' = live d"
  using SyncPages_file SyncFile_live by blast

lemma SyncPages_done:
  assumes "SyncPages d = (None, d')"
  shows "live d' = live d" "disk d' = flushed d" "wlog d' = []" "progress P d d'"
    "agree d i \<Longrightarrow> stable d' i"
proof -
  have s: "SyncFile d = (None, d')" using SyncPages_file [OF assms] by blast
  show "live d' = live d" "disk d' = flushed d" "wlog d' = []" "progress P d d'"
    "agree d i \<Longrightarrow> stable d' i"
    using SyncFile_done [OF s] SyncFile_progress [OF s] SyncFile_stable [OF s] by simp_all
qed

lemma SyncPages_ok:
  "sched d = [] \<Longrightarrow> \<not> dev_closed d \<Longrightarrow>
   SyncPages d = (None, d\<lparr>disk := flushed d, wlog := []\<rparr>)"
  by (simp add: SyncPages_def SyncFile_def next_fault_def flushed_def)

text \<open>\<open>Grow\<close> touches no page below \<open>from\<close>; when it succeeds, exactly the new pages are zero and the
  file holds them, in the cache and after the next fsync.\<close>

lemma page_of_zeros:
  assumes "n = 4096 * k" "unat i \<le> j" "j < unat i + k"
  shows "has_page (write_into img (Offset i) (replicate n 0)) j"
    "page_of (write_into img (Offset i) (replicate n 0)) j = replicate 4096 0"
proof -
  show h: "has_page (write_into img (Offset i) (replicate n 0)) j"
    using assms by (simp add: has_page_def length_write_into Offset_page)
  show "page_of (write_into img (Offset i) (replicate n 0)) j = replicate 4096 0"
  proof (rule nth_equalityI)
    fix x assume "x < length (page_of (write_into img (Offset i) (replicate n 0)) j)"
    then have x: "x < 4096" using h by simp
    have r: "Offset i \<le> 4096 * j + x" "4096 * j + x < Offset i + n"
      using assms x by (simp_all add: Offset_page)
    have "page_of (write_into img (Offset i) (replicate n 0)) j ! x
        = overwrite (Offset i) (replicate n 0) (img @ replicate (Offset i + n - length img) 0) ! (4096 * j + x)"
      using page_of_nth [OF h x] by (simp add: write_into_def)
    also have "\<dots> = 0" using r by (simp add: nth_overwrite)
    finally show "page_of (write_into img (Offset i) (replicate n 0)) j ! x = replicate 4096 0 ! x"
      using x by simp
  qed (use h in simp)
qed

lemma avoids_grow: "n = 4096 * k \<Longrightarrow> j < unat i \<Longrightarrow> avoids (Offset i, replicate n 0) j"
  by (simp add: avoids_def Offset_page)

lemma grow_loop_progress:
  "grow_loop d at to = (e, d') \<Longrightarrow> (\<And>i. i \<in> P \<Longrightarrow> i < unat at) \<Longrightarrow> progress P d d'"
proof (induction d at to arbitrary: e d' rule: grow_loop.induct)
  case (1 d at to)
  show ?case
  proof (cases "at < to")
    case True
    let ?step = "min (to - at) growPiece"
    let ?z = "replicate (unat ?step * PageSize) 0 :: bytes"
    obtain e1 d1 where w: "WriteAt d ?z (Offset at) = (e1, d1)" by (metis prod.exhaust)
    have step: "unat ?step = min (unat to - unat at) 256" "unat (at + ?step) = unat at + unat ?step"
      using grow_step [OF True] by simp_all
    have pos: "0 < unat ?step" using step(1) True by (simp add: word_less_nat_alt)
    have p1: "progress P d d1"
      using w 1(3) pos by (intro WriteAt_progress) (auto intro: avoids_grow)
    show ?thesis
    proof (cases e1)
      case None
      have "grow_loop d1 (at + ?step) to = (e, d')"
        using 1(2) True w None by (subst (asm) grow_loop.simps) (simp add: Let_def)
      then have "progress P d1 d'"
        using 1(1) [OF True refl w [symmetric] None] 1(3) step(2) by fastforce
      then show ?thesis using p1 progress_trans by blast
    next
      case (Some x)
      then show ?thesis using 1(2) True w p1 by (subst (asm) grow_loop.simps) (simp add: Let_def)
    qed
  qed (use 1(2) in \<open>subst (asm) grow_loop.simps, simp\<close>)
qed

lemma grow_loop_done:
  "grow_loop d at to = (None, d') \<Longrightarrow> unat at \<le> j \<Longrightarrow> j < unat to \<Longrightarrow>
   agree d' j \<and> page_of (live d') j = replicate 4096 0"
proof (induction d at to arbitrary: d' rule: grow_loop.induct)
  case (1 d at to)
  have lt: "at < to" using 1(3,4) by (simp add: word_less_nat_alt)
  let ?step = "min (to - at) growPiece"
  let ?z = "replicate (unat ?step * PageSize) 0 :: bytes"
  obtain e1 d1 where w: "WriteAt d ?z (Offset at) = (e1, d1)" by (metis prod.exhaust)
  have step: "unat ?step = min (unat to - unat at) 256" "unat (at + ?step) = unat at + unat ?step"
    using grow_step [OF lt] by simp_all
  have pos: "?z \<noteq> []" using step(1) lt by (simp add: word_less_nat_alt)
  have e1: "e1 = None" and rest: "grow_loop d1 (at + ?step) to = (None, d')"
    using 1(2) lt w by (subst (asm) grow_loop.simps, simp add: Let_def split: option.splits)+
  show ?case
  proof (cases "j < unat (at + ?step)")
    case False
    then show ?thesis using 1(1) [OF lt refl w [symmetric] e1 rest] 1(4) by simp
  next
    case True
    note wd = w [unfolded e1]
    have d1: "live d1 = write_into (live d) (Offset at) ?z"
      "flushed d1 = write_into (flushed d) (Offset at) ?z"
      using WriteAt_done(1) [OF wd] WriteAt_flushed [OF wd pos] .
    have j: "unat at \<le> j" "j < unat at + unat ?step" using 1(3) True step(2) by simp_all
    note z = page_of_zeros [OF mult.commute j]
    have a: "agree d1 j" "page_of (live d1) j = replicate 4096 0"
      using z [of "live d"] z [of "flushed d"] by (simp_all add: agree_def d1)
    have p: "progress {j} d1 d'"
      using rest True by (intro grow_loop_progress) auto
    then show ?thesis
      using a progress_agree [OF p] frame_live [OF progress_frame [OF p], of j]
      by (simp add: agree_def)
  qed
qed

lemma Grow_progress:
  "Grow d from to = (e, d') \<Longrightarrow> (\<And>i. i \<in> P \<Longrightarrow> i < unat from) \<Longrightarrow> progress P d d'"
  by (auto simp: Grow_def grow_loop_progress split: if_splits)

lemma Grow_done:
  "Grow d from to = (None, d') \<Longrightarrow> unat from \<le> j \<Longrightarrow> j < unat to \<Longrightarrow>
   agree d' j \<and> page_of (live d') j = replicate 4096 0"
  by (auto simp: Grow_def grow_loop_done word_le_nat_alt split: if_splits)

lemma Grow_ok:
  "sched d = [] \<Longrightarrow> \<not> dev_closed d \<Longrightarrow> \<exists>d'. Grow d from to = (None, d') \<and> sched d' = [] \<and> \<not> dev_closed d'"
proof -
  have "\<exists>d'. grow_loop d f to = (None, d') \<and> sched d' = [] \<and> \<not> dev_closed d'"
    if "sched d = []" "\<not> dev_closed d" for d f to
    using that
  proof (induction d f to rule: grow_loop.induct)
    case (1 d at to)
    show ?case
    proof (cases "at < to")
      case True
      let ?step = "min (to - at) growPiece"
      let ?z = "replicate (unat ?step * PageSize) 0 :: bytes"
      let ?d = "log_write d (Offset at) ?z"
      have w: "WriteAt d ?z (Offset at) = (None, ?d)"
        using 1(2,3) by (simp add: WriteAt_def next_fault_def)
      have "sched ?d = []" "\<not> dev_closed ?d" using 1(2,3) by (simp_all add: log_write_def)
      then show ?thesis
        using 1(1) [OF True refl w [symmetric] refl] True w
        by (subst grow_loop.simps) (simp add: Let_def)
    qed (use 1(2,3) in \<open>subst grow_loop.simps, simp\<close>)
  qed
  then show "sched d = [] \<Longrightarrow> \<not> dev_closed d \<Longrightarrow>
      \<exists>d'. Grow d from to = (None, d') \<and> sched d' = [] \<and> \<not> dev_closed d'"
    by (simp add: Grow_def)
qed

section \<open>Eviction\<close>

text \<open>Pages with no unconfirmed write may leave the page cache at any time; the next read finds what
  the drive holds, zeros past its end.  After a failed fsync that is not what was written.\<close>

definition byte_at :: "bytes \<Rightarrow> nat \<Rightarrow> u8" where
  "byte_at img j = (if j < length img then img ! j else 0)"

definition evict :: "(nat \<Rightarrow> bool) \<Rightarrow> Dev \<Rightarrow> Dev" where
  "evict gone d =
     d\<lparr>live := map (\<lambda>j. if gone (j div 4096) \<and> clean d (j div 4096) then byte_at (disk d) j else live d ! j)
                   [0..<length (live d)]\<rparr>"

lemma evict_fields [simp]:
  "disk (evict gone d) = disk d" "wlog (evict gone d) = wlog d" "length (live (evict gone d)) = length (live d)"
  "flushed (evict gone d) = flushed d" "clean (evict gone d) i = clean d i"
  "has_page (live (evict gone d)) i = has_page (live d) i"
  by (simp_all add: evict_def flushed_def clean_def has_page_def)

lemma evict_nth:
  "j < length (live d) \<Longrightarrow> live (evict gone d) ! j =
     (if gone (j div 4096) \<and> clean d (j div 4096) then byte_at (disk d) j else live d ! j)"
  by (simp add: evict_def)

lemma page_index: "4096 * i \<le> j \<Longrightarrow> j < 4096 * (i + 1) \<Longrightarrow> j div 4096 = (i :: nat)"
  by (simp add: div_nat_eqI)

lemma evict_page:
  assumes "has_page (live d) i" "has_page (disk d) i"
  shows "page_of (live (evict gone d)) i = (if gone i \<and> clean d i then page_of (disk d) i else page_of (live d) i)"
proof -
  have "page_of (live (evict gone d)) i = page_of (if gone i \<and> clean d i then disk d else live d) i"
  proof (rule page_of_eqI)
    fix j assume j: "4096 * i \<le> j" "j < 4096 * (i + 1)"
    then have "j < length (live d)" "j < length (disk d)" using assms by (simp_all add: has_page_def)
    then show "live (evict gone d) ! j = (if gone i \<and> clean d i then disk d else live d) ! j"
      using page_index [OF j] by (simp add: evict_nth byte_at_def)
  qed (use assms in auto)
  then show ?thesis by simp
qed

text \<open>A write leaves the bytes around it as they were, those past the end being zeros.\<close>

lemma byte_at_write_into:
  "byte_at (write_into img off p) j = (if off \<le> j \<and> j < off + length p then p ! (j - off) else byte_at img j)"
  by (auto simp: byte_at_def write_into_def nth_overwrite nth_append length_write_into [unfolded write_into_def])

lemma apply_log_byte:
  "\<forall>w \<in> set ws. avoids w i \<Longrightarrow> 4096 * i \<le> j \<Longrightarrow> j < 4096 * (i + 1) \<Longrightarrow>
   byte_at (apply_log kept n ws img) j = byte_at img j"
proof (induction ws arbitrary: n img)
  case (Cons w ws)
  have "byte_at (apply_write (kept n) w img) j = byte_at img j"
    using Cons.prems by (cases w) (auto simp: byte_at_write_into avoids_def)
  then show ?case using Cons by simp
qed simp

lemma evict_agree_page:
  assumes "agree d i"
  shows "page_of (live (evict gone d)) i = page_of (live d) i"
proof (rule page_of_eqI)
  have h: "has_page (live d) i" "has_page (flushed d) i" "page_of (flushed d) i = page_of (live d) i"
    using assms by (simp_all add: agree_def)
  then show "has_page (live (evict gone d)) i" "has_page (live d) i" by simp_all
  fix j assume j: "4096 * i \<le> j" "j < 4096 * (i + 1)"
  then have l: "j < length (live d)" "j < length (flushed d)" using h(1,2) by (simp_all add: has_page_def)
  have "byte_at (disk d) j = live d ! j" if "clean d i"
  proof -
    have "byte_at (disk d) j = flushed d ! j"
      using apply_log_byte [of "wlog d" i j all_kept 0 "disk d"] that j l(2)
      by (simp add: clean_def flushed_def byte_at_def)
    then show ?thesis
      using j page_of_nth [OF h(1), of "j - 4096 * i"] page_of_nth [OF h(2), of "j - 4096 * i"] h(3) by simp
  qed
  then show "live (evict gone d) ! j = live d ! j"
    using page_index [OF j] l(1) by (simp add: evict_nth)
qed

lemma evict_progress: "progress {i. agree d i} d (evict gone d)"
  using evict_agree_page by (auto simp: progress_def frame_def same_page_def agree_def)

lemma evict_stable: "stable d i \<Longrightarrow> stable (evict gone d) i \<and> page_of (live (evict gone d)) i = page_of (live d) i"
  using evict_agree_page [OF stable_agree, of d i gone] by (simp add: stable_def)

section \<open>How far \<open>Grow\<close> reaches\<close>

text \<open>A call leaves the bytes outside a range alone, whether it fails or not, and extends the file to the
  end of the range at most.\<close>

definition within :: "nat \<Rightarrow> nat \<Rightarrow> Dev \<Rightarrow> Dev \<Rightarrow> bool" where
  "within a b d d' \<longleftrightarrow>
     (\<forall>j. j < a \<or> b \<le> j \<longrightarrow> byte_at (live d') j = byte_at (live d) j)
     \<and> length (live d) \<le> length (live d') \<and> length (live d') \<le> max (length (live d)) b"

lemma within_refl [simp]: "within a b d d"
  by (simp add: within_def)

lemma within_trans: "within a m d d1 \<Longrightarrow> within m b d1 d2 \<Longrightarrow> a \<le> m \<Longrightarrow> m \<le> b \<Longrightarrow> within a b d d2"
  by (auto simp: within_def)

lemma within_mono: "within a m d d1 \<Longrightarrow> m \<le> b \<Longrightarrow> within a b d d1"
  by (auto simp: within_def)

lemma log_write_within: "off + length p \<le> b \<Longrightarrow> within off b d (log_write d off p)"
  by (simp add: within_def log_write_def byte_at_write_into length_write_into)

lemma WriteAt_within:
  assumes "WriteAt d p off = (e, d')"
  shows "within off (off + length p) d d'"
proof (cases "dev_closed d")
  case False
  obtain f d1 where n: "next_fault d = (f, d1)" "same_file d d1" by (rule next_fault_same)
  have w: "within off (off + length p) d1 (log_write d1 off (take n p))" for n
    by (rule log_write_within) simp
  have "within off (off + length p) d1 d'"
    using assms False n(1) w w [of "length p"] by (auto simp: WriteAt_def split: fault.splits if_splits)
  then show ?thesis using n(2) by (simp add: within_def same_file_def)
qed (use assms in \<open>simp add: WriteAt_def\<close>)

lemma grow_loop_within:
  "grow_loop d at to = (e, d') \<Longrightarrow> at \<le> to \<Longrightarrow> within (4096 * unat at) (4096 * unat to) d d'"
proof (induction d at to arbitrary: e d' rule: grow_loop.induct)
  case (1 d at to)
  show ?case
  proof (cases "at < to")
    case True
    let ?step = "min (to - at) growPiece"
    let ?z = "replicate (unat ?step * PageSize) 0 :: bytes"
    note step = grow_step [OF True]
    obtain e1 d1 where w: "WriteAt d ?z (Offset at) = (e1, d1)" by fastforce
    have next_at: "Offset at + length ?z = 4096 * unat (at + ?step)"
      by (simp add: Offset_page step(1,2) algebra_simps)
    have a: "within (4096 * unat at) (4096 * unat (at + ?step)) d d1"
      using WriteAt_within [OF w] unfolding next_at by (simp add: Offset_page)
    have le: "4096 * unat (at + ?step) \<le> 4096 * unat to" "4096 * unat at \<le> 4096 * unat (at + ?step)"
      using step(3) by (simp_all add: word_le_nat_alt step(2))
    show ?thesis
    proof (cases e1)
      case None
      then have "grow_loop d1 (at + ?step) to = (e, d')"
        using 1(2) True w by (subst (asm) grow_loop.simps) (simp add: Let_def)
      then have "within (4096 * unat (at + ?step)) (4096 * unat to) d1 d'"
        using 1(1) [OF True refl w [symmetric] None] step(3) by blast
      then show ?thesis by (rule within_trans [OF a _ le(2,1)])
    next
      case (Some x)
      then have "d' = d1" using 1(2) True w by (subst (asm) grow_loop.simps) (simp add: Let_def)
      then show ?thesis using within_mono [OF a le(1)] by simp
    qed
  qed (use 1(2) in \<open>subst (asm) grow_loop.simps, simp\<close>)
qed

lemma Grow_within:
  "Grow d from to = (e, d') \<Longrightarrow> within (4096 * unat from) (4096 * unat to) d d'"
  by (auto simp: Grow_def intro: grow_loop_within split: if_splits)

lemma within_same_page:
  assumes "within a b d d'" "4096 * (i + 1) \<le> a \<or> b \<le> 4096 * i"
  shows "same_page i (live d) (live d')"
  unfolding same_page_def
proof (intro impI conjI)
  assume h: "has_page (live d) i"
  then show h': "has_page (live d') i" using assms(1) by (simp add: within_def has_page_def)
  show "page_of (live d') i = page_of (live d) i"
  proof (rule page_of_eqI [OF h' h])
    fix j assume j: "4096 * i \<le> j" "j < 4096 * (i + 1)"
    then have "j < a \<or> b \<le> j" using assms(2) by linarith
    then have "byte_at (live d') j = byte_at (live d) j" using assms(1) unfolding within_def by blast
    then show "live d' ! j = live d ! j" using j h h' by (simp add: byte_at_def has_page_def)
  qed
qed

end
