(* ===== verification/StoreMeta.thy ===== *)
theory StoreMeta
  imports PageFile
begin

text \<open>
  Package \<open>pagestore\<close>, what a store keeps in its file: the meta page (\<open>encodeMeta\<close>, \<open>decodeMeta\<close>,
  \<open>checkMeta\<close>) and the free list in its own chain of pages (\<open>readFreeList\<close>, \<open>checkFreeSet\<close>).
  Every error the code formats is a constructor carrying the values it prints.
\<close>

section \<open>Constants and errors\<close>

definition Version :: u32 where "Version = 1"
definition NoPage :: PageID where "NoPage = 0"
definition MetaPage :: PageID where "MetaPage = 0"
definition ChunkPages :: u32 where "ChunkPages = 16"
definition MaxPages :: u32 where "MaxPages = 0xFFFFFFFF"

definition Magic :: bytes where
  "Magic = [0x53, 0x43, 0x55, 0x54, 0x45, 0x44, 0x42, 0x00]"

abbreviation (input) offMagic :: nat where "offMagic \<equiv> HeaderSize"
abbreviation (input) offVersion :: nat where "offVersion \<equiv> 24"
abbreviation (input) offPageSize :: nat where "offPageSize \<equiv> 28"
abbreviation (input) offRoot :: nat where "offRoot \<equiv> 32"
abbreviation (input) offFreeList :: nat where "offFreeList \<equiv> 36"
abbreviation (input) offFreeCount :: nat where "offFreeCount \<equiv> 40"
abbreviation (input) offNextPage :: nat where "offNextPage \<equiv> 44"
abbreviation (input) offFilePages :: nat where "offFilePages \<equiv> 48"
abbreviation (input) offCheckpoint :: nat where "offCheckpoint \<equiv> 52"
abbreviation (input) MetaSize :: nat where "MetaSize \<equiv> 40"
abbreviation (input) offFreeListNext :: nat where "offFreeListNext \<equiv> HeaderSize"
abbreviation (input) FreeListHeader :: nat where "FreeListHeader \<equiv> 20"

definition FreeListCapacity :: nat where
  "FreeListCapacity = (PageSize - FreeListHeader) div 4"

record Meta =
  mVersion :: u32
  mPageSize :: u32
  mRoot :: PageID
  mFreeListPage :: PageID
  mFreeCount :: u32
  mNextPage :: PageID
  mFilePages :: u32
  mCheckpoint :: u32

datatype pageState = stFree | stPending | stFreeList

datatype corruption =
    MetaKind Kind
  | MetaNotPageZero PageID
  | Truncated nat
  | NextPageZero
  | NextPageBeyondFile PageID u32
  | FileTooShort u32 u32
  | RootBeyondNext PageID PageID
  | ListBeyondNext PageID PageID
  | ListLoops PageID
  | ListPageKind PageID Kind
  | ListPageSelf PageID PageID
  | ListPageCount PageID nat
  | FreeCountWrong nat u32
  | RootIsListPage PageID
  | FreeOutside PageID PageID
  | FreeTwice PageID pageState
  | RootIsFree PageID
  | MetaDiffers Meta Meta
  | NextWentBackwards PageID PageID
  | LiveCounts PageID u32 u32
  | RootOutside PageID
  | RootHasState PageID pageState
  | ListLengths nat nat
  | ListsDiffer "PageID list" "PageID list"
  | ListedOutside PageID pageState
  | ListedTwice PageID pageState pageState
  | Mismarked PageID pageState "pageState option"
  | MarkedUnlisted
  | NotDurablyFree PageID

datatype store_error =
    ErrNotScuteDB
  | ErrBadVersion u32
  | ErrBadPageSize u32
  | ErrBadPageID PageID
  | ErrFreeMeta
  | ErrFreeRoot PageID
  | ErrDoubleFree PageID pageState
  | ErrNotAllocated PageID pageState
  | ErrCorrupt corruption
  | ErrClosed
  | ErrPoisoned file_error
  | ErrFull
  | ErrAlreadyStore
  | ErrAlreadyData
  | FileErr file_error

section \<open>The meta page\<close>

definition decodeMeta :: "Page \<Rightarrow> store_error + Meta" where
  "decodeMeta p =
     (if subslice offMagic 8 p \<noteq> Magic then Inl ErrNotScuteDB
      else if get32 p offVersion \<noteq> Version then Inl (ErrBadVersion (get32 p offVersion))
      else if get32 p offPageSize \<noteq> word_of_nat PageSize then Inl (ErrBadPageSize (get32 p offPageSize))
      else if KindOf p \<noteq> KindMeta then Inl (ErrCorrupt (MetaKind (KindOf p)))
      else if ID p \<noteq> MetaPage then Inl (ErrCorrupt (MetaNotPageZero (ID p)))
      else Inr \<lparr>mVersion = get32 p offVersion, mPageSize = get32 p offPageSize,
                mRoot = get32 p offRoot, mFreeListPage = get32 p offFreeList,
                mFreeCount = get32 p offFreeCount, mNextPage = get32 p offNextPage,
                mFilePages = get32 p offFilePages, mCheckpoint = get32 p offCheckpoint\<rparr>)"

definition encodeMeta :: "Meta \<Rightarrow> Page" where
  "encodeMeta m =
     (let p = NewPage MetaPage KindMeta;
          p = overwrite offMagic Magic p;
          p = put32 p offVersion (mVersion m);
          p = put32 p offPageSize (mPageSize m);
          p = put32 p offRoot (mRoot m);
          p = put32 p offFreeList (mFreeListPage m);
          p = put32 p offFreeCount (mFreeCount m);
          p = put32 p offNextPage (mNextPage m);
          p = put32 p offFilePages (mFilePages m);
          p = put32 p offCheckpoint (mCheckpoint m);
          p = SetFreeStart p (word_of_nat (HeaderSize + MetaSize))
      in p)"

definition checkMeta :: "Meta \<Rightarrow> u32 \<Rightarrow> store_error option" where
  "checkMeta m pagesOnDisk =
     (if mNextPage m = 0 then Some (ErrCorrupt NextPageZero)
      else if mFilePages m < mNextPage m then
        Some (ErrCorrupt (NextPageBeyondFile (mNextPage m) (mFilePages m)))
      else if pagesOnDisk < mFilePages m then
        Some (ErrCorrupt (FileTooShort (mFilePages m) pagesOnDisk))
      else if mRoot m \<noteq> NoPage \<and> mNextPage m \<le> mRoot m then
        Some (ErrCorrupt (RootBeyondNext (mRoot m) (mNextPage m)))
      else None)"

section \<open>The free list\<close>

fun list_entries :: "Page \<Rightarrow> nat \<Rightarrow> nat \<Rightarrow> PageID list" where
  "list_entries p i 0 = []"
| "list_entries p i (Suc n) = get32 p (FreeListHeader + 4 * i) # list_entries p (Suc i) n"

text \<open>The chain loop of \<open>readFreeList\<close>.  It ends whatever the file holds: a page identifier may be
  followed only once.\<close>

function read_lists ::
  "Dev \<Rightarrow> Meta \<Rightarrow> PageID \<Rightarrow> PageID set \<Rightarrow> PageID list \<Rightarrow> PageID list
   \<Rightarrow> (store_error + PageID list \<times> PageID list) \<times> Dev" where
  "read_lists d m i seen entries ls =
     (if i = NoPage then (Inr (entries, ls), d)
      else if mNextPage m \<le> i then (Inl (ErrCorrupt (ListBeyondNext i (mNextPage m))), d)
      else if i \<in> seen then (Inl (ErrCorrupt (ListLoops i)), d)
      else
        (case ReadPage d i of
           (Inl e, d) \<Rightarrow> (Inl (FileErr e), d)
         | (Inr p, d) \<Rightarrow>
             if KindOf p \<noteq> KindFreeList then (Inl (ErrCorrupt (ListPageKind i (KindOf p))), d)
             else if ID p \<noteq> i then (Inl (ErrCorrupt (ListPageSelf i (ID p))), d)
             else
               (let n = unat (ItemCount p) in
                if n > FreeListCapacity then (Inl (ErrCorrupt (ListPageCount i n)), d)
                else read_lists d m (get32 p offFreeListNext) (insert i seen)
                       (entries @ list_entries p 0 n) (ls @ [i]))))"
  by pat_completeness auto
termination
  by (relation "measure (\<lambda>(d, m, i, seen, entries, ls). card (- seen))")
     (auto intro!: psubset_card_mono)

declare read_lists.simps [simp del]

definition readFreeList :: "Dev \<Rightarrow> Meta \<Rightarrow> (store_error + PageID list \<times> PageID list) \<times> Dev" where
  "readFreeList d m =
     (case read_lists d m (mFreeListPage m) {} [] [] of
        (Inl e, d) \<Rightarrow> (Inl e, d)
      | (Inr (entries, ls), d) \<Rightarrow>
          if word_of_nat (length entries) \<noteq> mFreeCount m then
            (Inl (ErrCorrupt (FreeCountWrong (length entries) (mFreeCount m))), d)
          else (Inr (entries, ls), d))"

text \<open>The two loops of \<open>checkFreeSet\<close>; the map \<open>seen\<close> records which list a page was met on.\<close>

fun check_lists :: "Meta \<Rightarrow> PageID list \<Rightarrow> (PageID \<rightharpoonup> pageState)
    \<Rightarrow> store_error + (PageID \<rightharpoonup> pageState)" where
  "check_lists m [] seen = Inr seen"
| "check_lists m (i # is) seen =
     (if i = mRoot m \<and> mRoot m \<noteq> NoPage then Inl (ErrCorrupt (RootIsListPage i))
      else check_lists m is (seen(i \<mapsto> stFreeList)))"

fun check_entries :: "Meta \<Rightarrow> PageID list \<Rightarrow> (PageID \<rightharpoonup> pageState) \<Rightarrow> store_error option" where
  "check_entries m [] seen = None"
| "check_entries m (i # is) seen =
     (if i = MetaPage \<or> mNextPage m \<le> i then Some (ErrCorrupt (FreeOutside i (mNextPage m - 1)))
      else
        (case seen i of
           Some what \<Rightarrow> Some (ErrCorrupt (FreeTwice i what))
         | None \<Rightarrow>
             if i = mRoot m then Some (ErrCorrupt (RootIsFree i))
             else check_entries m is (seen(i \<mapsto> stFree))))"

definition checkFreeSet :: "Meta \<Rightarrow> PageID list \<Rightarrow> PageID list \<Rightarrow> store_error option" where
  "checkFreeSet m entries ls =
     (case check_lists m ls Map.empty of
        Inl e \<Rightarrow> Some e
      | Inr seen \<Rightarrow> check_entries m entries seen)"

definition pagesFor :: "nat \<Rightarrow> nat" where
  "pagesFor entries = (entries + FreeListCapacity - 1) div FreeListCapacity"

definition growTo :: "u32 \<Rightarrow> u32" where
  "growTo filePages =
     (let g = unat filePages + unat ChunkPages;
          g = (if g > unat MaxPages then unat MaxPages else g)
      in word_of_nat g)"

end
