(* ===== verification/StoreOps.thy ===== *)
theory StoreOps
  imports StoreMeta
begin

text \<open>
  Package \<open>pagestore\<close>, the store in memory (\<open>Store\<close>) and every operation on it.  An operation takes
  the store and returns its error, or its value, with the store updated; the file is the field
  \<open>pf\<close>.  A branch that Go would leave with an index panic returns \<open>None\<close>.
\<close>

section \<open>The store\<close>

record StoreStats =
  Grown :: nat
  Allocated :: nat
  Reused :: nat
  Freed :: nat
  Checkpoints :: nat

fun pageStateString :: "pageState \<Rightarrow> string" where
  "pageStateString stFree = ''free''"
| "pageStateString stPending = ''pending''"
| "pageStateString stFreeList = ''a free-list page''"

record Store =
  pf :: Dev
  durable :: Meta
  root :: PageID
  nextPage :: PageID
  filePages :: u32
  free :: "PageID list"
  pending :: "PageID list"
  listPage :: "PageID list"
  status :: "PageID \<rightharpoonup> pageState"
  dirty :: bool
  closed :: bool
  poisoned :: "file_error option"
  stats :: StoreStats

definition poison :: "file_error \<Rightarrow> Store \<Rightarrow> store_error \<times> Store" where
  "poison err s =
     (let s = (if poisoned s = None then s\<lparr>poisoned := Some err\<rparr> else s) in (ErrPoisoned err, s))"

definition usable :: "Store \<Rightarrow> store_error option" where
  "usable s =
     (case poisoned s of
        Some e \<Rightarrow> Some (ErrPoisoned e)
      | None \<Rightarrow> if closed s then Some ErrClosed else None)"

text \<open>\<open>Meta()\<close>: the last checkpoint's meta overlaid with the live fields.\<close>

definition StoreMetaOf :: "Store \<Rightarrow> Meta" where
  "StoreMetaOf s =
     (durable s)\<lparr>mRoot := root s, mNextPage := nextPage s, mFilePages := filePages s,
                 mFreeCount := word_of_nat (length (free s))\<rparr>"

definition inRange :: "PageID \<Rightarrow> Store \<Rightarrow> store_error option" where
  "inRange i s = (if i = MetaPage \<or> nextPage s \<le> i then Some (ErrBadPageID i) else None)"

definition owned :: "PageID \<Rightarrow> Store \<Rightarrow> store_error option" where
  "owned i s =
     (case inRange i s of
        Some e \<Rightarrow> Some e
      | None \<Rightarrow>
          (case status s i of Some st \<Rightarrow> Some (ErrNotAllocated i st) | None \<Rightarrow> None))"

section \<open>Page operations\<close>

definition SetRoot :: "PageID \<Rightarrow> Store \<Rightarrow> store_error option \<times> Store" where
  "SetRoot i s =
     (case usable s of
        Some e \<Rightarrow> (Some e, s)
      | None \<Rightarrow>
          (case if i \<noteq> NoPage then owned i s else None of
             Some e \<Rightarrow> (Some e, s)
           | None \<Rightarrow> (None, s\<lparr>root := i, dirty := True\<rparr>)))"

definition StoreRead :: "PageID \<Rightarrow> Store \<Rightarrow> (store_error + Page) \<times> Store" where
  "StoreRead i s =
     (case usable s of
        Some e \<Rightarrow> (Inl e, s)
      | None \<Rightarrow>
          (case owned i s of
             Some e \<Rightarrow> (Inl e, s)
           | None \<Rightarrow>
               (case ReadPage (pf s) i of
                  (Inl e, d) \<Rightarrow> (Inl (FileErr e), s\<lparr>pf := d\<rparr>)
                | (Inr p, d) \<Rightarrow> (Inr p, s\<lparr>pf := d\<rparr>))))"

text \<open>\<open>Write\<close> reads the identifier out of the page before anything checks the page's length.\<close>

definition StoreWrite :: "Page \<Rightarrow> Store \<Rightarrow> (store_error option \<times> Store) option" where
  "StoreWrite p s =
     (case usable s of
        Some e \<Rightarrow> Some (Some e, s)
      | None \<Rightarrow>
          if length p < 4 then None
          else
            (case owned (ID p) s of
               Some e \<Rightarrow> Some (Some e, s)
             | None \<Rightarrow>
                 (case WritePage (pf s) p of
                    (Some e, d) \<Rightarrow> Some (Some (FileErr e), s\<lparr>pf := d\<rparr>)
                  | (None, d) \<Rightarrow> Some (None, s\<lparr>pf := d, dirty := True\<rparr>))))"

text \<open>The part of \<open>Allocate\<close> that picks the page: the last reusable one, or the next page never
  handed out, growing the file by a chunk when it has none left.\<close>

definition pick_page :: "Store \<Rightarrow> (store_error + PageID) \<times> Store" where
  "pick_page s =
     (if free s \<noteq> [] then
        (let i = last (free s) in
         (Inr i, s\<lparr>free := butlast (free s), status := (status s)(i := None)\<rparr>))
      else
        (let i = nextPage s in
         if MaxPages \<le> i then (Inl ErrFull, s)
         else if filePages s \<le> i then
           (let grown = growTo (filePages s) in
            if grown \<le> i then (Inl ErrFull, s)
            else
              (case Grow (pf s) (filePages s) grown of
                 (Some e, d) \<Rightarrow> (Inl (FileErr e), s\<lparr>pf := d\<rparr>)
               | (None, d) \<Rightarrow>
                   (Inr i, s\<lparr>pf := d, filePages := grown,
                             stats := (stats s)\<lparr>Grown := Grown (stats s) + 1\<rparr>, nextPage := i + 1\<rparr>)))
         else (Inr i, s\<lparr>nextPage := i + 1\<rparr>)))"

definition Allocate :: "Kind \<Rightarrow> Store \<Rightarrow> (store_error + Page) \<times> Store" where
  "Allocate kind s =
     (case usable s of
        Some e \<Rightarrow> (Inl e, s)
      | None \<Rightarrow>
          (let reused = free s \<noteq> []; filePages0 = filePages s; grown0 = Grown (stats s) in
           case pick_page s of
             (Inl e, s) \<Rightarrow> (Inl e, s)
           | (Inr i, s) \<Rightarrow>
               (let fresh = NewPage i kind in
                case WritePage (pf s) fresh of
                  (Some e, d) \<Rightarrow>
                    (Inl (FileErr e),
                     if reused then
                       s\<lparr>pf := d, free := free s @ [i], status := (status s)(i \<mapsto> stFree)\<rparr>
                     else
                       s\<lparr>pf := d, nextPage := i, filePages := filePages0,
                         stats := (stats s)\<lparr>Grown := grown0\<rparr>\<rparr>)
                | (None, d) \<Rightarrow>
                    (Inr fresh,
                     s\<lparr>pf := d,
                       stats := (if reused then (stats s)\<lparr>Reused := Reused (stats s) + 1\<rparr>
                                 else (stats s)\<lparr>Allocated := Allocated (stats s) + 1\<rparr>),
                       dirty := True\<rparr>))))"

definition FreePage :: "PageID \<Rightarrow> Store \<Rightarrow> store_error option \<times> Store" where
  "FreePage i s =
     (case usable s of
        Some e \<Rightarrow> (Some e, s)
      | None \<Rightarrow>
          if i = MetaPage then (Some ErrFreeMeta, s)
          else
            (case inRange i s of
               Some e \<Rightarrow> (Some e, s)
             | None \<Rightarrow>
                 (case status s i of
                    Some st \<Rightarrow>
                      if st = stFreeList then (Some (ErrNotAllocated i st), s)
                      else (Some (ErrDoubleFree i st), s)
                  | None \<Rightarrow>
                      if i = root s then (Some (ErrFreeRoot i), s)
                      else
                        (None, s\<lparr>pending := pending s @ [i], status := (status s)(i \<mapsto> stPending),
                                 dirty := True,
                                 stats := (stats s)\<lparr>Freed := Freed (stats s) + 1\<rparr>\<rparr>))))"

definition SyncStore :: "Store \<Rightarrow> store_error option \<times> Store" where
  "SyncStore s =
     (case usable s of
        Some e \<Rightarrow> (Some e, s)
      | None \<Rightarrow>
          (case SyncPages (pf s) of
             (Some e, d) \<Rightarrow> (case poison e (s\<lparr>pf := d\<rparr>) of (e, s) \<Rightarrow> (Some e, s))
           | (None, d) \<Rightarrow> (None, s\<lparr>pf := d\<rparr>)))"

section \<open>Checkpoint\<close>

datatype checkpoint_error = mustPoison file_error | Plain store_error

text \<open>What the loop that picks pages for the new free list carries.\<close>

record plan =
  p_free :: "PageID list"
  p_next :: PageID
  p_file :: u32
  p_grew :: nat
  p_lists :: "PageID list"

lemma pagesFor_mono: "m \<le> n \<Longrightarrow> pagesFor m \<le> pagesFor n"
  by (simp add: pagesFor_def div_le_mono)

lemma pagesFor_less: "pagesFor m - Suc k < pagesFor n - k" if "k < pagesFor n" "m \<le> n"
  using that pagesFor_mono [of m n] by linarith

function plan_lists ::
  "Dev \<Rightarrow> nat \<Rightarrow> plan \<Rightarrow> (store_error + plan) \<times> Dev" where
  "plan_lists d fixed p =
     (if length (p_lists p) < pagesFor (length (p_free p) + fixed) then
        (if p_free p \<noteq> [] then
           plan_lists d fixed
             (p\<lparr>p_free := butlast (p_free p), p_lists := p_lists p @ [last (p_free p)]\<rparr>)
         else
           (let i = p_next p in
            if MaxPages \<le> i then (Inl ErrFull, d)
            else if p_file p \<le> i then
              (let grown = growTo (p_file p) in
               if grown \<le> i then (Inl ErrFull, d)
               else
                 (case Grow d (p_file p) grown of
                    (Some e, d) \<Rightarrow> (Inl (FileErr e), d)
                  | (None, d) \<Rightarrow>
                      plan_lists d fixed
                        (p\<lparr>p_file := grown, p_grew := p_grew p + 1, p_next := i + 1,
                           p_lists := p_lists p @ [i]\<rparr>)))
            else plan_lists d fixed (p\<lparr>p_next := i + 1, p_lists := p_lists p @ [i]\<rparr>)))
      else (Inr p, d))"
  by pat_completeness auto
termination
  by (relation "measure (\<lambda>(d, fixed, p). pagesFor (length (p_free p) + fixed) - length (p_lists p))")
     (auto intro!: pagesFor_less)

declare plan_lists.simps [simp del]

fun put_entries :: "Page \<Rightarrow> nat \<Rightarrow> PageID list \<Rightarrow> Page" where
  "put_entries p j [] = p"
| "put_entries p j (e # es) = put_entries (put32 p (FreeListHeader + 4 * j) e) (Suc j) es"

text \<open>The body of the loop that writes the free-list pages: page \<open>i\<close> of the chain.\<close>

definition list_page :: "PageID list \<Rightarrow> nat \<Rightarrow> PageID \<Rightarrow> PageID list \<Rightarrow> Page option" where
  "list_page entries k i rest =
     (let p = NewPage i KindFreeList;
          next = (case rest of [] \<Rightarrow> NoPage | n # _ \<Rightarrow> n);
          p = put32 p offFreeListNext next;
          lo = k * FreeListCapacity;
          hi = lo + FreeListCapacity;
          hi = (if hi > length entries then length entries else hi)
      in case slice_of entries lo hi of
           None \<Rightarrow> None
         | Some es \<Rightarrow>
             (let p = put_entries p 0 es;
                  p = SetItemCount p (word_of_nat (hi - lo));
                  p = SetFreeStart p (word_of_nat (FreeListHeader + 4 * (hi - lo)))
              in Some p))"

fun write_lists ::
  "Dev \<Rightarrow> PageID list \<Rightarrow> nat \<Rightarrow> PageID list \<Rightarrow> (file_error option \<times> Dev) option" where
  "write_lists d entries k [] = Some (None, d)"
| "write_lists d entries k (i # rest) =
     (case list_page entries k i rest of
        None \<Rightarrow> None
      | Some p \<Rightarrow>
          (case WritePage d p of
             (Some e, d) \<Rightarrow> Some (Some e, d)
           | (None, d) \<Rightarrow> write_lists d entries (Suc k) rest))"

text \<open>The last part of \<open>checkpoint\<close>: the meta page, the commit, and the store as of the new
  checkpoint.\<close>

definition commit :: "plan \<Rightarrow> PageID list \<Rightarrow> Store \<Rightarrow> checkpoint_error option \<times> Store" where
  "commit p entries s =
     (let head = (case p_lists p of [] \<Rightarrow> NoPage | i # _ \<Rightarrow> i);
          next = \<lparr>mVersion = Version, mPageSize = word_of_nat PageSize, mRoot = root s,
                  mFreeListPage = head, mFreeCount = word_of_nat (length entries),
                  mNextPage = p_next p, mFilePages = p_file p,
                  mCheckpoint = mCheckpoint (durable s) + 1\<rparr>
      in case WritePage (pf s) (encodeMeta next) of
           (Some e, d) \<Rightarrow> (Some (mustPoison e), s\<lparr>pf := d\<rparr>)
         | (None, d) \<Rightarrow>
             (case SyncPages d of
                (Some e, d) \<Rightarrow> (Some (mustPoison e), s\<lparr>pf := d\<rparr>)
              | (None, d) \<Rightarrow>
                  (None, s\<lparr>pf := d, durable := next, nextPage := p_next p, filePages := p_file p,
                           free := entries, pending := [], listPage := p_lists p,
                           status := (\<lambda>i. if i \<in> set (p_lists p) then Some stFreeList
                                          else if i \<in> set entries then Some stFree else None),
                           dirty := False,
                           stats := (stats s)\<lparr>Grown := Grown (stats s) + p_grew p,
                                              Checkpoints := Checkpoints (stats s) + 1\<rparr>\<rparr>)))"

definition checkpoint :: "Store \<Rightarrow> (checkpoint_error option \<times> Store) option" where
  "checkpoint s =
     (case SyncPages (pf s) of
        (Some e, d) \<Rightarrow> Some (Some (mustPoison e), s\<lparr>pf := d\<rparr>)
      | (None, d) \<Rightarrow>
          (case plan_lists d (length (pending s) + length (listPage s))
                  \<lparr>p_free = free s, p_next = nextPage s, p_file = filePages s, p_grew = 0,
                   p_lists = []\<rparr> of
             (Inl e, d) \<Rightarrow> Some (Some (Plain e), s\<lparr>pf := d\<rparr>)
           | (Inr p, d) \<Rightarrow>
               (let entries = listPage s @ p_free p @ pending s in
                case write_lists d entries 0 (p_lists p) of
                  None \<Rightarrow> None
                | Some (Some e, d) \<Rightarrow> Some (Some (Plain (FileErr e)), s\<lparr>pf := d\<rparr>)
                | Some (None, d) \<Rightarrow>
                    (case if p_lists p \<noteq> [] then SyncPages d else (None, d) of
                       (Some e, d) \<Rightarrow> Some (Some (mustPoison e), s\<lparr>pf := d\<rparr>)
                     | (None, d) \<Rightarrow> Some (commit p entries (s\<lparr>pf := d\<rparr>))))))"

definition Checkpoint :: "Store \<Rightarrow> (store_error option \<times> Store) option" where
  "Checkpoint s =
     (case usable s of
        Some e \<Rightarrow> Some (Some e, s)
      | None \<Rightarrow>
          (case checkpoint s of
             None \<Rightarrow> None
           | Some (None, s) \<Rightarrow> Some (None, s)
           | Some (Some (mustPoison e), s) \<Rightarrow> (case poison e s of (e, s) \<Rightarrow> Some (Some e, s))
           | Some (Some (Plain e), s) \<Rightarrow> Some (Some e, s)))"

definition CloseStore :: "Store \<Rightarrow> (store_error option \<times> Store) option" where
  "CloseStore s =
     (if closed s then Some (None, s)
      else
        (case if poisoned s = None \<and> dirty s then Checkpoint s else Some (None, s) of
           None \<Rightarrow> None
         | Some (err, s) \<Rightarrow>
             (case ClosePages (pf s) of
                (cerr, d) \<Rightarrow>
                  (let s = s\<lparr>closed := True, pf := d\<rparr> in
                   Some (case poisoned s of
                           Some e \<Rightarrow> Some (ErrPoisoned e)
                         | None \<Rightarrow>
                             (case err of Some e \<Rightarrow> Some e | None \<Rightarrow> map_option FileErr cerr), s)))))"

definition Discard :: "Store \<Rightarrow> store_error option \<times> Store" where
  "Discard s =
     (if closed s then (None, s)
      else
        (case ClosePages (pf s) of
           (cerr, d) \<Rightarrow> (map_option FileErr cerr, s\<lparr>closed := True, pf := d\<rparr>)))"

section \<open>Verify\<close>

text \<open>The closure \<open>record\<close> of \<open>verifyLive\<close>.\<close>

fun record_list :: "Store \<Rightarrow> pageState \<Rightarrow> PageID list \<Rightarrow> (PageID \<rightharpoonup> pageState)
    \<Rightarrow> store_error + (PageID \<rightharpoonup> pageState)" where
  "record_list s want [] seen = Inr seen"
| "record_list s want (i # is) seen =
     (case inRange i s of
        Some e \<Rightarrow> Inl (ErrCorrupt (ListedOutside i want))
      | None \<Rightarrow>
          (case seen i of
             Some prev \<Rightarrow> Inl (ErrCorrupt (ListedTwice i prev want))
           | None \<Rightarrow>
               if status s i \<noteq> Some want then Inl (ErrCorrupt (Mismarked i want (status s i)))
               else record_list s want is (seen(i \<mapsto> want))))"

fun check_durably_free :: "PageID list \<Rightarrow> PageID list \<Rightarrow> store_error option" where
  "check_durably_free entries [] = None"
| "check_durably_free entries (i # is) =
     (if i \<notin> set entries then Some (ErrCorrupt (NotDurablyFree i))
      else check_durably_free entries is)"

definition verify_records :: "Store \<Rightarrow> PageID list \<Rightarrow> store_error option" where
  "verify_records s entries =
     (case record_list s stFree (free s) Map.empty of
        Inl e \<Rightarrow> Some e
      | Inr seen \<Rightarrow>
          (case record_list s stPending (pending s) seen of
             Inl e \<Rightarrow> Some e
           | Inr seen \<Rightarrow>
               (case record_list s stFreeList (listPage s) seen of
                  Inl e \<Rightarrow> Some e
                | Inr seen \<Rightarrow>
                    if card (dom seen) \<noteq> card (dom (status s)) \<and> \<not> dom (status s) \<subseteq> dom seen then
                      Some (ErrCorrupt MarkedUnlisted)
                    else check_durably_free entries (free s))))"

definition verifyLive :: "Store \<Rightarrow> u32 \<Rightarrow> PageID list \<Rightarrow> PageID list \<Rightarrow> store_error option" where
  "verifyLive s pagesOnDisk entries ls =
     (if nextPage s < mNextPage (durable s) then
        Some (ErrCorrupt (NextWentBackwards (nextPage s) (mNextPage (durable s))))
      else if filePages s < nextPage s \<or> pagesOnDisk < filePages s then
        Some (ErrCorrupt (LiveCounts (nextPage s) (filePages s) pagesOnDisk))
      else
        (case if root s = NoPage then None
              else if inRange (root s) s \<noteq> None then Some (ErrCorrupt (RootOutside (root s)))
              else map_option (\<lambda>st. ErrCorrupt (RootHasState (root s) st)) (status s (root s)) of
           Some e \<Rightarrow> Some e
         | None \<Rightarrow>
             if length (listPage s) \<noteq> length ls then
               Some (ErrCorrupt (ListLengths (length (listPage s)) (length ls)))
             else if listPage s \<noteq> ls then Some (ErrCorrupt (ListsDiffer (listPage s) ls))
             else verify_records s entries))"

definition Verify :: "Store \<Rightarrow> store_error option \<times> Store" where
  "Verify s =
     (case usable s of
        Some e \<Rightarrow> (Some e, s)
      | None \<Rightarrow>
          (case ReadPage (pf s) MetaPage of
             (Inl e, d) \<Rightarrow> (Some (FileErr e), s\<lparr>pf := d\<rparr>)
           | (Inr raw, d) \<Rightarrow>
               (case decodeMeta raw of
                  Inl e \<Rightarrow> (Some e, s\<lparr>pf := d\<rparr>)
                | Inr m \<Rightarrow>
                    if m \<noteq> durable s then (Some (ErrCorrupt (MetaDiffers m (durable s))), s\<lparr>pf := d\<rparr>)
                    else
                      (case PageCount d of
                         (Inl e, d) \<Rightarrow> (Some (FileErr e), s\<lparr>pf := d\<rparr>)
                       | (Inr onDisk, d) \<Rightarrow>
                           (case checkMeta m onDisk of
                              Some e \<Rightarrow> (Some e, s\<lparr>pf := d\<rparr>)
                            | None \<Rightarrow>
                                (case readFreeList d m of
                                   (Inl e, d) \<Rightarrow> (Some e, s\<lparr>pf := d\<rparr>)
                                 | (Inr (entries, ls), d) \<Rightarrow>
                                     (case checkFreeSet m entries ls of
                                        Some e \<Rightarrow> (Some e, s\<lparr>pf := d\<rparr>)
                                      | None \<Rightarrow>
                                          (verifyLive s onDisk entries ls, s\<lparr>pf := d\<rparr>))))))))"

section \<open>Opening\<close>

text \<open>A function that returns a store or an error also returns the file when it fails: its caller
  closes it.\<close>

type_synonym opened = "(store_error \<times> Dev) + Store"

definition create :: "Dev \<Rightarrow> opened option" where
  "create d =
     (case Grow d 0 ChunkPages of
        (Some e, d) \<Rightarrow> Some (Inl (FileErr e, d))
      | (None, d) \<Rightarrow>
          (let s = \<lparr>pf = d,
                    durable = \<lparr>mVersion = 0, mPageSize = 0, mRoot = 0, mFreeListPage = 0,
                               mFreeCount = 0, mNextPage = 0, mFilePages = 0, mCheckpoint = 0\<rparr>,
                    root = NoPage, nextPage = 1, filePages = ChunkPages, free = [], pending = [],
                    listPage = [], status = Map.empty, dirty = False, closed = False,
                    poisoned = None,
                    stats = \<lparr>Grown = 1, Allocated = 0, Reused = 0, Freed = 0, Checkpoints = 0\<rparr>\<rparr>
           in case Checkpoint s of
                None \<Rightarrow> None
              | Some (Some e, s) \<Rightarrow> Some (Inl (e, pf s))
              | Some (None, s) \<Rightarrow> Some (Inr s)))"

definition load :: "Dev \<Rightarrow> opened" where
  "load d =
     (case ReadPage d MetaPage of
        (Inl e, d) \<Rightarrow> Inl (FileErr e, d)
      | (Inr raw, d) \<Rightarrow>
          (case decodeMeta raw of
             Inl e \<Rightarrow> Inl (e, d)
           | Inr m \<Rightarrow>
               (case PageCount d of
                  (Inl e, d) \<Rightarrow> Inl (FileErr e, d)
                | (Inr onDisk, d) \<Rightarrow>
                    (case checkMeta m onDisk of
                       Some e \<Rightarrow> Inl (e, d)
                     | None \<Rightarrow>
                         (case readFreeList d m of
                            (Inl e, d) \<Rightarrow> Inl (e, d)
                          | (Inr (entries, ls), d) \<Rightarrow>
                              (case checkFreeSet m entries ls of
                                 Some e \<Rightarrow> Inl (e, d)
                               | None \<Rightarrow>
                                   (let s = \<lparr>pf = d, durable = m, root = mRoot m,
                                             nextPage = mNextPage m, filePages = mFilePages m,
                                             free = entries, pending = [], listPage = ls,
                                             status = (\<lambda>i. if i \<in> set ls then Some stFreeList
                                                           else if i \<in> set entries then Some stFree
                                                           else None),
                                             dirty = False, closed = False, poisoned = None,
                                             stats = \<lparr>Grown = 0, Allocated = 0, Reused = 0,
                                                      Freed = 0, Checkpoints = 0\<rparr>\<rparr>
                                    in case verifyLive s onDisk entries ls of
                                         Some e \<Rightarrow> Inl (e, d)
                                       | None \<Rightarrow>
                                           (case WritePage d (encodeMeta m) of
                                              (Some e, d) \<Rightarrow> Inl (FileErr e, d)
                                            | (None, d) \<Rightarrow>
                                                (case SyncPages d of
                                                   (Some e, d) \<Rightarrow> Inl (FileErr e, d)
                                                 | (None, d) \<Rightarrow> Inr (s\<lparr>pf := d\<rparr>))))))))))"

definition isBlank :: "Dev \<Rightarrow> (store_error + bool) \<times> Dev" where
  "isBlank d =
     (case SizeFile d of
        (Inl e, d) \<Rightarrow> (Inl (FileErr (FileIO e)), d)
      | (Inr sz, d) \<Rightarrow>
          if sz = 0 then (Inr True, d)
          else if sz > unat ChunkPages * PageSize then (Inr False, d)
          else
            (case ReadAt d sz 0 of
               (b, err, d) \<Rightarrow>
                 if length b \<noteq> sz then
                   (Inl (FileErr (FileIO (case err of None \<Rightarrow> UnexpectedEOF | Some e \<Rightarrow> e))), d)
                 else (Inr (\<forall>x \<in> set b. x = 0), d)))"

definition hasMagic :: "Dev \<Rightarrow> bool \<times> Dev" where
  "hasMagic d = (case ReadAt d 8 offMagic of (b, err, d) \<Rightarrow> (length b = 8 \<and> b = Magic, d))"

definition openFile :: "Dev \<Rightarrow> opened option" where
  "openFile d =
     (case isBlank d of
        (Inl e, d) \<Rightarrow> Some (Inl (e, d))
      | (Inr blank, d) \<Rightarrow>
          if blank then create d
          else
            (case SizeFile d of
               (Inl e, d) \<Rightarrow> Some (Inl (FileErr (FileIO e), d))
             | (Inr sz, d) \<Rightarrow>
                 if sz < PageSize then
                   (case hasMagic d of
                      (ours, d) \<Rightarrow>
                        if ours then Some (Inl (ErrCorrupt (Truncated sz), d))
                        else Some (Inl (ErrNotScuteDB, d)))
                 else Some (load d)))"

text \<open>\<open>Open\<close> and \<open>Create\<close>, given what \<open>fileio.OpenExisting\<close> or \<open>fileio.Open\<close> returned for the path
  and what \<open>fileio.SyncParent\<close> will return for it.\<close>

definition OpenStore :: "(io_error + Dev) \<Rightarrow> io_error option \<Rightarrow> opened option" where
  "OpenStore file synced =
     (case file of
        Inl e \<Rightarrow> Some (Inl (FileErr (FileIO e), emptyDev []))
      | Inr d \<Rightarrow>
          (case openFile d of
             None \<Rightarrow> None
           | Some (Inl (e, d)) \<Rightarrow> Some (Inl (e, snd (ClosePages d)))
           | Some (Inr s) \<Rightarrow>
               (case synced of
                  Some e \<Rightarrow> Some (Inl (FileErr (FileIO e), pf (snd (Discard s))))
                | None \<Rightarrow> Some (Inr s))))"

definition CreateStore :: "(io_error + Dev) \<Rightarrow> io_error option \<Rightarrow> opened option" where
  "CreateStore file synced =
     (case file of
        Inl e \<Rightarrow> Some (Inl (FileErr (FileIO e), emptyDev []))
      | Inr d \<Rightarrow>
          (case isBlank d of
             (Inl e, d) \<Rightarrow> Some (Inl (e, snd (ClosePages d)))
           | (Inr blank, d) \<Rightarrow>
               if \<not> blank then
                 (case hasMagic d of
                    (ours, d) \<Rightarrow>
                      (let d = snd (ClosePages d) in
                       Some (Inl (if ours then ErrAlreadyStore else ErrAlreadyData, d))))
               else
                 (case create d of
                    None \<Rightarrow> None
                  | Some (Inl (e, d)) \<Rightarrow> Some (Inl (e, snd (ClosePages d)))
                  | Some (Inr s) \<Rightarrow>
                      (case synced of
                         Some e \<Rightarrow> Some (Inl (FileErr (FileIO e), pf (snd (Discard s))))
                       | None \<Rightarrow> Some (Inr s)))))"

end
