(* ===== verification/StoreDisk.thy ===== *)
theory StoreDisk
  imports StoreOps
begin

text \<open>
  What a store's file says: the meta page and the free-list pages round trip, and \<open>sound d C\<close>, that
  whatever happens to the device \<open>d\<close> next (a power loss, the end of the process) the file
  describes one of the checkpoints \<open>C\<close>.
\<close>

section \<open>The meta page\<close>

lemma put32_page [page_simps]:
  assumes "is_page p" "HeaderSize \<le> off" "off + 4 \<le> 4096"
  shows "is_page (put32 p off v)" "ID (put32 p off v) = ID p" "KindOf (put32 p off v) = KindOf p"
    "ItemCount (put32 p off v) = ItemCount p" "FreeStart (put32 p off v) = FreeStart p"
    "FreeEnd (put32 p off v) = FreeEnd p"
  using assms by (simp_all add: put32_def page_simps)

lemma is_page_encodeMeta [simp]: "is_page (encodeMeta m)"
  by (simp add: encodeMeta_def Let_def page_simps Magic_def)

lemma length_encodeMeta [simp]: "length (encodeMeta m) = 4096"
  using is_page_encodeMeta [of m] by (simp only: is_page_def)

lemma encodeMeta_header [simp]: "ID (encodeMeta m) = 0" "KindOf (encodeMeta m) = KindMeta"
  by (simp_all add: encodeMeta_def Let_def page_simps Magic_def MetaPage_def)

lemma get32_SetFreeStart [page_simps]:
  "is_page p \<Longrightarrow> HeaderSize \<le> off \<Longrightarrow> get32 (SetFreeStart p v) off = get32 p off"
  "is_page p \<Longrightarrow> HeaderSize \<le> off \<Longrightarrow> get32 (SetItemCount p v) off = get32 p off"
  by (simp_all add: get32_def page_simps)

lemma encodeMeta_fields:
  "get32 (encodeMeta m) 24 = mVersion m" "get32 (encodeMeta m) 28 = mPageSize m"
  "get32 (encodeMeta m) 32 = mRoot m" "get32 (encodeMeta m) 36 = mFreeListPage m"
  "get32 (encodeMeta m) 40 = mFreeCount m" "get32 (encodeMeta m) 44 = mNextPage m"
  "get32 (encodeMeta m) 48 = mFilePages m" "get32 (encodeMeta m) 52 = mCheckpoint m"
  by (simp_all add: encodeMeta_def Let_def Magic_def page_simps is_page_length slice_simps)

lemma encodeMeta_magic: "subslice 16 8 (encodeMeta m) = Magic"
  by (simp add: encodeMeta_def Let_def Magic_def page_simps is_page_length slice_simps)

definition this_format :: "Meta \<Rightarrow> bool" where
  "this_format m \<longleftrightarrow> mVersion m = Version \<and> mPageSize m = 4096"

lemma decode_encode: "this_format m \<Longrightarrow> decodeMeta (encodeMeta m) = Inr m"
  by (simp add: decodeMeta_def this_format_def encodeMeta_fields encodeMeta_magic MetaPage_def)

lemma decodeMeta_format: "decodeMeta p = Inr m \<Longrightarrow> this_format m"
  by (auto simp: decodeMeta_def this_format_def split: if_splits)

text \<open>A meta page is one sector long: what follows is zero in every one of them.\<close>

lemma encodeMeta_tail:
  assumes "56 \<le> j" "j < 4096"
  shows "encodeMeta m ! j = 0"
proof -
  have z: "NewPage i k ! j = 0" for i k
    using nth_subslice [of j "NewPage i k"] NewPage_body [of j 1] assms is_page_length [OF is_page_NewPage]
    by simp
  show ?thesis
    using assms z
    by (simp add: encodeMeta_def Let_def Magic_def SetFreeStart_def page_simps is_page_length slice_simps nth_overwrite)
qed

lemma encodeMeta_inject: "encodeMeta m = encodeMeta m' \<longleftrightarrow> m = m'"
  using encodeMeta_fields [of m] encodeMeta_fields [of m'] by (auto intro: Meta.equality)

lemma meta_not_blank: "encodeMeta m ! 16 \<noteq> 0"
proof -
  have "subslice 16 8 (encodeMeta m) ! 0 = Magic ! 0" by (simp add: encodeMeta_magic)
  then show ?thesis by (simp add: subslice_nth Magic_def)
qed

section \<open>A free-list page\<close>

lemma list_entries_nth: "length (list_entries p i n) = n"
  "j < n \<Longrightarrow> list_entries p i n ! j = get32 p (20 + 4 * (i + j))"
proof -
  show "length (list_entries p i n) = n" by (induction n arbitrary: i) auto
  show "j < n \<Longrightarrow> list_entries p i n ! j = get32 p (20 + 4 * (i + j))"
    by (induction n arbitrary: i j) (auto simp: nth_Cons split: nat.split)
qed

lemma put_entries_page:
  assumes "is_page p" "4 * (j + length es) + 20 \<le> 4096"
  shows "is_page (put_entries p j es) \<and> ID (put_entries p j es) = ID p
    \<and> KindOf (put_entries p j es) = KindOf p \<and> FreeEnd (put_entries p j es) = FreeEnd p
    \<and> (\<forall>k < 20 + 4 * j. put_entries p j es ! k = p ! k)
    \<and> (\<forall>off. off + 4 \<le> 20 + 4 * j \<longrightarrow> get32 (put_entries p j es) off = get32 p off)
    \<and> list_entries (put_entries p j es) j (length es) = es"
  using assms
proof (induction es arbitrary: p j)
  case (Cons e es)
  let ?p = "put32 p (20 + 4 * j) e"
  have p: "is_page ?p" "length p = 4096" using Cons.prems by (simp_all add: page_simps is_page_length)
  have IH: "is_page (put_entries ?p (Suc j) es)" "ID (put_entries ?p (Suc j) es) = ID ?p"
    "KindOf (put_entries ?p (Suc j) es) = KindOf ?p" "FreeEnd (put_entries ?p (Suc j) es) = FreeEnd ?p"
    "\<forall>k < 24 + 4 * j. put_entries ?p (Suc j) es ! k = ?p ! k"
    "\<forall>off. off + 4 \<le> 24 + 4 * j \<longrightarrow> get32 (put_entries ?p (Suc j) es) off = get32 ?p off"
    "list_entries (put_entries ?p (Suc j) es) (Suc j) (length es) = es"
    using Cons.IH [of ?p "Suc j"] p(1) Cons.prems(2) by (simp_all add: algebra_simps)
  show ?case
    using IH Cons.prems p by (simp add: page_simps slice_simps)
qed simp

definition page_link :: "Page \<Rightarrow> PageID" where
  "page_link p = get32 p offFreeListNext"

definition page_items :: "Page \<Rightarrow> PageID list" where
  "page_items p = list_entries p 0 (unat (ItemCount p))"

definition list_ok :: "PageID \<Rightarrow> Page \<Rightarrow> bool" where
  "list_ok i p \<longleftrightarrow> is_page p \<and> KindOf p = KindFreeList \<and> ID p = i
     \<and> unat (ItemCount p) \<le> FreeListCapacity"

lemma FreeListCapacity [simp]: "FreeListCapacity = 1019"
  by (simp add: FreeListCapacity_def)

lemma list_page_written:
  assumes "k * 1019 \<le> length entries"
  obtains p where "list_page entries k i rest = Some p" "list_ok i p"
    "page_link p = (case rest of [] \<Rightarrow> NoPage | n # _ \<Rightarrow> n)"
    "page_items p = take 1019 (drop (k * 1019) entries)"
proof -
  let ?next = "case rest of [] \<Rightarrow> NoPage | n # _ \<Rightarrow> n"
  let ?es = "take 1019 (drop (k * 1019) entries)"
  let ?n = "length ?es"
  let ?q = "put_entries (put32 (NewPage i KindFreeList) 16 ?next) 0 ?es"
  let ?p = "SetFreeStart (SetItemCount ?q (word_of_nat ?n)) (word_of_nat (20 + 4 * ?n))"
  have n: "?n \<le> 1019" by simp
  have q: "is_page ?q" "ID ?q = i" "KindOf ?q = KindFreeList" "get32 ?q 16 = ?next"
    "list_entries ?q 0 ?n = ?es"
    using put_entries_page [of "put32 (NewPage i KindFreeList) 16 ?next" 0 ?es] n
    by (simp_all add: page_simps is_page_length slice_simps)
  have hi: "(if k * 1019 + 1019 > length entries then length entries else k * 1019 + 1019)
      = k * 1019 + ?n"
    using assms by auto
  have "take ?n (drop (k * 1019) entries) = ?es" by (simp add: min_def)
  then have s: "slice_of entries (k * 1019) (k * 1019 + ?n) = Some ?es"
    using assms unfolding slice_of_def by auto
  have eq: "list_page entries k i rest = Some ?p"
    unfolding list_page_def Let_def FreeListCapacity hi s by simp
  have le: "list_entries ?p 0 m = list_entries ?q 0 m" for m
  proof (rule nth_equalityI)
    fix j assume "j < length (list_entries ?p 0 m)"
    then have "j < m" by (simp add: list_entries_nth)
    then show "list_entries ?p 0 m ! j = list_entries ?q 0 m ! j"
      using q(1) by (simp add: list_entries_nth page_simps)
  qed (simp add: list_entries_nth)
  have u: "unat (word_of_nat ?n :: u16) = ?n" using n by (simp add: unat_of_nat del: length_take length_drop)
  have "list_ok i ?p" using q n u by (simp add: list_ok_def page_simps del: length_take length_drop)
  moreover have "page_link ?p = ?next" using q by (simp add: page_link_def page_simps)
  moreover have "page_items ?p = ?es"
    using q u le by (simp add: page_items_def page_simps del: length_take length_drop)
  ultimately show thesis using that [of ?p] eq by blast
qed

section \<open>The chain of free-list pages\<close>

fun chain :: "(PageID \<Rightarrow> bytes) \<Rightarrow> PageID \<Rightarrow> PageID list \<Rightarrow> bool" where
  "chain f i [] \<longleftrightarrow> i = NoPage"
| "chain f i (l # ls) \<longleftrightarrow> i = l \<and> l \<noteq> NoPage \<and> list_ok l (f l) \<and> chain f (page_link (f l)) ls"

definition chain_items :: "(PageID \<Rightarrow> bytes) \<Rightarrow> PageID list \<Rightarrow> PageID list" where
  "chain_items f ls = concat (map (\<lambda>l. page_items (f l)) ls)"

lemma chain_items_simps [simp]:
  "chain_items f [] = []" "chain_items f (l # ls) = page_items (f l) @ chain_items f ls"
  by (simp_all add: chain_items_def)

lemma chain_cong:
  "(\<And>l. l \<in> set ls \<Longrightarrow> f l = g l) \<Longrightarrow> chain f i ls = chain g i ls \<and> chain_items f ls = chain_items g ls"
  by (induction ls arbitrary: i) auto

lemma chain_determined: "chain f i ls \<Longrightarrow> chain f i ls' \<Longrightarrow> ls = ls'"
proof (induction ls arbitrary: i ls')
  case (Cons l ls)
  then show ?case by (cases ls') auto
qed (case_tac ls'; auto)

abbreviation live_page :: "Dev \<Rightarrow> PageID \<Rightarrow> bytes" where
  "live_page d i \<equiv> page_of (live d) (unat i)"

lemma read_lists_sound:
  "read_lists d m i seen es ls = (r, d') \<Longrightarrow>
   same_file d d' \<and> (\<forall>x. r = Inr x \<longrightarrow>
     (\<exists>L. x = (es @ chain_items (live_page d) L, ls @ L) \<and> chain (live_page d) i L
        \<and> distinct L \<and> set L \<inter> seen = {} \<and> (\<forall>l \<in> set L. l < mNextPage m \<and> has_page (live d) (unat l))))"
proof (induction d m i seen es ls arbitrary: r d' rule: read_lists.induct)
  case (1 d m i seen es ls)
  note eq = 1(2) [unfolded read_lists.simps [of d m i seen es ls]]
  show ?case
  proof (cases "i = NoPage \<or> mNextPage m \<le> i \<or> i \<in> seen")
    case True
    then show ?thesis using eq by (auto split: if_splits intro: exI [of _ "[]"])
  next
    case False
    note stop = False
    obtain q d1 where rd: "ReadPage d i = (q, d1)" by fastforce
    have s1: "same_file d d1" using ReadPage_same [OF rd] .
    show ?thesis
    proof (cases q)
      case (Inl e)
      then show ?thesis using eq stop rd s1 by auto
    next
      case (Inr p)
      note pd = ReadPage_data [OF rd [unfolded Inr]]
      show ?thesis
      proof (cases "list_ok i p")
        case False
        then have "(\<forall>x. r \<noteq> Inr x) \<and> d' = d1"
          using eq stop rd Inr pd(3)
          by (auto simp: list_ok_def Let_def split: if_splits)
        then show ?thesis using s1 by blast
      next
        case True
        then have c: "\<not> KindOf p \<noteq> KindFreeList" "\<not> ID p \<noteq> i" "\<not> unat (ItemCount p) > FreeListCapacity"
          by (simp_all add: list_ok_def)
        have rest: "read_lists d1 m (page_link p) (insert i seen) (es @ page_items p) (ls @ [i]) = (r, d')"
          using eq stop rd Inr c by (simp add: page_link_def page_items_def Let_def)
        have n: "\<not> i = NoPage" "\<not> mNextPage m \<le> i" "\<not> i \<in> seen" using stop by auto
        note IH = 1(1) [OF n rd [symmetric] Inr c(1,2) refl c(3),
            unfolded page_link_def [symmetric] page_items_def [symmetric], OF rest]
        have l: "live d1 = live d" using s1 by (simp add: same_file_def)
        show ?thesis
        proof (intro conjI allI impI)
          show "same_file d d'" using s1 IH same_file_trans by blast
          fix x assume "r = Inr x"
          then obtain L where L: "x = ((es @ page_items p) @ chain_items (live_page d) L, (ls @ [i]) @ L)"
            "chain (live_page d) (page_link p) L" "distinct L" "set L \<inter> insert i seen = {}"
            "\<forall>l \<in> set L. l < mNextPage m \<and> has_page (live d) (unat l)"
            using IH l by auto
          show "\<exists>L. x = (es @ chain_items (live_page d) L, ls @ L) \<and> chain (live_page d) i L
              \<and> distinct L \<and> set L \<inter> seen = {} \<and> (\<forall>l \<in> set L. l < mNextPage m \<and> has_page (live d) (unat l))"
            using L n True pd by (intro exI [of _ "i # L"]) auto
        qed
      qed
    qed
  qed
qed

lemma read_lists_ok:
  "chain (live_page d) i L \<Longrightarrow> distinct L \<Longrightarrow> set L \<inter> seen = {} \<Longrightarrow>
   \<forall>l \<in> set L. l < mNextPage m \<and> has_page (live d) (unat l) \<Longrightarrow> sched d = [] \<Longrightarrow> \<not> dev_closed d \<Longrightarrow>
   read_lists d m i seen es ls = (Inr (es @ chain_items (live_page d) L, ls @ L), d)"
proof (induction L arbitrary: i seen es ls)
  case (Cons l L)
  then have ok: "list_ok l (live_page d l)" "i = l" "l \<noteq> NoPage" "l \<notin> seen" "\<not> mNextPage m \<le> l"
    by auto
  have "ReadPage d l = (Inr (live_page d l), d)" using Cons.prems by (simp add: ReadPage_ok)
  then show ?case
    using ok Cons.prems Cons.IH [of "page_link (live_page d l)" "insert l seen" "es @ page_items (live_page d l)" "ls @ [l]"]
    by (subst read_lists.simps) (simp add: list_ok_def page_link_def page_items_def Let_def)
qed (simp add: read_lists.simps)

section \<open>The checks, as predicates\<close>

lemma checkMeta_None:
  "checkMeta m n = None \<longleftrightarrow>
     mNextPage m \<noteq> 0 \<and> mNextPage m \<le> mFilePages m \<and> mFilePages m \<le> n
     \<and> (mRoot m = NoPage \<or> mRoot m < mNextPage m)"
  by (auto simp: checkMeta_def not_less not_le)

lemma check_lists_result:
  "check_lists m ls seen =
     (if mRoot m \<noteq> NoPage \<and> mRoot m \<in> set ls then Inl (ErrCorrupt (RootIsListPage (mRoot m)))
      else Inr (\<lambda>i. if i \<in> set ls then Some stFreeList else seen i))"
  by (induction ls arbitrary: seen) auto

lemma check_entries_None:
  "check_entries m es seen = None \<longleftrightarrow>
     (\<forall>i \<in> set es. i \<noteq> MetaPage \<and> i < mNextPage m \<and> seen i = None \<and> i \<noteq> mRoot m) \<and> distinct es"
  by (induction es arbitrary: seen) (auto simp: not_le split: option.split)

lemma checkFreeSet_None:
  "checkFreeSet m es ls = None \<longleftrightarrow>
     (mRoot m = NoPage \<or> mRoot m \<notin> set ls) \<and> distinct es
     \<and> (\<forall>i \<in> set es. i \<noteq> MetaPage \<and> i < mNextPage m \<and> i \<notin> set ls \<and> i \<noteq> mRoot m)"
  by (auto simp: checkFreeSet_def check_lists_result check_entries_None split: if_splits)

section \<open>A checkpoint held by a device\<close>

type_synonym snapshot = "Meta \<times> PageID list \<times> PageID list"

text \<open>The meta, the free pages and the pages holding the free list fit together.\<close>

definition meta_ok :: "snapshot \<Rightarrow> bool" where
  "meta_ok c = (case c of (m, E, L) \<Rightarrow>
     this_format m \<and> mNextPage m \<noteq> 0 \<and> mNextPage m \<le> mFilePages m
     \<and> (mRoot m = NoPage \<or> mRoot m < mNextPage m) \<and> mFreeCount m = word_of_nat (length E)
     \<and> distinct (E @ L) \<and> (\<forall>i \<in> set (E @ L). i \<noteq> 0 \<and> i < mNextPage m \<and> i \<noteq> mRoot m))"

text \<open>Everything of a checkpoint but its meta page is on the drive to stay.\<close>

definition held :: "Dev \<Rightarrow> snapshot \<Rightarrow> bool" where
  "held d c = (case c of (m, E, L) \<Rightarrow>
     meta_ok c \<and> chain (live_page d) (mFreeListPage m) L \<and> chain_items (live_page d) L = E
     \<and> (\<forall>l \<in> set L. stable d (unat l))
     \<and> 4096 * unat (mFilePages m) \<le> length (live d) \<and> 4096 * unat (mFilePages m) \<le> length (disk d))"

text \<open>Page 0 is the meta page of one of the checkpoints, wherever one looks, and every unconfirmed
  write to it is one, or its first sectors.\<close>

definition meta_at :: "Meta set \<Rightarrow> bytes \<Rightarrow> bool" where
  "meta_at M img \<longleftrightarrow> has_page img 0 \<and> (\<exists>m \<in> M. page_of img 0 = encodeMeta m)"

definition meta_write :: "Meta set \<Rightarrow> logged \<Rightarrow> bool" where
  "meta_write M w \<longleftrightarrow> (\<exists>m \<in> M. \<exists>k. w = (0, take (512 * k) (encodeMeta m)))"

definition meta_disk :: "Dev \<Rightarrow> Meta set \<Rightarrow> bool" where
  "meta_disk d M \<longleftrightarrow> meta_at M (live d) \<and> meta_at M (disk d)
     \<and> (\<forall>w \<in> set (wlog d). avoids w 0 \<or> meta_write M w)"

definition sound :: "Dev \<Rightarrow> snapshot set \<Rightarrow> bool" where
  "sound d C \<longleftrightarrow> (\<forall>c \<in> C. held d c) \<and> meta_disk d (fst ` C)"

lemma meta_at_mono: "meta_at M img \<Longrightarrow> M \<subseteq> N \<Longrightarrow> meta_at N img"
  by (auto simp: meta_at_def)

lemma nth_page0: "has_page img 0 \<Longrightarrow> j < 4096 \<Longrightarrow> page_of img 0 ! j = img ! j"
  using page_of_nth [of img 0 j] by simp

lemma meta_at_iff:
  "meta_at M img \<longleftrightarrow> 4096 \<le> length img \<and> (\<exists>m \<in> M. \<forall>j < 4096. img ! j = encodeMeta m ! j)"
proof -
  have "page_of img 0 = encodeMeta m \<longleftrightarrow> (\<forall>j < 4096. img ! j = encodeMeta m ! j)"
    if "4096 \<le> length img" for m
    using that by (auto simp: list_eq_iff_nth_eq has_page_def page_of_def subslice_def)
  then show ?thesis by (auto simp: meta_at_def has_page_def)
qed

text \<open>A torn write of a meta page over a meta page is the new one or the old one: both are zero
  after the first sector.\<close>

lemma meta_at_masked:
  assumes "meta_at M img" "meta_write M w"
  shows "meta_at M (apply_write keep w img)"
proof -
  obtain m k where w: "w = (0, take (512 * k) (encodeMeta m))" "m \<in> M"
    using assms(2) by (auto simp: meta_write_def)
  obtain m0 where m0: "m0 \<in> M" "\<forall>j < 4096. img ! j = encodeMeta m0 ! j" and l: "4096 \<le> length img"
    using assms(1) by (auto simp: meta_at_iff)
  let ?p = "take (512 * k) (encodeMeta m)"
  let ?img = "write_into img 0 (masked keep img 0 ?p)"
  have len: "length ?p \<le> 4096" by simp
  have nth: "?img ! j = (if j < length ?p \<and> keep (j div 512) then ?p ! j else img ! j)" if "j < 4096" for j
    using that l len by (simp add: nth_write_into masked_def)
  have tail: "encodeMeta m1 ! j = 0" if "512 \<le> j" "j < 4096" for m1 j
    using that encodeMeta_tail [of j m1] by simp
  have "meta_at M ?img"
  proof (cases "k = 0 \<or> \<not> keep 0")
    case True
    have "?img ! j = encodeMeta m0 ! j" if j: "j < 4096" for j
    proof (cases "j < length ?p \<and> keep (j div 512)")
      case k: True
      then have "512 \<le> j" using True by (cases "j < 512") auto
      then show ?thesis using nth [OF j] k tail [of j] j by simp
    qed (use nth [OF j] m0 j in auto)
    then show ?thesis using l m0(1) by (auto simp: meta_at_iff length_write_into)
  next
    case False
    have "?img ! j = encodeMeta m ! j" if j: "j < 4096" for j
    proof (cases "j < 512")
      case True
      then have "j < length ?p" using False by (cases k) auto
      then show ?thesis using nth [OF j] False True by simp
    next
      case False
      then show ?thesis using nth [OF j] tail [of j m] tail [of j m0] m0(2) j by auto
    qed
    then show ?thesis using l w(2) by (auto simp: meta_at_iff length_write_into)
  qed
  then show ?thesis using assms(1) by (simp add: w(1))
qed

lemma meta_at_apply_log:
  "meta_at M img \<Longrightarrow> \<forall>w \<in> set ws. avoids w 0 \<or> meta_write M w \<Longrightarrow> meta_at M (apply_log kept n ws img)"
proof (induction ws arbitrary: n img)
  case (Cons w ws)
  have "meta_at M (apply_write (kept n) w img)"
  proof (cases "avoids w 0")
    case True
    then show ?thesis using Cons.prems apply_write_other [OF True] by (auto simp: meta_at_def)
  next
    case False
    then show ?thesis using Cons.prems meta_at_masked by simp
  qed
  then show ?case using Cons by simp
qed simp

section \<open>What keeps a checkpoint safe\<close>

lemma held_iff:
  "held d (m, E, L) \<longleftrightarrow>
     meta_ok (m, E, L) \<and> chain (live_page d) (mFreeListPage m) L \<and> chain_items (live_page d) L = E
     \<and> (\<forall>l \<in> set L. stable d (unat l))
     \<and> 4096 * unat (mFilePages m) \<le> length (live d) \<and> 4096 * unat (mFilePages m) \<le> length (disk d)"
  by (simp add: held_def)

lemma held_keep:
  assumes "held d (m, E, L)" "length (live d) \<le> length (live d')" "length (disk d) \<le> length (disk d')"
    and "\<And>l. l \<in> set L \<Longrightarrow> stable d (unat l) \<Longrightarrow> stable d' (unat l) \<and> live_page d' l = live_page d l"
  shows "held d' (m, E, L)"
  using assms chain_cong [of L "live_page d" "live_page d'"] unfolding held_iff by fastforce

lemma held_frame:
  assumes "held d (m, E, L)" "frame P d d'" "unat ` set L \<subseteq> P"
  shows "held d' (m, E, L)"
proof (rule held_keep [OF assms(1)])
  show "length (live d) \<le> length (live d')" "length (disk d) \<le> length (disk d')"
    using assms(2) by (simp_all add: frame_def)
  fix l assume "l \<in> set L" "stable d (unat l)"
  then show "stable d' (unat l) \<and> live_page d' l = live_page d l"
    using assms(2,3) frame_stable frame_live by (auto simp: stable_def)
qed

lemma held_power_loss: "held d c \<Longrightarrow> held (power_loss kept sc d) c"
proof (cases c)
  case (fields m E L)
  assume h: "held d c"
  have "length (live (power_loss kept sc d)) = length (disk (power_loss kept sc d))"
    by (simp add: power_loss_def Let_def)
  moreover have "4096 * unat (mFilePages m) \<le> length (disk (power_loss kept sc d))"
    using h length_apply_log [of "disk d" kept 0 "wlog d"] fields
    by (simp add: held_iff power_loss_def Let_def)
  moreover have "chain (live_page (power_loss kept sc d)) (mFreeListPage m) L"
    "chain_items (live_page (power_loss kept sc d)) L = E"
    using h fields stable_survives chain_cong [of L "live_page d" "live_page (power_loss kept sc d)"]
    by (auto simp: held_iff)
  ultimately show ?thesis
    using h fields stable_power_loss by (simp add: held_iff)
qed

lemma held_restart [simp]: "held (restart sc d) c = held d c"
  by (cases c) (simp add: held_iff, simp add: restart_def)

lemma held_same_file: "same_file d d' \<Longrightarrow> held d' c = held d c"
  by (cases c) (simp add: held_iff same_file_def stable_def clean_def)

lemma meta_disk_same_file: "same_file d d' \<Longrightarrow> meta_disk d' M = meta_disk d M"
  by (simp add: meta_disk_def same_file_def)

lemma sound_same_file: "same_file d d' \<Longrightarrow> sound d' C = sound d C"
  using held_same_file meta_disk_same_file by (simp add: sound_def)

lemma sound_restart [simp]: "sound (restart sc d) C = sound d C"
  by (simp add: sound_def meta_disk_def) (simp add: restart_def)

lemma meta_disk_mono: "meta_disk d M \<Longrightarrow> M \<subseteq> N \<Longrightarrow> meta_disk d N"
  unfolding meta_disk_def meta_write_def using meta_at_mono by blast

lemma sound_insert: "sound d C \<Longrightarrow> held d c \<Longrightarrow> sound d (insert c C)"
  using meta_disk_mono [of d "fst ` C" "fst ` insert c C"] by (auto simp: sound_def)

lemma sound_nonempty: "sound d C \<Longrightarrow> C \<noteq> {}"
  by (auto simp: sound_def meta_disk_def meta_at_def)

text \<open>After a power loss the file is one of the checkpoints.\<close>

lemma sound_power_loss:
  assumes "sound d C"
  obtains c where "c \<in> C" "sound (power_loss kept sc d) {c}"
proof -
  let ?d = "power_loss kept sc d"
  have "meta_at (fst ` C) (apply_log kept 0 (wlog d) (disk d))"
    using assms by (intro meta_at_apply_log) (auto simp: sound_def meta_disk_def)
  then obtain c where c: "c \<in> C" "meta_at {fst c} (live ?d)"
    by (auto simp: meta_at_def power_loss_def Let_def)
  then have "meta_disk ?d {fst c}"
    by (simp add: meta_disk_def power_loss_def Let_def)
  then show thesis
    using that [of c] c assms held_power_loss by (auto simp: sound_def)
qed

lemma meta_write_full: "m \<in> M \<Longrightarrow> meta_write M (0, encodeMeta m)"
  unfolding meta_write_def by (intro bexI [of _ m] exI [of _ 8]) simp_all

lemma write_into_masked: "write_into img off (masked (all_kept n) img off p) = write_into img off p"
  by simp

lemma meta_at_write_into:
  assumes "meta_at M img" "meta_write M (0, p)"
  shows "meta_at M (write_into img 0 p)"
proof (cases "p = []")
  case True
  have "write_into img 0 [] = img" by (simp add: write_into_def)
  then show ?thesis using assms True by simp
next
  case False
  then have "\<exists>j. j < length p \<and> all_kept 0 (j div 512)" by (auto simp: all_kept_def)
  then show ?thesis using meta_at_masked [OF assms, of "all_kept 0"] by simp
qed

lemma meta_disk_log_write:
  assumes "meta_disk d M" "meta_write M (0, p)"
  shows "meta_disk (log_write d 0 p) M"
  using assms meta_at_write_into by (auto simp: meta_disk_def log_write_def)

lemma WriteMeta_disk:
  assumes "WritePage d (encodeMeta m) = (e, d')" "m \<in> M" "meta_disk d M"
  shows "meta_disk d' M"
proof -
  have off: "Offset (ID (encodeMeta m)) = 0" by (simp add: Offset_def)
  obtain e1 where w: "WriteAt d (encodeMeta m) 0 = (e1, d')"
    using assms(1) off by (auto simp: WritePage_def split: prod.splits option.splits)
  show ?thesis
  proof (cases "dev_closed d")
    case False
    obtain f d1 where n: "next_fault d = (f, d1)" "same_file d d1" by (rule next_fault_same)
    have d1: "meta_disk d1 M" using assms(3) n(2) by (simp add: meta_disk_same_file)
    have "meta_write M (0, take (512 * k) (encodeMeta m))" for k
      using assms(2) by (auto simp: meta_write_def)
    then show ?thesis
      using w False n d1 meta_disk_log_write [OF d1] meta_write_full [OF assms(2)]
      by (auto simp: WriteAt_def split: fault.splits if_splits)
  qed (use w assms(3) in \<open>simp add: WriteAt_def\<close>)
qed

lemma meta_ok_lists: "meta_ok (m, E, L) \<Longrightarrow> unat ` set L \<subseteq> - {0}"
  by (auto simp: meta_ok_def unat_eq_0)

lemma WriteMeta_frame: "WritePage d (encodeMeta m) = (e, d') \<Longrightarrow> progress (- {0}) d d'"
  by (erule WritePage_progress) simp

lemma held_WriteMeta:
  assumes "WritePage d (encodeMeta m) = (e, d')" "held d c"
  shows "held d' c"
proof (cases c)
  case (fields m' E L)
  have "unat ` set L \<subseteq> - {0}"
    using assms(2) fields meta_ok_lists [of m' E L] by (simp add: held_iff)
  then show ?thesis
    using assms(2) fields progress_frame [OF WriteMeta_frame [OF assms(1)]] held_frame by blast
qed

lemma sound_WriteMeta:
  "WritePage d (encodeMeta m) = (e, d') \<Longrightarrow> m \<in> fst ` C \<Longrightarrow> sound d C \<Longrightarrow> sound d' C"
  using held_WriteMeta WriteMeta_disk by (auto simp: sound_def)

lemma sound_SyncPages:
  assumes "SyncPages d = (e, d')" "sound d C"
  shows "sound d' C"
proof -
  have h: "held d' c" if "c \<in> C" for c
    using assms that SyncPages_frame [OF assms(1), of UNIV] held_frame
    by (cases c) (auto simp: sound_def)
  obtain e1 where s: "SyncFile d = (e1, d')" using SyncPages_file [OF assms(1)] by blast
  have "meta_disk d' (fst ` C)"
  proof (cases "dev_closed d")
    case False
    obtain f d1 where n: "next_fault d = (f, d1)" "same_file d d1" by (rule next_fault_same)
    obtain kept where d': "live d' = live d" "disk d' = apply_log kept 0 (wlog d) (disk d)" "wlog d' = []"
      using s False n by (auto simp: SyncFile_def same_file_def split: fault.splits)
    show ?thesis
      using assms(2) d' meta_at_apply_log by (auto simp: sound_def meta_disk_def)
  qed (use s assms(2) in \<open>simp add: SyncFile_def sound_def\<close>)
  then show ?thesis using h by (simp add: sound_def)
qed

text \<open>Once the commit's fsync has returned, only the new checkpoint is left.\<close>

lemma sound_single:
  assumes "held d (m, E, L)" "stable d 0" "page_of (live d) 0 = encodeMeta m"
  shows "sound d {(m, E, L)}"
  using assms by (auto simp: sound_def meta_disk_def meta_at_def stable_def clean_def)

lemma commit_stable:
  assumes "WritePage d (encodeMeta m) = (None, d1)" "SyncPages d1 = (None, d2)"
  shows "stable d2 0" "page_of (live d2) 0 = encodeMeta m"
  using WritePage_done(4,5) [OF assms(1)] SyncPages_done(1,5) [OF assms(2)] by simp_all

end
