(* ===== verification/StoreText.thy ===== *)
theory StoreText
  imports StoreOps Text
begin

text \<open>
  \<open>pagestore/describe.go\<close>: the texts that show a store's pages and lists.  \<open>DescribeMeta\<close>, which prints
  the magic bytes with the quoting rules of \<open>strconv\<close>, is left out.
\<close>

text \<open>The rows of 16 bytes from \<open>off\<close> up to \<open>to\<close>; \<open>None\<close> where the page is too short.\<close>

function hexRows :: "bytes \<Rightarrow> nat \<Rightarrow> nat \<Rightarrow> string option" where
  "hexRows p off to =
     (if off < to then
        do { line \<leftarrow> slice_of p off (off + 16);
             rest \<leftarrow> hexRows p (off + 16) to;
             Some (dump_line line off @ rest) }
      else Some [])"
  by pat_completeness auto
termination by (relation "measure (\<lambda>(p, off, to). to - off)") auto

declare hexRows.simps [simp del]

definition rootLabel :: "PageID \<Rightarrow> string" where
  "rootLabel i =
     (if i = NoPage then ''root = none yet (0 is safe: page 0 is always this page)''
      else ''root = page '' @ dec (unat i))"

definition listLabel :: "PageID \<Rightarrow> string" where
  "listLabel i =
     (if i = NoPage then ''free list = none (nothing is free)'' else ''free list starts on page '' @ dec (unat i))"

definition joinIDs :: "PageID list \<Rightarrow> string" where
  "joinIDs ids = (if ids = [] then ''none'' else join '' '' (map (\<lambda>i. dec (unat i)) ids))"

definition entry_line :: "nat \<Rightarrow> string \<Rightarrow> string \<Rightarrow> string" where
  "entry_line w label t = pad_right w label @ '' '' @ t @ nl"

definition DescribeFreeList :: "Store \<Rightarrow> string" where
  "DescribeFreeList s =
     entry_line 26 ''reusable now'' (joinIDs (free s))
     @ entry_line 26 ''pending, after checkpoint'' (joinIDs (pending s))
     @ entry_line 26 ''holding the free list'' (joinIDs (listPage s))"

text \<open>The count of pages in use, which the code derives from the lists.\<close>

definition used_pages :: "Store \<Rightarrow> int" where
  "used_pages s =
     int (unat (nextPage s)) - 1 - int (length (free s)) - int (length (pending s)) - int (length (listPage s))"

definition StoreDescribe :: "Store \<Rightarrow> string" where
  "StoreDescribe s =
     entry_line 28 ''file holds''
       (dec (unat (filePages s)) @ '' pages, '' @ dec (unat (filePages s) * PageSize) @ '' bytes'')
     @ entry_line 28 ''handed out so far'' (dec_int (int (unat (nextPage s)) - 1))
     @ entry_line 28 ''  in use'' (dec_int (used_pages s))
     @ entry_line 28 ''  free, reusable now'' (dec (length (free s)))
     @ entry_line 28 ''  freed, waiting on a checkpoint'' (dec (length (pending s)))
     @ entry_line 28 ''  holding the free list'' (dec (length (listPage s)))
     @ entry_line 28 ''never handed out'' (dec (unat (filePages s - nextPage s)))
     @ entry_line 28 ''root'' (rootLabel (root s))
     @ entry_line 28 ''checkpoint generation'' (dec (unat (mCheckpoint (durable s))))"

end
