(* ===== verification/StoreInv.thy ===== *)
theory StoreInv
  imports StoreDisk StoreText
begin

text \<open>
  The invariant of an open store: every page handed out is in exactly one state, the file is long
  enough, and the last checkpoint is on the drive untouched.  Every page operation keeps it, and
  writes only where its caller may expect.
\<close>

section \<open>The invariant\<close>

definition state_of :: "Store \<Rightarrow> PageID \<Rightarrow> pageState option" where
  "state_of s i =
     (if i \<in> set (free s) then Some stFree
      else if i \<in> set (pending s) then Some stPending
      else if i \<in> set (listPage s) then Some stFreeList
      else None)"

definition mem_ok :: "Store \<Rightarrow> bool" where
  "mem_ok s \<longleftrightarrow>
     distinct (free s @ pending s @ listPage s)
     \<and> (\<forall>i \<in> set (free s @ pending s @ listPage s). i \<noteq> 0 \<and> i < nextPage s)
     \<and> (\<forall>i. status s i = state_of s i)
     \<and> nextPage s \<noteq> 0 \<and> nextPage s \<le> filePages s
     \<and> (root s = NoPage \<or> root s < nextPage s \<and> status s (root s) = None)"

definition file_ok :: "Store \<Rightarrow> bool" where
  "file_ok s \<longleftrightarrow> 4096 * unat (filePages s) \<le> length (live (pf s))
     \<and> 4096 * unat (filePages s) \<le> length (flushed (pf s))"

definition disk_ok :: "Store \<Rightarrow> PageID list \<Rightarrow> bool" where
  "disk_ok s E \<longleftrightarrow>
     held (pf s) (durable s, E, listPage s) \<and> stable (pf s) 0
     \<and> page_of (live (pf s)) 0 = encodeMeta (durable s)
     \<and> set (free s) \<subseteq> set E \<and> mNextPage (durable s) \<le> nextPage s
     \<and> mFilePages (durable s) \<le> filePages s"

definition store_ok :: "Store \<Rightarrow> PageID list \<Rightarrow> bool" where
  "store_ok s E \<longleftrightarrow> mem_ok s \<and> file_ok s \<and> disk_ok s E"

lemma state_of_update [simp]:
  "state_of (s\<lparr>pf := d\<rparr>) = state_of s" "state_of (s\<lparr>root := i\<rparr>) = state_of s"
  "state_of (s\<lparr>dirty := b\<rparr>) = state_of s" "state_of (s\<lparr>stats := st\<rparr>) = state_of s"
  "state_of (s\<lparr>status := m\<rparr>) = state_of s" "state_of (s\<lparr>nextPage := i\<rparr>) = state_of s"
  "state_of (s\<lparr>filePages := n\<rparr>) = state_of s" "state_of (s\<lparr>poisoned := p\<rparr>) = state_of s"
  "state_of (s\<lparr>closed := c\<rparr>) = state_of s"
  by (simp_all add: fun_eq_iff state_of_def)

lemma mem_ok_update [simp]:
  "mem_ok (s\<lparr>pf := d\<rparr>) = mem_ok s" "mem_ok (s\<lparr>dirty := b\<rparr>) = mem_ok s"
  "mem_ok (s\<lparr>stats := st\<rparr>) = mem_ok s" "mem_ok (s\<lparr>poisoned := p\<rparr>) = mem_ok s"
  "mem_ok (s\<lparr>closed := c\<rparr>) = mem_ok s"
  by (simp_all add: mem_ok_def)

text \<open>The pages an operation that is not a client's own write must leave alone: everything handed
  out but the pages that are free for reuse.\<close>

definition busy :: "Store \<Rightarrow> nat set" where
  "busy s = unat ` {i. i < nextPage s \<and> i \<notin> set (free s)}"

lemma NoPage_zero [simp]: "NoPage = 0" "MetaPage = 0"
  by (simp_all add: NoPage_def MetaPage_def)

lemma unat_u32_eq [simp]: "unat (a :: u32) = unat b \<longleftrightarrow> a = b"
  by (simp add: word_unat_eq_iff)

lemma mem_ok_status: "mem_ok s \<Longrightarrow> status s i = state_of s i"
  by (simp add: mem_ok_def)

lemma mem_ok_member:
  "mem_ok s \<Longrightarrow> i \<in> set (free s) \<Longrightarrow> i \<noteq> 0 \<and> i < nextPage s \<and> status s i = Some stFree"
  "mem_ok s \<Longrightarrow> i \<in> set (pending s) \<Longrightarrow> i \<noteq> 0 \<and> i < nextPage s \<and> status s i = Some stPending"
  "mem_ok s \<Longrightarrow> i \<in> set (listPage s) \<Longrightarrow> i \<noteq> 0 \<and> i < nextPage s \<and> status s i = Some stFreeList"
  by (auto simp: mem_ok_def state_of_def)

lemma inRange_None: "inRange i s = None \<longleftrightarrow> i \<noteq> 0 \<and> i < nextPage s"
  by (auto simp: inRange_def)

lemma owned_None: "owned i s = None \<longleftrightarrow> i \<noteq> 0 \<and> i < nextPage s \<and> status s i = None"
  by (auto simp: owned_def inRange_def split: option.split)

text \<open>The pages in use that \<open>Describe\<close> counts.\<close>

lemma used_pages_owned:
  assumes "mem_ok s"
  shows "used_pages s = int (card {i. owned i s = None})"
proof -
  let ?ls = "free s @ pending s @ listPage s"
  have m: "distinct ?ls" "set ?ls \<subseteq> {i. i \<noteq> 0 \<and> i < nextPage s}" "\<And>i. status s i = state_of s i"
    "nextPage s \<noteq> 0"
    using assms by (auto simp: mem_ok_def)
  have "{i. i < nextPage s} = word_of_nat ` {0..<unat (nextPage s)}" (is "?below = _")
  proof
    show "?below \<subseteq> word_of_nat ` {0..<unat (nextPage s)}"
      by (auto simp: word_less_nat_alt intro!: image_eqI [of _ _ "unat _"])
    show "word_of_nat ` {0..<unat (nextPage s)} \<subseteq> ?below"
      using unat_u32 [of "nextPage s"] by (auto simp: word_less_nat_alt unat_of_nat)
  qed
  moreover have "inj_on (word_of_nat :: nat \<Rightarrow> u32) {0..<unat (nextPage s)}"
    using unat_u32 [of "nextPage s"] by (auto simp: inj_on_def dest!: arg_cong [of _ _ unat] simp: unat_of_nat)
  ultimately have below: "card ?below = unat (nextPage s)" by (simp add: card_image)
  have "{i. owned i s = None} = ?below - {0} - set ?ls"
    using m(3) by (auto simp: owned_None state_of_def)
  moreover have "card (?below - {0} - set ?ls) = card (?below - {0}) - length ?ls"
    using m(2) by (subst card_Diff_subset) (auto simp: distinct_card [OF m(1)] simp del: set_append)
  moreover have "card (?below - {0}) = unat (nextPage s) - 1"
    using m(4) below by (subst card_Diff_singleton) (auto simp: word_gt_0)
  moreover have "length ?ls \<le> card (?below - {0})"
    unfolding distinct_card [OF m(1), symmetric] using m(2) by (intro card_mono) auto
  moreover have "0 < unat (nextPage s)" using m(4) by (simp add: unat_gt_0)
  ultimately show ?thesis by (simp add: used_pages_def)
qed

lemma owned_lists: "mem_ok s \<Longrightarrow> owned i s = None \<Longrightarrow>
  i \<noteq> 0 \<and> i \<notin> set (free s) \<and> i \<notin> set (pending s) \<and> i \<notin> set (listPage s)"
  by (auto simp: owned_None mem_ok_status state_of_def split: if_splits)

lemma usable_None: "usable s = None \<longleftrightarrow> poisoned s = None \<and> \<not> closed s"
  by (auto simp: usable_def split: option.split)

lemma disk_ok_sound: "disk_ok s E \<Longrightarrow> sound (pf s) {(durable s, E, listPage s)}"
  by (simp add: disk_ok_def sound_single)

text \<open>The pattern of every operation: the file makes progress away from the meta page and the list
  pages, and only the memory changes otherwise.\<close>

lemma disk_ok_step:
  assumes "disk_ok s E" "mem_ok s" "progress P (pf s) (pf s')" "unat ` insert 0 (set (listPage s)) \<subseteq> P"
    and "durable s' = durable s" "listPage s' = listPage s" "set (free s') \<subseteq> set (free s)"
    "nextPage s \<le> nextPage s'" "filePages s \<le> filePages s'"
  shows "disk_ok s' E"
proof -
  note f = progress_frame [OF assms(3)]
  have "held (pf s') (durable s, E, listPage s)"
    using assms(1,4) f held_frame by (fastforce simp: disk_ok_def)
  moreover have "stable (pf s') 0" "page_of (live (pf s')) 0 = page_of (live (pf s)) 0"
    using assms(1,4) frame_stable [OF f, of 0] frame_live [OF f, of 0]
    by (auto simp: disk_ok_def stable_def)
  ultimately show ?thesis
    using assms by (auto simp: disk_ok_def)
qed

lemma file_ok_step:
  assumes "file_ok s" "progress P (pf s) (pf s')" "filePages s' = filePages s"
  shows "file_ok s'"
  using assms by (auto simp: file_ok_def progress_def frame_def)

lemma busy_protects: "mem_ok s \<Longrightarrow> unat ` insert 0 (set (listPage s)) \<subseteq> busy s"
  unfolding busy_def
  by (rule image_mono) (auto simp: mem_ok_def word_gt_0)

lemma same_file_store:
  assumes "store_ok s E" "same_file (pf s) d"
  shows "store_ok (s\<lparr>pf := d\<rparr>) E"
proof -
  have "mem_ok (s\<lparr>pf := d\<rparr>)" using assms(1) by (simp add: store_ok_def)
  moreover have "file_ok (s\<lparr>pf := d\<rparr>)"
    using assms file_ok_step [of s UNIV "s\<lparr>pf := d\<rparr>"] same_file_progress by (simp add: store_ok_def)
  moreover have "disk_ok (s\<lparr>pf := d\<rparr>) E"
    using assms disk_ok_step [of s E UNIV "s\<lparr>pf := d\<rparr>"] same_file_progress by (simp add: store_ok_def)
  ultimately show ?thesis by (simp add: store_ok_def)
qed

section \<open>The operations that do not touch the file\<close>

lemma busy_pf [simp]: "busy (s\<lparr>pf := d\<rparr>) = busy s"
  by (simp add: busy_def)

lemma SetRoot_ok:
  assumes "store_ok s E" "SetRoot i s = (r, s')"
  shows "store_ok s' E \<and> pf s' = pf s \<and> (r = None \<longrightarrow> root s' = i) \<and> (r \<noteq> None \<longrightarrow> s' = s)"
proof (cases "usable s = None \<and> (i = 0 \<or> owned i s = None)")
  case True
  then have s': "s' = s\<lparr>root := i, dirty := True\<rparr>" "r = None"
    using assms(2) by (auto simp: SetRoot_def split: option.splits if_splits)
  have "mem_ok s'" "file_ok s'" "disk_ok s' E"
    using assms(1) True s'
    by (auto simp: store_ok_def mem_ok_def file_ok_def disk_ok_def owned_None)
  then show ?thesis using s' by (simp add: store_ok_def)
next
  case False
  then have "s' = s" "r \<noteq> None"
    using assms(2) by (cases "usable s"; cases "owned i s"; auto simp: SetRoot_def)+
  then show ?thesis using assms(1) by auto
qed

lemma FreePage_ok:
  assumes "store_ok s E" "FreePage i s = (r, s')"
  shows "store_ok s' E \<and> pf s' = pf s \<and> (r \<noteq> None \<longrightarrow> s' = s)
    \<and> (r = None \<longrightarrow> pending s' = pending s @ [i] \<and> owned i s = None \<and> i \<noteq> root s)"
proof (cases "usable s = None \<and> i \<noteq> 0 \<and> i < nextPage s \<and> status s i = None \<and> i \<noteq> root s")
  case True
  then have o: "owned i s = None" by (simp add: owned_None)
  have s': "s' = s\<lparr>pending := pending s @ [i], status := (status s)(i \<mapsto> stPending), dirty := True,
                   stats := (stats s)\<lparr>Freed := Freed (stats s) + 1\<rparr>\<rparr>" "r = None"
    using assms(2) True inRange_None [of i s] by (auto simp: FreePage_def)
  have m: "mem_ok s" using assms(1) by (simp add: store_ok_def)
  note l = owned_lists [OF m o]
  have st: "state_of (s\<lparr>pending := pending s @ [i]\<rparr>) x = (if x = i then Some stPending else state_of s x)" for x
    using l by (simp add: state_of_def)
  have "mem_ok s'"
    using m l True by (auto simp: mem_ok_def s'(1) st)
  moreover have "file_ok s'" "disk_ok s' E"
    using assms(1) by (simp_all add: s' store_ok_def file_ok_def disk_ok_def)
  ultimately show ?thesis using s' o True by (simp add: store_ok_def)
next
  case False
  then have "s' = s" "r \<noteq> None"
    using assms(2) inRange_None [of i s]
    by (cases "usable s"; cases "inRange i s"; cases "status s i"; auto simp: FreePage_def split: if_splits)+
  then show ?thesis using assms(1) by simp
qed

section \<open>Reading and writing\<close>

lemma StoreRead_ok:
  assumes "store_ok s E" "StoreRead i s = (r, s')"
  shows "store_ok s' E \<and> s' = s\<lparr>pf := pf s'\<rparr> \<and> same_file (pf s) (pf s')"
proof (cases "usable s = None \<and> owned i s = None")
  case True
  obtain q d where rd: "ReadPage (pf s) i = (q, d)" by fastforce
  then have "s' = s\<lparr>pf := d\<rparr>" "same_file (pf s) d"
    using assms(2) True ReadPage_same [OF rd] by (auto simp: StoreRead_def split: sum.splits)
  then show ?thesis using assms(1) same_file_store by simp
next
  case False
  then have "s' = s" using assms(2) by (auto simp: StoreRead_def split: option.splits)
  then show ?thesis using assms(1) by simp
qed

lemma StoreWrite_ok:
  assumes "store_ok s E" "StoreWrite p s = Some (r, s')"
  shows "store_ok s' E \<and> durable s' = durable s \<and> progress (- {unat (ID p)}) (pf s) (pf s')
    \<and> (r = None \<longrightarrow> owned (ID p) s = None \<and> is_page p \<and> agree (pf s') (unat (ID p))
        \<and> live_page (pf s') (ID p) = p \<and> s' = s\<lparr>pf := pf s', dirty := True\<rparr>)
    \<and> (r \<noteq> None \<longrightarrow> s' = s\<lparr>pf := pf s'\<rparr>)"
proof (cases "usable s = None \<and> owned (ID p) s = None")
  case True
  obtain e d where w: "WritePage (pf s) p = (e, d)" by fastforce
  have pr: "progress (- {unat (ID p)}) (pf s) d" using WritePage_progress [OF w] by simp
  have s': "s' = (if e = None then s\<lparr>pf := d, dirty := True\<rparr> else s\<lparr>pf := d\<rparr>)" "r = None \<longleftrightarrow> e = None"
    using assms(2) True w by (auto simp: StoreWrite_def split: if_splits option.splits)
  have pr': "progress (- {unat (ID p)}) (pf s) (pf s')" using pr s' by simp
  have m: "mem_ok s" using assms(1) by (simp add: store_ok_def)
  have "unat ` insert 0 (set (listPage s)) \<subseteq> - {unat (ID p)}"
    using owned_lists [OF m, of "ID p"] True by (auto simp: unat_gt_0)
  then have "disk_ok s' E"
    using assms(1) m pr' s' by (intro disk_ok_step [of s E _ s']) (auto simp: store_ok_def)
  moreover have "file_ok s'"
    using assms(1) pr' s' file_ok_step by (auto simp: store_ok_def)
  moreover have "mem_ok s'" using m s' by simp
  moreover have "is_page p" "agree d (unat (ID p))" "live_page d (ID p) = p" if "e = None"
    using w that WritePage_done(1,4,5) by auto
  ultimately show ?thesis using pr' s' True by (simp add: store_ok_def)
next
  case False
  then have "s' = s" "r \<noteq> None"
    using assms(2) by (cases "usable s"; cases "owned (ID p) s"; auto simp: StoreWrite_def split: if_splits)+
  then show ?thesis using assms(1) by auto
qed

section \<open>Allocating\<close>

lemma growTo_unat: "unat (growTo f) = min (unat f + 16) 4294967295"
  by (auto simp: growTo_def Let_def ChunkPages_def MaxPages_def unat_of_nat)

lemma MaxPages_less: "\<not> MaxPages \<le> i \<Longrightarrow> unat (i + 1) = Suc (unat i)"
proof -
  assume "\<not> MaxPages \<le> i"
  then have "unat i < 4294967295" by (simp add: MaxPages_def word_le_nat_alt)
  then show ?thesis using unat_add_lem [of i 1] by simp
qed

lemma page_le_iff: "i \<le> j \<longleftrightarrow> unat i \<le> unat (j :: u32)" "i < j \<longleftrightarrow> unat i < unat (j :: u32)"
  by (simp_all add: word_le_nat_alt word_less_nat_alt)

lemma busy_below: "i \<in> busy s \<Longrightarrow> i < unat (nextPage s)"
  by (auto simp: busy_def page_le_iff)

lemma has_page_le: "4096 * n \<le> length img \<Longrightarrow> i < n \<Longrightarrow> has_page img i"
  by (simp add: has_page_def)

lemma all_pages_length:
  assumes "\<And>j. a \<le> j \<Longrightarrow> j < b \<Longrightarrow> has_page img j" "4096 * a \<le> length img"
  shows "4096 * b \<le> length img"
proof (cases "a < b")
  case True
  then show ?thesis using assms(1) [of "b - 1"] by (simp add: has_page_def)
qed (use assms(2) in simp)

lemma pick_reused_mem:
  assumes "mem_ok s" "free s = xs @ [i]"
  shows "mem_ok (s\<lparr>free := xs, status := (status s)(i := None)\<rparr>)"
    "i \<noteq> 0" "i < nextPage s" "status s i = Some stFree" "i \<notin> set xs"
proof -
  have d: "i \<notin> set xs" "i \<notin> set (pending s)" "i \<notin> set (listPage s)"
    and sub: "distinct xs" "set xs \<inter> (set (pending s) \<union> set (listPage s)) = {}"
    and n: "i \<noteq> 0" "i < nextPage s" and st: "status s x = state_of s x" for x
    using assms by (auto simp: mem_ok_def)
  have st': "state_of (s\<lparr>free := xs\<rparr>) x = (if x = i then None else state_of s x)" for x
    using d assms(2) by (simp add: state_of_def)
  show "mem_ok (s\<lparr>free := xs, status := (status s)(i := None)\<rparr>)"
    using assms(1) sub st by (auto simp: mem_ok_def st' assms(2))
  show "i \<noteq> 0" "i < nextPage s" "status s i = Some stFree" "i \<notin> set xs"
    using d n st by (simp_all add: state_of_def assms(2))
qed

lemma pick_new_mem:
  assumes "mem_ok s" "\<not> MaxPages \<le> nextPage s" "nextPage s + 1 \<le> n"
  shows "mem_ok (s\<lparr>nextPage := nextPage s + 1, filePages := n\<rparr>)"
proof -
  have u: "unat (nextPage s + 1) = Suc (unat (nextPage s))" using MaxPages_less [OF assms(2)] .
  have l: "i < nextPage s \<Longrightarrow> i < nextPage s + 1" for i by (simp add: page_le_iff(2) u)
  have "nextPage s + 1 \<noteq> 0" using u by (metis unat_0 nat.distinct(1))
  then show ?thesis
    using assms(1,3) l by (auto simp: mem_ok_def)
qed

lemma pick_page_cases:
  assumes "pick_page s = (Inr i, s1)"
  obtains (reused) xs where "free s = xs @ [i]" "s1 = s\<lparr>free := xs, status := (status s)(i := None)\<rparr>"
  | (new) "free s = []" "i = nextPage s" "\<not> MaxPages \<le> i" "\<not> filePages s \<le> i"
      "s1 = s\<lparr>nextPage := i + 1\<rparr>"
  | (grown) d where "free s = []" "i = nextPage s" "\<not> MaxPages \<le> i" "filePages s \<le> i"
      "\<not> growTo (filePages s) \<le> i" "Grow (pf s) (filePages s) (growTo (filePages s)) = (None, d)"
      "s1 = s\<lparr>pf := d, filePages := growTo (filePages s),
              stats := (stats s)\<lparr>Grown := Grown (stats s) + 1\<rparr>, nextPage := i + 1\<rparr>"
proof (cases "free s = []")
  case False
  then have "free s = butlast (free s) @ [i]" "s1 = s\<lparr>free := butlast (free s), status := (status s)(i := None)\<rparr>"
    using assms by (auto simp: pick_page_def Let_def)
  then show thesis by (rule reused)
next
  case True
  then have i: "i = nextPage s" "\<not> MaxPages \<le> i"
    using assms by (auto simp: pick_page_def Let_def split: if_splits prod.splits option.splits)
  show thesis
  proof (cases "filePages s \<le> i")
    case False
    then show thesis using assms True i by (intro new) (auto simp: pick_page_def Let_def)
  next
    case fp: True
    obtain e d where g: "Grow (pf s) (filePages s) (growTo (filePages s)) = (e, d)" by fastforce
    then show thesis
      using assms True i fp
      by (intro grown [of d]) (auto simp: pick_page_def Let_def split: if_splits option.splits)
  qed
qed

lemma pick_page_err: "pick_page s = (Inl e, s1) \<Longrightarrow> s1 = s\<lparr>pf := pf s1\<rparr> \<and>
    (\<forall>P. (\<forall>j \<in> P. j < unat (filePages s)) \<longrightarrow> progress P (pf s) (pf s1))"
  using Grow_progress [of "pf s" "filePages s" "growTo (filePages s)"]
  by (auto simp: pick_page_def Let_def split: if_splits option.splits prod.splits)

text \<open>Picking a page: the store keeps its invariant, only pages that are not busy may be touched,
  and the page is one nothing else uses.\<close>

lemma pick_page_mem:
  assumes "mem_ok s" "pick_page s = (Inr i, s1)"
  shows "mem_ok s1" "i \<noteq> 0" "i < nextPage s1" "unat i \<notin> busy s" "status s1 i = None"
    "i \<notin> set (free s1)" "busy s \<subseteq> busy s1"
proof -
  have nx: "status s (nextPage s) = None" "nextPage s \<noteq> 0" "nextPage s \<notin> set (free s)"
    using assms(1) mem_ok_status [OF assms(1), of "nextPage s"]
    by (auto simp: state_of_def mem_ok_def dest: less_imp_neq)
  have bz: "unat (nextPage s) \<notin> busy s" using busy_below by blast
  have new_mem: "mem_ok (s\<lparr>nextPage := nextPage s + 1\<rparr>)" if "\<not> MaxPages \<le> nextPage s" "\<not> filePages s \<le> nextPage s"
  proof -
    have "nextPage s + 1 \<le> filePages s"
      using that MaxPages_less [OF that(1)] by (simp add: page_le_iff)
    then have "mem_ok (s\<lparr>nextPage := nextPage s + 1, filePages := filePages s\<rparr>)"
      by (rule pick_new_mem [OF assms(1) that(1)])
    then show ?thesis by (auto simp: mem_ok_def)
  qed
  have l: "nextPage s < nextPage s + 1" if "\<not> MaxPages \<le> nextPage s"
    using MaxPages_less [OF that] by (simp add: page_le_iff)
  have all: "mem_ok s1 \<and> i \<noteq> 0 \<and> i < nextPage s1 \<and> unat i \<notin> busy s \<and> status s1 i = None
      \<and> i \<notin> set (free s1) \<and> busy s \<subseteq> busy s1"
    using assms(2)
  proof (cases rule: pick_page_cases)
    case (reused xs)
    then show ?thesis using pick_reused_mem [OF assms(1) reused(1)] by (auto simp: busy_def)
  next
    case new
    then show ?thesis using new_mem nx bz l by (auto simp: busy_def intro: less_trans)
  next
    case (grown d)
    have "nextPage s + 1 \<le> growTo (filePages s)"
      using grown MaxPages_less [of "nextPage s"] by (simp add: page_le_iff)
    then have "mem_ok (s\<lparr>nextPage := nextPage s + 1, filePages := growTo (filePages s)\<rparr>)"
      using pick_new_mem [OF assms(1)] grown by simp
    then have "mem_ok s1" unfolding grown by (auto simp: mem_ok_def)
    then show ?thesis using grown nx bz l by (auto simp: busy_def intro: less_trans)
  qed
  then show "mem_ok s1" "i \<noteq> 0" "i < nextPage s1" "unat i \<notin> busy s" "status s1 i = None"
    "i \<notin> set (free s1)" "busy s \<subseteq> busy s1" by blast+
qed

lemma Grow_file_ok:
  assumes "file_ok s" "Grow (pf s) (filePages s) n = (None, d)" "filePages s \<le> n"
  shows "4096 * unat n \<le> length (live d)" "4096 * unat n \<le> length (flushed d)"
proof -
  have p: "progress {} (pf s) d" using Grow_progress [OF assms(2)] by blast
  have "4096 * unat (filePages s) \<le> length (live d)" "4096 * unat (filePages s) \<le> length (flushed d)"
    using assms(1) p by (auto simp: file_ok_def progress_def frame_def)
  then show "4096 * unat n \<le> length (live d)" "4096 * unat n \<le> length (flushed d)"
    using Grow_done [OF assms(2)] all_pages_length [of "unat (filePages s)" "unat n"]
    unfolding agree_def by blast+
qed

lemma growTo_le: "f \<le> growTo f"
  using unat_u32 [of f] by (simp add: page_le_iff growTo_unat)

lemma pick_page_file:
  assumes "mem_ok s" "file_ok s" "pick_page s = (Inr i, s1)"
  shows "progress (busy s) (pf s) (pf s1)" "file_ok s1"
proof -
  have b: "j < unat (filePages s)" if "j \<in> busy s" for j
    using assms(1) busy_below [OF that] by (simp add: mem_ok_def page_le_iff)
  show "progress (busy s) (pf s) (pf s1)"
    using assms(3) Grow_progress b by (cases rule: pick_page_cases) auto
  show "file_ok s1"
    using assms(3)
  proof (cases rule: pick_page_cases)
    case (grown d)
    then show ?thesis using Grow_file_ok [OF assms(2) grown(6) growTo_le] by (simp add: file_ok_def)
  qed (use assms(2) in \<open>simp_all add: file_ok_def\<close>)
qed

lemma pick_page_fields:
  assumes "pick_page s = (Inr i, s1)"
  shows "durable s1 = durable s" "listPage s1 = listPage s" "pending s1 = pending s"
    "root s1 = root s" "usable s1 = usable s" "set (free s1) \<subseteq> set (free s)"
    "nextPage s \<le> nextPage s1" "filePages s \<le> filePages s1"
    "free s = [] \<Longrightarrow> s1\<lparr>nextPage := i, filePages := filePages s, pf := pf s,
        stats := (stats s1)\<lparr>Grown := Grown (stats s)\<rparr>\<rparr> = s"
proof -
  have l: "nextPage s \<le> nextPage s + 1" if "\<not> MaxPages \<le> nextPage s"
    using MaxPages_less [OF that] by (simp add: page_le_iff)
  show "durable s1 = durable s" "listPage s1 = listPage s" "pending s1 = pending s"
    "root s1 = root s" "usable s1 = usable s" "set (free s1) \<subseteq> set (free s)"
    "nextPage s \<le> nextPage s1" "filePages s \<le> filePages s1"
    "free s = [] \<Longrightarrow> s1\<lparr>nextPage := i, filePages := filePages s, pf := pf s,
        stats := (stats s1)\<lparr>Grown := Grown (stats s)\<rparr>\<rparr> = s"
    using assms l growTo_le by (cases rule: pick_page_cases; force simp: usable_def)+
qed

lemma pick_page_back:
  assumes "mem_ok s" "pick_page s = (Inr i, s1)" "free s \<noteq> []"
  shows "s1\<lparr>free := free s1 @ [i], status := (status s1)(i \<mapsto> stFree)\<rparr> = s"
  using assms(2)
proof (cases rule: pick_page_cases)
  case (reused xs)
  have "(status s)(i \<mapsto> stFree) = status s"
    using pick_reused_mem(4) [OF assms(1) reused(1)] by (simp add: map_upd_triv)
  then show ?thesis using reused by simp
qed (use assms(3) in simp_all)

lemma store_ok_pf:
  assumes "store_ok s E" "progress P (pf s) d" "unat ` insert 0 (set (listPage s)) \<subseteq> P"
  shows "store_ok (s\<lparr>pf := d\<rparr>) E"
proof -
  have "disk_ok (s\<lparr>pf := d\<rparr>) E"
    by (rule disk_ok_step [of s E P]) (use assms in \<open>simp_all add: store_ok_def\<close>)
  moreover have "file_ok (s\<lparr>pf := d\<rparr>)"
    by (rule file_ok_step [of s P]) (use assms in \<open>simp_all add: store_ok_def\<close>)
  ultimately show ?thesis using assms(1) by (simp add: store_ok_def)
qed

lemma store_ok_update [simp]:
  "store_ok (s\<lparr>dirty := b\<rparr>) E = store_ok s E" "store_ok (s\<lparr>stats := st\<rparr>) E = store_ok s E"
  "store_ok (s\<lparr>poisoned := p\<rparr>) E = store_ok s E" "store_ok (s\<lparr>closed := c\<rparr>) E = store_ok s E"
  by (simp_all add: store_ok_def file_ok_def disk_ok_def)

lemma pick_page_ok:
  assumes "store_ok s E" "pick_page s = (Inr i, s1)"
  shows "store_ok s1 E"
proof -
  have m: "mem_ok s" and f: "file_ok s" and d: "disk_ok s E" using assms(1) by (simp_all add: store_ok_def)
  have "disk_ok s1 E"
    by (rule disk_ok_step [OF d m pick_page_file(1) [OF m f assms(2)] busy_protects [OF m]])
      (use pick_page_fields [OF assms(2)] in simp_all)
  then show ?thesis
    using pick_page_mem(1) [OF m assms(2)] pick_page_file(2) [OF m f assms(2)] by (simp add: store_ok_def)
qed

lemma Allocate_err:
  assumes "store_ok s E" "Allocate kind s = (Inl e, s')"
  shows "s' = s\<lparr>pf := pf s'\<rparr> \<and> progress (busy s) (pf s) (pf s') \<and> store_ok s' E"
proof -
  have m: "mem_ok s" and f: "file_ok s" using assms(1) by (simp_all add: store_ok_def)
  have all: "s' = s\<lparr>pf := pf s'\<rparr> \<and> progress (busy s) (pf s) (pf s')"
  proof (cases "usable s")
    case None
    obtain q s1 where pk: "pick_page s = (q, s1)" by fastforce
    show ?thesis
    proof (cases q)
      case (Inl e1)
      have "s' = s1" using assms(2) None pk Inl by (simp add: Allocate_def)
      moreover have "\<forall>j \<in> busy s. j < unat (filePages s)"
        using m busy_below by (fastforce simp: mem_ok_def page_le_iff)
      ultimately show ?thesis using pick_page_err [OF pk [unfolded Inl]] by blast
    next
      case (Inr i)
      note pk = pk [unfolded Inr]
      note fields = pick_page_fields [OF pk] pick_page_mem [OF m pk]
      obtain e1 d where w: "WritePage (pf s1) (NewPage i kind) = (e1, d)" by fastforce
      have e1: "e1 \<noteq> None" using assms(2) None pk w by (cases e1) (simp_all add: Allocate_def Let_def)
      have "progress (busy s) (pf s1) d"
        using WritePage_progress [OF w] fields(13) by (simp add: page_simps)
      then have pr: "progress (busy s) (pf s) d"
        using pick_page_file(1) [OF m f pk] progress_trans by blast
      have "s' = s\<lparr>pf := d\<rparr>"
      proof (cases "free s = []")
        case True
        have "s' = (s1\<lparr>nextPage := i, filePages := filePages s, pf := pf s,
            stats := (stats s1)\<lparr>Grown := Grown (stats s)\<rparr>\<rparr>)\<lparr>pf := d\<rparr>"
          using assms(2) None pk w e1 True by (auto simp: Allocate_def Let_def)
        then show ?thesis using fields(9) [OF True] by simp
      next
        case False
        have "s' = (s1\<lparr>free := free s1 @ [i], status := (status s1)(i \<mapsto> stFree)\<rparr>)\<lparr>pf := d\<rparr>"
          using assms(2) None pk w e1 False by (auto simp: Allocate_def Let_def)
        then show ?thesis using pick_page_back [OF m pk False] by simp
      qed
      then show ?thesis using pr by simp
    qed
  qed (use assms(2) in \<open>simp add: Allocate_def\<close>)
  then show ?thesis
    using store_ok_pf [OF assms(1), of "busy s" "pf s'"] busy_protects [OF m] by simp
qed

lemma Allocate_ok:
  assumes "store_ok s E" "Allocate kind s = (Inr p, s')"
  shows "store_ok s' E" "progress (busy s) (pf s) (pf s')" "busy s \<subseteq> busy s'" "durable s' = durable s"
    "unat (ID p) \<notin> busy s" "owned (ID p) s' = None" "p = NewPage (ID p) kind"
    "agree (pf s') (unat (ID p))" "live_page (pf s') (ID p) = p" "dirty s'" "usable s' = None"
    "root s' = root s" "pending s' = pending s" "listPage s' = listPage s" "usable s = None"
proof -
  have m: "mem_ok s" and f: "file_ok s" using assms(1) by (simp_all add: store_ok_def)
  have u: "usable s = None" using assms(2) by (auto simp: Allocate_def split: option.splits)
  obtain i s1 where pk: "pick_page s = (Inr i, s1)"
    using assms(2) u by (auto simp: Allocate_def Let_def split: prod.splits sum.splits)
  obtain d where w: "WritePage (pf s1) (NewPage i kind) = (None, d)" and p: "p = NewPage i kind"
    and s': "\<exists>st. s' = s1\<lparr>pf := d, stats := st, dirty := True\<rparr>"
    using assms(2) u pk
    by (auto simp: Allocate_def Let_def split: prod.splits sum.splits option.splits)
  have i: "ID p = i" by (simp add: p page_simps)
  note fields = pick_page_fields [OF pk] and mem = pick_page_mem [OF m pk]
  have pr: "progress P (pf s1) d" if "unat i \<notin> P" for P
    using WritePage_progress [OF w] that by (simp add: page_simps)
  have m1: "mem_ok s1" using mem(1) .
  have "i \<notin> set (listPage s1)"
    using mem(5) mem_ok_member(3) [OF m1] by fastforce
  then have "store_ok (s1\<lparr>pf := d\<rparr>) E"
    using mem(2) by (intro store_ok_pf [OF pick_page_ok [OF assms(1) pk], of "- {unat i}"] pr)
      (auto simp: unat_gt_0)
  then show "store_ok s' E" using s' by auto
  have d: "pf s' = d" using s' by auto
  show "progress (busy s) (pf s) (pf s')"
    using progress_trans [OF pick_page_file(1) [OF m f pk] pr [OF mem(4)]] by (simp add: d)
  show "busy s \<subseteq> busy s'" using mem(7) s' by (auto simp: busy_def)
  show "unat (ID p) \<notin> busy s" "p = NewPage (ID p) kind" using mem(4) i p by simp_all
  show "agree (pf s') (unat (ID p))" "live_page (pf s') (ID p) = p"
    using WritePage_done(4,5) [OF w] by (simp_all add: d p page_simps)
  show "owned (ID p) s' = None"
    using mem(2,3,5) s' i by (auto simp: owned_None)
  show "dirty s'" "durable s' = durable s" "usable s' = None" "root s' = root s" "pending s' = pending s"
    "listPage s' = listPage s" "usable s = None"
    using s' fields u by (auto simp: usable_None)
qed

text \<open>Of the pages of the file \<open>Allocate\<close> touches the one it picks and no other.\<close>

definition picked :: "Store \<Rightarrow> PageID" where
  "picked s = (if free s = [] then nextPage s else last (free s))"

lemma picked_free:
  assumes "mem_ok s"
  shows "unat (picked s) \<notin> busy s" "picked s \<noteq> 0" "picked s \<notin> set (pending s)" "picked s \<notin> set (listPage s)"
proof -
  have "unat (picked s) \<notin> busy s \<and> picked s \<noteq> 0 \<and> picked s \<notin> set (pending s) \<and> picked s \<notin> set (listPage s)"
  proof (cases "free s = []")
    case True
    have "unat (nextPage s) \<notin> busy s" using busy_below by blast
    moreover have "nextPage s \<noteq> 0" using assms by (simp add: mem_ok_def)
    ultimately show ?thesis using True mem_ok_member(2,3) [OF assms, of "nextPage s"] by (auto simp: picked_def)
  next
    case False
    then have l: "last (free s) \<in> set (free s)" by simp
    then have "unat (last (free s)) \<notin> busy s" by (auto simp: busy_def)
    moreover have "last (free s) \<notin> set (pending s)" "last (free s) \<notin> set (listPage s)"
      using assms l by (auto simp: mem_ok_def)
    ultimately show ?thesis using mem_ok_member(1) [OF assms l] False by (simp add: picked_def)
  qed
  then show "unat (picked s) \<notin> busy s" "picked s \<noteq> 0" "picked s \<notin> set (pending s)" "picked s \<notin> set (listPage s)"
    by blast+
qed

lemma pick_page_touches:
  assumes "pick_page s = (q, s1)"
  shows "progress {j. j < unat (filePages s)} (pf s) (pf s1)" "q = Inr i \<Longrightarrow> i = picked s"
proof -
  show "i = picked s" if "q = Inr i"
    using assms [unfolded that] by (cases rule: pick_page_cases) (auto simp: picked_def)
  show "progress {j. j < unat (filePages s)} (pf s) (pf s1)"
  proof (cases q)
    case (Inl e)
    from conjunct2 [OF pick_page_err [OF assms [unfolded Inl]]] show ?thesis by simp
  next
    case (Inr i)
    from assms [unfolded Inr] show ?thesis
    proof (cases rule: pick_page_cases)
      case (grown d)
      have "progress {j. j < unat (filePages s)} (pf s) d" by (rule Grow_progress [OF grown(6)]) simp
      then show ?thesis using grown(7) by simp
    qed simp_all
  qed
qed

lemma Allocate_touches:
  assumes "Allocate kind s = (r, s')"
  shows "frame ({j. j < unat (filePages s)} - {unat (picked s)}) (pf s) (pf s')" "r = Inr p \<Longrightarrow> ID p = picked s"
proof -
  let ?P = "{j. j < unat (filePages s)} - {unat (picked s)}"
  have "frame ?P (pf s) (pf s') \<and> (\<forall>p. r = Inr p \<longrightarrow> ID p = picked s)"
  proof (cases "usable s")
    case None
    obtain q s1 where pk: "pick_page s = (q, s1)" by fastforce
    note t = pick_page_touches [OF pk]
    have f1: "frame ?P (pf s) (pf s1)" by (rule frame_mono [OF progress_frame [OF t(1)] Diff_subset])
    show ?thesis
    proof (cases q)
      case (Inl e)
      then show ?thesis using assms None pk f1 by (auto simp: Allocate_def)
    next
      case (Inr i)
      obtain e d where w: "WritePage (pf s1) (NewPage i kind) = (e, d)" by fastforce
      have i: "i = picked s" using t(2) Inr by blast
      have "frame ?P (pf s1) d"
        by (rule progress_frame [OF WritePage_progress [OF w]]) (simp add: i page_simps)
      with f1 have "frame ?P (pf s) d" by (rule frame_trans)
      moreover have "pf s' = d \<and> (\<forall>p. r = Inr p \<longrightarrow> p = NewPage i kind)"
        using assms None pk Inr w by (cases e) (auto simp: Allocate_def Let_def)
      ultimately show ?thesis using i by (auto simp: page_simps)
    qed
  qed (use assms in \<open>auto simp: Allocate_def\<close>)
  then show "frame ?P (pf s) (pf s')" "r = Inr p \<Longrightarrow> ID p = picked s" by blast+
qed

section \<open>Sync\<close>

lemma SyncStore_ok:
  assumes "store_ok s E" "SyncStore s = (r, s')"
  shows "(poisoned s' = poisoned s \<and> store_ok s' E \<and> progress UNIV (pf s) (pf s')
      \<and> s' = s\<lparr>pf := pf s'\<rparr> \<and> (r = None \<longrightarrow> (\<forall>i. agree (pf s) i \<longrightarrow> stable (pf s') i)))
    \<or> (r \<noteq> None \<and> poisoned s' \<noteq> None \<and> frame UNIV (pf s) (pf s')
      \<and> durable s' = durable s \<and> root s' = root s
      \<and> sound (pf s') {(durable s, E, listPage s)})"
proof (cases "usable s")
  case None
  obtain e d where sy: "SyncPages (pf s) = (e, d)" by fastforce
  show ?thesis
  proof (cases e)
    case n: None
    then have s': "s' = s\<lparr>pf := d\<rparr>" "r = None" using assms(2) None sy by (simp_all add: SyncStore_def)
    note sd = SyncPages_done [OF sy [unfolded n]]
    have "store_ok (s\<lparr>pf := d\<rparr>) E" by (rule store_ok_pf [OF assms(1) sd(4) [where P = UNIV]]) simp
    then show ?thesis using s' sd(4,5) by simp
  next
    case (Some x)
    then have s': "s' = s\<lparr>pf := d, poisoned := Some x\<rparr>" "r \<noteq> None"
      using assms(2) None sy by (auto simp: SyncStore_def poison_def usable_None)
    have "sound (pf s) {(durable s, E, listPage s)}"
      using assms(1) disk_ok_sound by (simp add: store_ok_def)
    then show ?thesis
      using s' sound_SyncPages [OF sy] SyncPages_frame [OF sy] by simp
  qed
next
  case (Some a)
  then show ?thesis using assms by (auto simp: SyncStore_def)
qed

end
