(* ===== verification/StoreCheckpoint.thy ===== *)
theory StoreCheckpoint
  imports StoreInv
begin

text \<open>
  The checkpoint: the pages it takes for the new free list, the chain it writes into them, and the
  commit.  Whatever call of the file fails, and wherever, the file afterwards describes the old
  checkpoint or the new one.
\<close>

section \<open>Planning the list pages\<close>

text \<open>No page is lost: what was free, or was handed out by the plan, is still free or on the list.\<close>

definition covers :: "Store \<Rightarrow> plan \<Rightarrow> bool" where
  "covers s p \<longleftrightarrow>
     (\<forall>i. i \<in> set (free s) \<or> nextPage s \<le> i \<and> i < p_next p \<longrightarrow> i \<in> set (p_free p) \<union> set (p_lists p))"

definition plan_ok :: "Store \<Rightarrow> nat \<Rightarrow> plan \<Rightarrow> bool" where
  "plan_ok s fixed p \<longleftrightarrow>
     distinct (p_free p @ p_lists p) \<and> set (p_free p) \<subseteq> set (free s)
     \<and> (\<forall>i \<in> set (p_lists p). i \<noteq> 0 \<and> i < p_next p \<and> (i \<in> set (free s) \<or> nextPage s \<le> i))
     \<and> nextPage s \<le> p_next p \<and> p_next p \<le> p_file p \<and> filePages s \<le> p_file p
     \<and> (length (p_lists p) - 1) * 1019 \<le> length (p_free p) + fixed
     \<and> covers s p"

definition dev_holds :: "Dev \<Rightarrow> u32 \<Rightarrow> bool" where
  "dev_holds d n \<longleftrightarrow> 4096 * unat n \<le> length (live d) \<and> 4096 * unat n \<le> length (flushed d)"

lemma dev_holds_progress: "dev_holds d n \<Longrightarrow> progress P d d' \<Longrightarrow> dev_holds d' n"
  by (auto simp: dev_holds_def progress_def frame_def)

lemma Grow_holds:
  assumes "dev_holds d f" "Grow d f n = (None, d')" "f \<le> n"
  shows "dev_holds d' n"
proof -
  have "dev_holds d' f" using dev_holds_progress [OF assms(1)] Grow_progress [OF assms(2), of "{}"] by blast
  then show ?thesis
    using Grow_done [OF assms(2)] all_pages_length [of "unat f" "unat n"]
    unfolding dev_holds_def agree_def by blast
qed

lemma pagesFor_gt: "k < pagesFor n \<longleftrightarrow> k * 1019 < n"
proof -
  have "k < (n + 1018) div 1019 \<longleftrightarrow> Suc k * 1019 \<le> n + 1018"
    using less_eq_div_iff_mult_less_eq [of 1019 "Suc k" "n + 1018"] by (simp add: Suc_le_eq)
  then show ?thesis by (simp add: pagesFor_def) linarith
qed

lemma plan_reuse:
  assumes "plan_ok s fixed p" "length (p_lists p) < pagesFor (length (p_free p) + fixed)"
    "p_free p \<noteq> []" "mem_ok s"
  shows "plan_ok s fixed
      (p\<lparr>p_free := butlast (p_free p), p_lists := p_lists p @ [last (p_free p)]\<rparr>)"
proof -
  obtain xs i where f: "p_free p = xs @ [i]" using assms(3) by (metis append_butlast_last_id)
  have i: "i \<in> set (free s)" using assms(1) f by (auto simp: plan_ok_def)
  have "i \<noteq> 0" "i < nextPage s" using mem_ok_member(1) [OF assms(4) i] by auto
  then have "i \<noteq> 0" "i < p_next p" using assms(1) by (auto simp: plan_ok_def)
  moreover have "length (p_lists p) * 1019 < Suc (length xs) + fixed"
    using assms(2) f by (simp add: pagesFor_gt)
  moreover have "covers s (p\<lparr>p_free := butlast (p_free p), p_lists := p_lists p @ [last (p_free p)]\<rparr>)"
    using assms(1) f by (auto simp: plan_ok_def covers_def)
  ultimately show ?thesis
    using assms(1) i by (auto simp: plan_ok_def f)
qed

lemma plan_new:
  assumes "plan_ok s fixed p" "length (p_lists p) < pagesFor (length (p_free p) + fixed)"
    "p_free p = []" "mem_ok s" "\<not> MaxPages \<le> p_next p" "p_next p + 1 \<le> n" "p_file p \<le> n"
  shows "plan_ok s fixed (p\<lparr>p_file := n, p_grew := g, p_next := p_next p + 1, p_lists := p_lists p @ [p_next p]\<rparr>)"
proof -
  have u: "unat (p_next p + 1) = Suc (unat (p_next p))" using MaxPages_less [OF assms(5)] .
  have l: "i < p_next p \<Longrightarrow> i < p_next p + 1" "i \<le> p_next p \<Longrightarrow> i \<le> p_next p + 1" "p_next p < p_next p + 1" for i
    by (simp_all add: page_le_iff u)
  have nz: "p_next p \<noteq> 0" using assms(1,4) by (auto simp: plan_ok_def mem_ok_def)
  have new: "p_next p \<notin> set (p_lists p)" using assms(1) by (auto simp: plan_ok_def)
  have "filePages s \<le> n" "nextPage s \<le> p_next p" using assms(1,7) by (auto simp: plan_ok_def)
  moreover have "covers s (p\<lparr>p_file := n, p_grew := g, p_next := p_next p + 1, p_lists := p_lists p @ [p_next p]\<rparr>)"
  proof -
    have "i < p_next p \<or> i = p_next p" if "i < p_next p + 1" for i
      using that by (simp add: page_le_iff u less_Suc_eq flip: unat_u32_eq)
    then show ?thesis using assms(1,3) unfolding plan_ok_def covers_def by auto
  qed
  ultimately show ?thesis
    using assms(1,2,3,6) l nz new by (auto simp: plan_ok_def pagesFor_gt)
qed

lemma plan_lists_ok:
  assumes "mem_ok s"
  shows "plan_lists d fixed p = (r, d') \<Longrightarrow> plan_ok s fixed p \<Longrightarrow> dev_holds d (p_file p) \<Longrightarrow>
    progress (busy s) d d'
    \<and> (\<forall>q. r = Inr q \<longrightarrow> plan_ok s fixed q \<and> dev_holds d' (p_file q)
         \<and> pagesFor (length (p_free q) + fixed) \<le> length (p_lists q)
         \<and> (p_lists q = [] \<longrightarrow> q = p \<and> d' = d))"
proof (induction d fixed p arbitrary: r d' rule: plan_lists.induct)
  case (1 d fixed p)
  note eq = 1(4) [unfolded plan_lists.simps [of d fixed p]]
  let ?i = "p_next p" and ?g = "growTo (p_file p)"
  let ?reuse = "p\<lparr>p_free := butlast (p_free p), p_lists := p_lists p @ [last (p_free p)]\<rparr>"
  let ?more = "\<lambda>n g. p\<lparr>p_file := n, p_grew := g, p_next := p_next p + 1, p_lists := p_lists p @ [p_next p]\<rparr>"
  show ?case
  proof (cases "length (p_lists p) < pagesFor (length (p_free p) + fixed)")
    case False
    then show ?thesis using eq 1(5,6) by auto
  next
    case more: True
    show ?thesis
    proof (cases "p_free p \<noteq> []")
      case True
      have e: "plan_lists d fixed ?reuse = (r, d')" using eq more True by simp
      have ok: "plan_ok s fixed ?reuse" using plan_reuse [OF 1(5) more True assms] .
      have "dev_holds d (p_file ?reuse)" using 1(6) by simp
      from 1(1) [OF more True e ok this] show ?thesis by fastforce
    next
      case False
      note empty = False
      then have f: "p_free p = []" by simp
      show ?thesis
      proof (cases "MaxPages \<le> ?i")
        case True
        then show ?thesis using eq more empty by auto
      next
        case room: False
        have u: "unat (?i + 1) = Suc (unat ?i)" using MaxPages_less [OF room] .
        have le: "?i \<le> p_file p" using 1(5) by (simp add: plan_ok_def)
        show ?thesis
        proof (cases "p_file p \<le> ?i")
          case False
          have e: "plan_lists d fixed (p\<lparr>p_next := ?i + 1, p_lists := p_lists p @ [?i]\<rparr>) = (r, d')"
            using eq more f room False by (simp add: Let_def)
          have fits: "?i + 1 \<le> p_file p" using False by (simp add: page_le_iff u)
          have "plan_ok s fixed (?more (p_file p) (p_grew p))"
            by (rule plan_new [OF 1(5) more f assms room fits order_refl])
          then have ok: "plan_ok s fixed (p\<lparr>p_next := ?i + 1, p_lists := p_lists p @ [?i]\<rparr>)"
            by (simp add: plan_ok_def)
          have "dev_holds d (p_file (p\<lparr>p_next := ?i + 1, p_lists := p_lists p @ [?i]\<rparr>))"
            using 1(6) by simp
          from 1(3) [OF more empty refl room False e ok this] show ?thesis by fastforce
        next
          case full: True
          show ?thesis
          proof (cases "?g \<le> ?i")
            case True
            then show ?thesis using eq more f room full by auto
          next
            case grow: False
            obtain e1 d1 where g: "Grow d (p_file p) ?g = (e1, d1)" by fastforce
            have "\<forall>j \<in> busy s. j < unat (p_file p)"
              using 1(5) assms busy_below by (fastforce simp: plan_ok_def page_le_iff)
            then have pr: "progress (busy s) d d1" using Grow_progress [OF g] by blast
            show ?thesis
            proof (cases e1)
              case (Some x)
              then show ?thesis using eq more f room full grow g pr by auto
            next
              case None
              let ?p = "p\<lparr>p_file := ?g, p_grew := p_grew p + 1, p_next := ?i + 1, p_lists := p_lists p @ [?i]\<rparr>"
              have e: "plan_lists d1 fixed ?p = (r, d')"
                using eq more f room full grow g None by (simp add: Let_def)
              have "?i + 1 \<le> ?g" using grow by (simp add: page_le_iff u)
              then have ok: "plan_ok s fixed ?p"
                using plan_new [OF 1(5) more f assms room _ growTo_le] by simp
              have h: "dev_holds d1 (p_file ?p)"
                using Grow_holds [OF 1(6) g [unfolded None] growTo_le] by simp
              from 1(2) [OF more empty refl room full refl grow g [symmetric] None e ok h]
              show ?thesis using pr progress_trans by fastforce
            qed
          qed
        qed
      qed
    qed
  qed
qed

section \<open>Writing the list pages\<close>

definition head_of :: "PageID list \<Rightarrow> PageID" where
  "head_of ls = (case ls of [] \<Rightarrow> NoPage | i # _ \<Rightarrow> i)"

lemma write_lists_progress:
  "write_lists d entries k ls = Some (e, d') \<Longrightarrow> P \<inter> unat ` set ls = {} \<Longrightarrow> progress P d d'"
proof (induction ls arbitrary: d k)
  case (Cons i ls)
  obtain p where p: "list_page entries k i ls = Some p"
    using Cons.prems(1) by (auto split: option.splits)
  obtain e1 d1 where w: "WritePage d p = (e1, d1)" by fastforce
  have lo: "k * 1019 \<le> length entries"
    using p by (auto simp: list_page_def Let_def slice_of_def split: option.splits if_splits)
  obtain q where "list_page entries k i ls = Some q" "list_ok i q" using list_page_written [OF lo] by blast
  then have "ID p = i" using p by (simp add: list_ok_def)
  then have pr: "progress P d d1" using WritePage_progress [OF w] Cons.prems(2) by auto
  show ?case
  proof (cases e1)
    case None
    then have "write_lists d1 entries (Suc k) ls = Some (e, d')" using Cons.prems(1) p w by simp
    then have "progress P d1 d'" using Cons.IH Cons.prems(2) by auto
    then show ?thesis using pr progress_trans by blast
  next
    case (Some x)
    then show ?thesis using Cons.prems(1) p w pr by simp
  qed
qed simp

text \<open>The writes panic nowhere when every list page has its share of the entries.\<close>

lemma write_lists_total:
  "(\<And>j. j < length ls \<Longrightarrow> (k + j) * 1019 \<le> length entries) \<Longrightarrow> \<exists>e d'. write_lists d entries k ls = Some (e, d')"
proof (induction ls arbitrary: d k)
  case (Cons i ls)
  have "k * 1019 \<le> length entries" using Cons.prems [of 0] by simp
  then obtain p where p: "list_page entries k i ls = Some p" by (rule list_page_written)
  obtain e1 d1 where w: "WritePage d p = (e1, d1)" by fastforce
  have "\<exists>e d'. write_lists d1 entries (Suc k) ls = Some (e, d')"
    using Cons.prems [of "Suc j" for j] by (intro Cons.IH) fastforce
  then show ?case using p w by (cases e1) auto
qed simp

text \<open>When they all succeed, the pages hold the chain and the chain holds the entries.\<close>

lemma write_lists_done:
  "write_lists d entries k ls = Some (None, d') \<Longrightarrow> distinct ls \<Longrightarrow> 0 \<notin> set ls \<Longrightarrow>
   length entries \<le> (k + length ls) * 1019 \<Longrightarrow>
   (\<forall>l \<in> set ls. agree d' (unat l)) \<and> chain (live_page d') (head_of ls) ls
   \<and> chain_items (live_page d') ls = drop (k * 1019) entries"
proof (induction ls arbitrary: d k)
  case Nil
  then show ?case by (simp add: head_of_def)
next
  case (Cons i ls)
  obtain p where p: "list_page entries k i ls = Some p"
    using Cons.prems(1) by (auto split: option.splits)
  have lo: "k * 1019 \<le> length entries"
    using p by (auto simp: list_page_def Let_def slice_of_def split: option.splits if_splits)
  have pp: "list_ok i p" "page_link p = head_of ls" "page_items p = take 1019 (drop (k * 1019) entries)"
    using list_page_written [OF lo, of i ls] p by (metis head_of_def option.inject)+
  have ID: "ID p = i" using pp(1) by (simp add: list_ok_def)
  obtain d1 where w: "WritePage d p = (None, d1)"
    and rest: "write_lists d1 entries (Suc k) ls = Some (None, d')"
    using Cons.prems(1) p by (auto split: prod.splits option.splits)
  note wd = WritePage_done(4,5) [OF w, unfolded ID]
  have "{unat i} \<inter> unat ` set ls = {}" using Cons.prems(2) by auto
  then have "progress {unat i} d1 d'" by (rule write_lists_progress [OF rest])
  then have i: "agree d' (unat i)" "live_page d' i = p"
    using wd frame_live [OF progress_frame, of "{unat i}" d1 d' "unat i"] progress_agree
    by (auto simp: agree_def)
  have IH: "\<forall>l \<in> set ls. agree d' (unat l)" "chain (live_page d') (head_of ls) ls"
    "chain_items (live_page d') ls = drop (Suc k * 1019) entries"
    using Cons.IH [OF rest] Cons.prems(2,3,4) by auto
  have "drop (k * 1019) entries = take 1019 (drop (k * 1019) entries) @ drop (Suc k * 1019) entries"
    by (metis append_take_drop_id drop_drop mult_Suc)
  moreover have "i \<noteq> 0" using Cons.prems(3) by auto
  ultimately show ?case
    using IH i pp by (simp add: head_of_def)
qed

section \<open>The commit\<close>

definition next_meta :: "plan \<Rightarrow> PageID list \<Rightarrow> Store \<Rightarrow> Meta" where
  "next_meta p entries s =
     \<lparr>mVersion = Version, mPageSize = 4096, mRoot = root s, mFreeListPage = head_of (p_lists p),
      mFreeCount = word_of_nat (length entries), mNextPage = p_next p, mFilePages = p_file p,
      mCheckpoint = mCheckpoint (durable s) + 1\<rparr>"

definition new_entries :: "plan \<Rightarrow> Store \<Rightarrow> PageID list" where
  "new_entries p s = listPage s @ p_free p @ pending s"

definition new_snapshot :: "plan \<Rightarrow> Store \<Rightarrow> snapshot" where
  "new_snapshot p s = (next_meta p (new_entries p s) s, new_entries p s, p_lists p)"

text \<open>The device just before the commit: nothing a checkpoint references has been touched, the new
  list is on the drive to stay, and so is every page written before the checkpoint.\<close>

definition ready :: "Store \<Rightarrow> plan \<Rightarrow> Dev \<Rightarrow> bool" where
  "ready s p d \<longleftrightarrow>
     progress (busy s) (pf s) d \<and> (\<forall>l \<in> set (p_lists p). stable d (unat l))
     \<and> chain (live_page d) (head_of (p_lists p)) (p_lists p)
     \<and> chain_items (live_page d) (p_lists p) = new_entries p s
     \<and> 4096 * unat (p_file p) \<le> length (live d) \<and> 4096 * unat (p_file p) \<le> length (disk d)
     \<and> (\<forall>i \<in> busy s. agree (pf s) i \<longrightarrow> stable d i)"

lemma mem_ok_root:
  assumes "mem_ok s" "i \<in> set (free s @ pending s @ listPage s)"
  shows "i \<noteq> root s"
proof
  assume "i = root s"
  moreover have "i \<noteq> 0 \<and> status s i \<noteq> None"
    using mem_ok_member [OF assms(1), of i] assms(2) by auto
  ultimately show False using assms(1) by (auto simp: mem_ok_def)
qed

lemma plan_disjoint:
  assumes "mem_ok s" "plan_ok s fixed p"
  shows "distinct (new_entries p s @ p_lists p)"
    "\<forall>i \<in> set (new_entries p s @ p_lists p). i \<noteq> 0 \<and> i < p_next p \<and> i \<noteq> root s"
proof -
  have l: "i \<notin> set (listPage s)" "i \<notin> set (pending s)" "i \<noteq> root s"
    if "i \<in> set (p_lists p)" for i
  proof -
    have i: "i \<noteq> 0" "i \<in> set (free s) \<or> nextPage s \<le> i" using that assms(2) by (auto simp: plan_ok_def)
    note m = mem_ok_member [OF assms(1), of i]
    show "i \<notin> set (listPage s)" using i m(1,3) by (auto simp: not_le [symmetric])
    show "i \<notin> set (pending s)" using i m(1,2) by (auto simp: not_le [symmetric])
    show "i \<noteq> root s"
    proof
      assume r: "i = root s"
      then have "\<not> nextPage s \<le> i" using assms(1) i(1) by (auto simp: mem_ok_def not_le)
      then show False using i(2) mem_ok_root [OF assms(1), of i] r by simp
    qed
  qed
  have f: "set (p_free p) \<subseteq> set (free s)" "distinct (p_free p @ p_lists p)"
    "nextPage s \<le> p_next p" using assms(2) by (auto simp: plan_ok_def)
  have m: "distinct (free s @ pending s @ listPage s)"
    "\<forall>i \<in> set (free s @ pending s @ listPage s). i \<noteq> 0 \<and> i < nextPage s"
    using assms(1) by (simp_all add: mem_ok_def)
  show "distinct (new_entries p s @ p_lists p)"
    using f m l by (auto simp: new_entries_def)
  note r = mem_ok_root [OF assms(1)]
  have "i \<noteq> 0 \<and> i < p_next p \<and> i \<noteq> root s" if i: "i \<in> set (listPage s) \<union> set (p_free p) \<union> set (pending s)" for i
  proof -
    have "i \<in> set (free s @ pending s @ listPage s)" using i f(1) by auto
    then show ?thesis using m(2) r f(3) by (auto intro: less_le_trans)
  qed
  moreover have "i \<noteq> 0 \<and> i < p_next p \<and> i \<noteq> root s" if "i \<in> set (p_lists p)" for i
    using l(3) [OF that] that assms(2) by (auto simp: plan_ok_def)
  ultimately show "\<forall>i \<in> set (new_entries p s @ p_lists p). i \<noteq> 0 \<and> i < p_next p \<and> i \<noteq> root s"
    by (auto simp: new_entries_def)
qed

lemma new_snapshot_ok:
  assumes "mem_ok s" "plan_ok s fixed p"
  shows "meta_ok (new_snapshot p s)"
proof -
  have n: "p_next p \<noteq> 0" "nextPage s \<le> p_next p" "p_next p \<le> p_file p"
    using assms by (auto simp: plan_ok_def mem_ok_def)
  have "root s = 0 \<or> root s < p_next p"
    using assms(1) n(2) by (auto simp: mem_ok_def intro: less_le_trans)
  then show ?thesis
    using n plan_disjoint [OF assms]
    unfolding meta_ok_def new_snapshot_def next_meta_def this_format_def by simp
qed

lemma ready_held:
  assumes "mem_ok s" "plan_ok s fixed p" "ready s p d"
  shows "held d (new_snapshot p s)"
  using new_snapshot_ok [OF assms(1,2)] assms(3)
  by (simp add: held_def ready_def new_snapshot_def next_meta_def)

lemma commit_eq:
  "commit p (new_entries p s) (s\<lparr>pf := d\<rparr>) =
     (let next = next_meta p (new_entries p s) s in
      case WritePage d (encodeMeta next) of
        (Some e, d) \<Rightarrow> (Some (mustPoison e), s\<lparr>pf := d\<rparr>)
      | (None, d) \<Rightarrow>
          (case SyncPages d of
             (Some e, d) \<Rightarrow> (Some (mustPoison e), s\<lparr>pf := d\<rparr>)
           | (None, d) \<Rightarrow>
               (None, s\<lparr>pf := d, durable := next, nextPage := p_next p, filePages := p_file p,
                        free := new_entries p s, pending := [], listPage := p_lists p,
                        status := (\<lambda>i. if i \<in> set (p_lists p) then Some stFreeList
                                       else if i \<in> set (new_entries p s) then Some stFree else None),
                        dirty := False,
                        stats := (stats s)\<lparr>Grown := Grown (stats s) + p_grew p,
                                           Checkpoints := Checkpoints (stats s) + 1\<rparr>\<rparr>)))"
  by (simp add: commit_def Let_def next_meta_def head_of_def split: option.split prod.split)

lemma committed_mem:
  assumes "mem_ok s" "plan_ok s fixed p" "root s' = root s" "nextPage s' = p_next p"
    "filePages s' = p_file p" "free s' = new_entries p s" "pending s' = []" "listPage s' = p_lists p"
    "status s' = (\<lambda>i. if i \<in> set (p_lists p) then Some stFreeList
                       else if i \<in> set (new_entries p s) then Some stFree else None)"
  shows "mem_ok s'"
proof -
  note d = plan_disjoint [OF assms(1,2)]
  have n: "p_next p \<noteq> 0" "nextPage s \<le> p_next p" "p_next p \<le> p_file p"
    using assms(1,2) by (auto simp: plan_ok_def mem_ok_def)
  have "root s = 0 \<or> root s < p_next p"
    using assms(1) n(2) by (auto simp: mem_ok_def intro: less_le_trans)
  moreover have "status s' i = state_of s' i" for i
    using d(1) assms(3-9) by (auto simp: state_of_def)
  moreover have "state_of s' (root s) = None"
    using d(2) assms(6-8) by (auto simp: state_of_def)
  ultimately show ?thesis
    using d n assms(3-8) by (simp add: mem_ok_def)
qed

text \<open>What a checkpoint may have done when it returns.\<close>

definition settles :: "Store \<Rightarrow> Dev \<Rightarrow> bool" where
  "settles s d \<longleftrightarrow> (\<forall>i \<in> busy s - {0}. agree (pf s) i \<longrightarrow> stable d i)"

definition committed :: "Store \<Rightarrow> plan \<Rightarrow> Store \<Rightarrow> bool" where
  "committed s p s' \<longleftrightarrow>
     durable s' = next_meta p (new_entries p s) s \<and> free s' = new_entries p s \<and> pending s' = []
     \<and> listPage s' = p_lists p \<and> root s' = root s \<and> poisoned s' = poisoned s \<and> closed s' = closed s
     \<and> \<not> dirty s' \<and> nextPage s' = p_next p"

lemma commit_success:
  assumes mem: "mem_ok s" and plan: "plan_ok s fixed p" and rd: "ready s p d"
    and c: "commit p (new_entries p s) (s\<lparr>pf := d\<rparr>) = (None, s')"
  shows "store_ok s' (new_entries p s) \<and> committed s p s'"
proof -
  let ?next = "next_meta p (new_entries p s) s"
  obtain d1 d2 where w: "WritePage d (encodeMeta ?next) = (None, d1)" and sy: "SyncPages d1 = (None, d2)"
    using c unfolding commit_eq by (auto simp: Let_def split: prod.splits option.splits)
  have s': "pf s' = d2" "durable s' = ?next" "nextPage s' = p_next p" "filePages s' = p_file p"
    "free s' = new_entries p s" "pending s' = []" "listPage s' = p_lists p" "root s' = root s"
    "status s' = (\<lambda>i. if i \<in> set (p_lists p) then Some stFreeList
                       else if i \<in> set (new_entries p s) then Some stFree else None)"
    "poisoned s' = poisoned s" "closed s' = closed s" "\<not> dirty s'"
    using c w sy unfolding commit_eq by (auto simp: Let_def)
  have "mem_ok s'" by (rule committed_mem [OF mem plan s'(8,3-7,9)])
  moreover have h2: "held d2 (new_snapshot p s)"
  proof -
    have "held d1 (new_snapshot p s)" by (rule held_WriteMeta [OF w ready_held [OF mem plan rd]])
    then show ?thesis
      using held_frame [OF _ SyncPages_frame [OF sy, of UNIV]] by (simp add: new_snapshot_def)
  qed
  have "disk_ok s' (new_entries p s)"
    using h2 commit_stable [OF w sy] s'
    by (simp add: disk_ok_def new_snapshot_def) (simp add: next_meta_def)
  moreover have "file_ok s'"
    using h2 SyncPages_done(2,3) [OF sy] s' flushed_empty_log [of d2]
    by (simp add: file_ok_def held_def new_snapshot_def next_meta_def)
  ultimately show ?thesis
    using s' by (simp add: store_ok_def committed_def)
qed

lemma commit_outcome:
  assumes ok: "store_ok s E" and plan: "plan_ok s fixed p" and rd: "ready s p d"
    and c: "commit p (new_entries p s) (s\<lparr>pf := d\<rparr>) = (r, s')"
  shows "frame (busy s - {0}) (pf s) (pf s')" "settles s (pf s')"
    "r = None \<Longrightarrow> store_ok s' (new_entries p s) \<and> committed s p s'"
    "r \<noteq> None \<Longrightarrow> (\<exists>e. r = Some (mustPoison e)) \<and> s' = s\<lparr>pf := pf s'\<rparr>
       \<and> sound (pf s') {new_snapshot p s, (durable s, E, listPage s)}"
proof -
  let ?next = "next_meta p (new_entries p s) s"
  have mem: "mem_ok s" and dk: "disk_ok s E" using ok by (simp_all add: store_ok_def)
  have pr: "progress (busy s) (pf s) d" using rd by (simp add: ready_def)
  have new: "held d (new_snapshot p s)" by (rule ready_held [OF mem plan rd])
  have old: "sound d {(durable s, E, listPage s)}"
    using store_ok_pf [OF ok pr busy_protects [OF mem]] disk_ok_sound [of "s\<lparr>pf := d\<rparr>" E]
    by (simp add: store_ok_def)
  have both: "sound d {new_snapshot p s, (durable s, E, listPage s)}"
    by (rule sound_insert [OF old new])
  obtain e1 d1 where w: "WritePage d (encodeMeta ?next) = (e1, d1)" by fastforce
  have s1: "sound d1 {new_snapshot p s, (durable s, E, listPage s)}"
    by (rule sound_WriteMeta [OF w _ both]) (simp add: new_snapshot_def)
  have p1: "progress (- {0}) d d1" by (rule WriteMeta_frame [OF w])
  have f1: "frame (busy s - {0}) (pf s) d1"
    using frame_trans [OF frame_mono [OF progress_frame [OF pr]] frame_mono [OF progress_frame [OF p1]]]
    by blast
  have t1: "settles s d1"
    using rd frame_stable [OF progress_frame [OF p1]] by (auto simp: settles_def ready_def)
  obtain e2 d2 where sy: "SyncPages d1 = (e2, d2)" by fastforce
  have f2: "frame (busy s - {0}) (pf s) d2"
    using f1 SyncPages_frame [OF sy] frame_trans by blast
  have t2: "settles s d2"
    using t1 frame_stable [OF SyncPages_frame [OF sy, of UNIV]] by (auto simp: settles_def)
  have s2: "sound d2 {new_snapshot p s, (durable s, E, listPage s)}"
    by (rule sound_SyncPages [OF sy s1])
  have cases: "(e1 \<noteq> None \<and> pf s' = d1 \<and> r \<noteq> None) \<or> (e1 = None \<and> pf s' = d2)"
    "r = None \<longleftrightarrow> e1 = None \<and> e2 = None"
    using c w sy unfolding commit_eq by (auto simp: Let_def split: option.splits)
  show "frame (busy s - {0}) (pf s) (pf s')" "settles s (pf s')"
    using cases(1) f1 f2 t1 t2 by auto
  show "r \<noteq> None \<Longrightarrow> (\<exists>e. r = Some (mustPoison e)) \<and> s' = s\<lparr>pf := pf s'\<rparr>
       \<and> sound (pf s') {new_snapshot p s, (durable s, E, listPage s)}"
    using c w sy s1 s2 unfolding commit_eq by (auto simp: Let_def split: option.splits)
  show "r = None \<Longrightarrow> store_ok s' (new_entries p s) \<and> committed s p s'"
    using commit_success [OF mem plan rd] c by blast
qed

section \<open>The whole checkpoint\<close>

text \<open>Whatever the store holds, each list page planned has entries left to take, so slicing the
  entries never panics.\<close>

lemma plan_lists_share:
  "plan_lists d fixed p = (Inr q, d') \<Longrightarrow> (length (p_lists p) - 1) * 1019 \<le> length (p_free p) + fixed \<Longrightarrow>
   (length (p_lists q) - 1) * 1019 \<le> length (p_free q) + fixed"
proof (induction d fixed p arbitrary: d' rule: plan_lists.induct)
  case (1 d fixed p)
  note eq = 1(4) [unfolded plan_lists.simps [of d fixed p]]
  show ?case
  proof (cases "length (p_lists p) < pagesFor (length (p_free p) + fixed)")
    case False
    then show ?thesis using eq 1(5) by simp
  next
    case more: True
    then have n: "length (p_lists p) * 1019 < length (p_free p) + fixed" by (simp add: pagesFor_gt)
    show ?thesis
    proof (cases "p_free p \<noteq> []")
      case True
      then have e: "plan_lists d fixed (p\<lparr>p_free := butlast (p_free p), p_lists := p_lists p @ [last (p_free p)]\<rparr>) = (Inr q, d')"
        using eq more by simp
      show ?thesis by (rule 1(1) [OF more True e]) (use n in simp)
    next
      case False
      note empty = False
      show ?thesis
      proof (cases "p_file p \<le> p_next p")
        case space: False
        then show ?thesis
          using eq more empty n 1(3) [OF more empty refl _ space]
          by (simp add: Let_def split: if_splits)
      next
        case full: True
        obtain e1 d1 where g: "Grow d (p_file p) (growTo (p_file p)) = (e1, d1)" by fastforce
        have c: "\<not> MaxPages \<le> p_next p" "\<not> growTo (p_file p) \<le> p_next p" "e1 = None"
          using eq more empty full g by (auto simp: Let_def split: if_splits option.splits)
        have e: "plan_lists d1 fixed (p\<lparr>p_file := growTo (p_file p), p_grew := p_grew p + 1,
            p_next := p_next p + 1, p_lists := p_lists p @ [p_next p]\<rparr>) = (Inr q, d')"
          using eq more empty full g c by (simp add: Let_def)
        show ?thesis
          by (rule 1(2) [OF more empty refl c(1) full refl c(2) g [symmetric] c(3) e]) (use n in simp)
      qed
    qed
  qed
qed

definition first_plan :: "Store \<Rightarrow> plan" where
  "first_plan s = \<lparr>p_free = free s, p_next = nextPage s, p_file = filePages s, p_grew = 0, p_lists = []\<rparr>"

definition fixed_of :: "Store \<Rightarrow> nat" where
  "fixed_of s = length (pending s) + length (listPage s)"

lemma write_new_lists_total:
  assumes "plan_lists d (fixed_of s) (first_plan s) = (Inr p, d1)"
  shows "\<exists>e d'. write_lists d1 (new_entries p s) 0 (p_lists p) = Some (e, d')"
proof (rule write_lists_total)
  fix j assume "j < length (p_lists p)"
  then have "j * 1019 \<le> (length (p_lists p) - 1) * 1019" by simp
  also have "\<dots> \<le> length (p_free p) + fixed_of s"
    by (rule plan_lists_share [OF assms]) (simp add: first_plan_def)
  finally show "(0 + j) * 1019 \<le> length (new_entries p s)"
    by (simp add: new_entries_def fixed_of_def)
qed

lemma checkpoint_eq:
  "checkpoint s =
     (case SyncPages (pf s) of
        (Some e, d) \<Rightarrow> Some (Some (mustPoison e), s\<lparr>pf := d\<rparr>)
      | (None, d) \<Rightarrow>
          (case plan_lists d (fixed_of s) (first_plan s) of
             (Inl e, d) \<Rightarrow> Some (Some (Plain e), s\<lparr>pf := d\<rparr>)
           | (Inr p, d) \<Rightarrow>
               (case write_lists d (new_entries p s) 0 (p_lists p) of
                  None \<Rightarrow> None
                | Some (Some e, d) \<Rightarrow> Some (Some (Plain (FileErr e)), s\<lparr>pf := d\<rparr>)
                | Some (None, d) \<Rightarrow>
                    (case if p_lists p \<noteq> [] then SyncPages d else (None, d) of
                       (Some e, d) \<Rightarrow> Some (Some (mustPoison e), s\<lparr>pf := d\<rparr>)
                     | (None, d) \<Rightarrow> Some (commit p (new_entries p s) (s\<lparr>pf := d\<rparr>))))))"
  unfolding checkpoint_def first_plan_def fixed_of_def new_entries_def Let_def by (rule refl)

lemma checkpoint_total: "\<exists>r s'. checkpoint s = Some (r, s')"
proof -
  obtain e0 d0 where s0: "SyncPages (pf s) = (e0, d0)" by fastforce
  obtain q d1 where p: "plan_lists d0 (fixed_of s) (first_plan s) = (q, d1)" by fastforce
  show ?thesis
  proof (cases "e0 = None \<and> (\<exists>p. q = Inr p)")
    case True
    then obtain pl where q: "q = Inr pl" by blast
    obtain e2 d2 where w: "write_lists d1 (new_entries pl s) 0 (p_lists pl) = Some (e2, d2)"
      using write_new_lists_total p q by blast
    obtain e3 d3 where s3: "(if p_lists pl \<noteq> [] then SyncPages d2 else (None, d2)) = (e3, d3)"
      by fastforce
    obtain r s' where c: "commit pl (new_entries pl s) (s\<lparr>pf := d3\<rparr>) = (r, s')" by fastforce
    show ?thesis
      using True s0 p q w s3 c unfolding checkpoint_eq
      by (cases e2; cases e3) simp_all
  next
    case False
    then show ?thesis using s0 p unfolding checkpoint_eq by (auto split: option.split sum.split)
  qed
qed

lemma first_plan_ok: "mem_ok s \<Longrightarrow> plan_ok s fixed (first_plan s)"
  by (auto simp: plan_ok_def covers_def first_plan_def mem_ok_def)

lemma planned_ready:
  assumes mem: "mem_ok s" and fok: "file_ok s" and s0: "SyncPages (pf s) = (None, d0)"
    and p: "plan_lists d0 (fixed_of s) (first_plan s) = (Inr p, d1)"
    and w: "write_lists d1 (new_entries p s) 0 (p_lists p) = Some (None, d2)"
    and s3: "(if p_lists p \<noteq> [] then SyncPages d2 else (None, d2)) = (None, d3)"
  shows "plan_ok s (fixed_of s) p \<and> ready s p d3"
proof -
  note sd = SyncPages_done [OF s0]
  have h0: "dev_holds d0 (filePages s)"
    using fok dev_holds_progress [OF _ sd(4)] by (simp add: file_ok_def dev_holds_def)
  have plan: "plan_ok s (fixed_of s) p" and pr1: "progress (busy s) d0 d1" and h1: "dev_holds d1 (p_file p)"
    and enough: "pagesFor (length (p_free p) + fixed_of s) \<le> length (p_lists p)"
    and none: "p_lists p = [] \<longrightarrow> p = first_plan s \<and> d1 = d0"
    using plan_lists_ok [OF mem p first_plan_ok [OF mem]] h0 by (simp_all add: first_plan_def)
  have disj: "busy s \<inter> unat ` set (p_lists p) = {}"
    using plan by (auto simp: busy_def plan_ok_def)
  have pr2: "progress (busy s) d1 d2" by (rule write_lists_progress [OF w disj])
  have len: "length (new_entries p s) \<le> (0 + length (p_lists p)) * 1019"
    using enough pagesFor_gt [of "length (p_lists p)" "length (p_free p) + fixed_of s"]
    by (simp add: new_entries_def fixed_of_def)
  have "distinct (p_lists p)" "0 \<notin> set (p_lists p)" using plan by (auto simp: plan_ok_def)
  note wd = write_lists_done [OF w this len]
  have pr: "progress (busy s) d0 d2" using progress_trans [OF pr1 pr2] .
  have stable0: "stable d0 i" if "agree (pf s) i" for i using sd(5) that .
  show ?thesis
  proof (cases "p_lists p = []")
    case True
    then have d: "d1 = d0" "p = first_plan s" "d2 = d0" "d3 = d0" using none w s3 by auto
    have "4096 * unat (p_file p) \<le> length (live d0)" "4096 * unat (p_file p) \<le> length (disk d0)"
      using h1 d flushed_empty_log [OF sd(3)] by (auto simp: dev_holds_def)
    then show ?thesis
      using plan wd True d stable0 sd(4) by (simp add: ready_def)
  next
    case False
    then have s3: "SyncPages d2 = (None, d3)" using s3 by simp
    note td = SyncPages_done [OF s3]
    have live: "live_page d3 = live_page d2" using td(1) by simp
    have "dev_holds d2 (p_file p)" using dev_holds_progress [OF h1 pr2] .
    then have "4096 * unat (p_file p) \<le> length (live d3)" "4096 * unat (p_file p) \<le> length (disk d3)"
      using td(1,2) by (simp_all add: dev_holds_def)
    moreover have "progress (busy s) (pf s) d3"
      using progress_trans [OF progress_trans [OF sd(4) pr] td(4)] .
    moreover have "stable d3 i" if "i \<in> busy s" "agree (pf s) i" for i
      using frame_stable [OF progress_frame [OF progress_trans [OF pr td(4)]] that(1) stable0 [OF that(2)]] .
    ultimately show ?thesis
      using plan wd td(5) by (simp add: ready_def live)
  qed
qed

text \<open>A checkpoint that returns without an error leaves a store whose checkpoint is on the drive,
  whatever the drive held before: \<open>create\<close> relies on this.\<close>

lemma checkpoint_success:
  assumes mem: "mem_ok s" and fok: "file_ok s" and c: "checkpoint s = Some (None, s')"
  obtains p where "plan_ok s (fixed_of s) p" "store_ok s' (new_entries p s)" "committed s p s'"
proof -
  obtain d0 where s0: "SyncPages (pf s) = (None, d0)"
    using c unfolding checkpoint_eq by (auto split: prod.splits option.splits)
  obtain p d1 where p: "plan_lists d0 (fixed_of s) (first_plan s) = (Inr p, d1)"
    using c s0 unfolding checkpoint_eq by (auto split: prod.splits sum.splits)
  obtain d2 where w: "write_lists d1 (new_entries p s) 0 (p_lists p) = Some (None, d2)"
    using c s0 p write_new_lists_total [OF p] unfolding checkpoint_eq by (auto split: option.splits)
  obtain e3 d3 where s3: "(if p_lists p \<noteq> [] then SyncPages d2 else (None, d2)) = (e3, d3)"
    by fastforce
  have e3: "e3 = None" using c s0 p w s3 unfolding checkpoint_eq by (cases e3) simp_all
  have cm: "commit p (new_entries p s) (s\<lparr>pf := d3\<rparr>) = (None, s')"
    using c s0 p w s3 e3 unfolding checkpoint_eq by simp
  note r = planned_ready [OF mem fok s0 p w s3 [unfolded e3]]
  show thesis
    using that [of p] r commit_success [OF mem _ _ cm] by blast
qed

text \<open>The outcomes of a checkpoint of a sound store.\<close>

definition checkpointed :: "Store \<Rightarrow> PageID list \<Rightarrow> checkpoint_error option \<Rightarrow> Store \<Rightarrow> bool" where
  "checkpointed s E r s' \<longleftrightarrow>
     frame (busy s - {0}) (pf s) (pf s')
     \<and> (case r of
          None \<Rightarrow>
            \<exists>p. plan_ok s (fixed_of s) p \<and> store_ok s' (new_entries p s) \<and> committed s p s'
              \<and> settles s (pf s')
        | Some (Plain e) \<Rightarrow> s' = s\<lparr>pf := pf s'\<rparr> \<and> store_ok s' E \<and> progress (busy s) (pf s) (pf s')
        | Some (mustPoison e) \<Rightarrow>
            s' = s\<lparr>pf := pf s'\<rparr>
            \<and> (sound (pf s') {(durable s, E, listPage s)}
               \<or> (\<exists>p. plan_ok s (fixed_of s) p \<and> settles s (pf s')
                    \<and> sound (pf s') {new_snapshot p s, (durable s, E, listPage s)})))"

lemma checkpointed_poison:
  assumes "frame (busy s) (pf s) d" "sound d {(durable s, E, listPage s)}"
  shows "checkpointed s E (Some (mustPoison e)) (s\<lparr>pf := d\<rparr>)"
  using assms frame_mono [of "busy s" "pf s" d "busy s - {0}"] by (auto simp: checkpointed_def)

lemma checkpointed_plain:
  assumes "store_ok s E" "progress (busy s) (pf s) d"
  shows "checkpointed s E (Some (Plain e)) (s\<lparr>pf := d\<rparr>)"
  using assms store_ok_pf [OF assms] busy_protects [of s] frame_mono [of "busy s" "pf s" d "busy s - {0}"]
  by (auto simp: checkpointed_def store_ok_def progress_frame)

lemma checkpoint_outcome:
  assumes ok: "store_ok s E" and c: "checkpoint s = Some (r, s')"
  shows "checkpointed s E r s'"
proof -
  have mem: "mem_ok s" using ok by (simp add: store_ok_def)
  have old: "sound (pf s) {(durable s, E, listPage s)}"
    using ok disk_ok_sound by (simp add: store_ok_def)
  obtain e0 d0 where s0: "SyncPages (pf s) = (e0, d0)" by fastforce
  show ?thesis
  proof (cases e0)
    case (Some x)
    then have "r = Some (mustPoison x)" "s' = s\<lparr>pf := d0\<rparr>" using c s0 unfolding checkpoint_eq by simp_all
    then show ?thesis
      using checkpointed_poison [OF SyncPages_frame [OF s0] sound_SyncPages [OF s0 old]] by simp
  next
    case None
    note s0 = s0 [unfolded None]
    have pr0: "progress (busy s) (pf s) d0" by (rule SyncPages_done(4) [OF s0])
    have h0: "dev_holds d0 (filePages s)"
      using ok dev_holds_progress [OF _ pr0] by (simp add: store_ok_def file_ok_def dev_holds_def)
    obtain q d1 where p: "plan_lists d0 (fixed_of s) (first_plan s) = (q, d1)" by fastforce
    have pr1: "progress (busy s) (pf s) d1"
      using plan_lists_ok [OF mem p first_plan_ok [OF mem]] h0 progress_trans [OF pr0]
      by (simp add: first_plan_def)
    show ?thesis
    proof (cases q)
      case (Inl e)
      then have "r = Some (Plain e)" "s' = s\<lparr>pf := d1\<rparr>"
        using c s0 p unfolding checkpoint_eq by simp_all
      then show ?thesis using checkpointed_plain [OF ok pr1] by simp
    next
      case (Inr pl)
      note p = p [unfolded Inr]
      have plan: "plan_ok s (fixed_of s) pl"
        using plan_lists_ok [OF mem p first_plan_ok [OF mem]] h0 by (simp add: first_plan_def)
      obtain e2 d2 where w: "write_lists d1 (new_entries pl s) 0 (p_lists pl) = Some (e2, d2)"
        using write_new_lists_total [OF p] by blast
      have "busy s \<inter> unat ` set (p_lists pl) = {}"
        using plan by (auto simp: busy_def plan_ok_def)
      then have pr2: "progress (busy s) (pf s) d2"
        using write_lists_progress [OF w] progress_trans [OF pr1] by blast
      show ?thesis
      proof (cases e2)
        case (Some e)
        then have "r = Some (Plain (FileErr e))" "s' = s\<lparr>pf := d2\<rparr>"
          using c s0 p w unfolding checkpoint_eq by simp_all
        then show ?thesis using checkpointed_plain [OF ok pr2] by simp
      next
        case None
        note w = w [unfolded None]
        obtain e3 d3 where s3: "(if p_lists pl \<noteq> [] then SyncPages d2 else (None, d2)) = (e3, d3)"
          by fastforce
        show ?thesis
        proof (cases e3)
          case (Some e)
          then have sy: "SyncPages d2 = (Some e, d3)" using s3 by (simp split: if_splits)
          have "r = Some (mustPoison e)" "s' = s\<lparr>pf := d3\<rparr>"
            using c s0 p w s3 Some unfolding checkpoint_eq by simp_all
          moreover have "frame (busy s) (pf s) d3"
            using frame_trans [OF progress_frame [OF pr2] SyncPages_frame [OF sy]] .
          moreover have "sound d2 {(durable s, E, listPage s)}"
            using store_ok_pf [OF ok pr2 busy_protects [OF mem]] disk_ok_sound [of "s\<lparr>pf := d2\<rparr>" E]
            by (simp add: store_ok_def)
          ultimately show ?thesis using checkpointed_poison sound_SyncPages [OF sy] by simp
        next
          case None
          note s3 = s3 [unfolded None]
          have rd: "ready s pl d3" using planned_ready [OF mem _ s0 p w s3] ok by (simp add: store_ok_def)
          have cm: "commit pl (new_entries pl s) (s\<lparr>pf := d3\<rparr>) = (r, s')"
            using c s0 p w s3 unfolding checkpoint_eq by simp
          note out = commit_outcome [OF ok plan rd cm]
          show ?thesis
          proof (cases "r = None")
            case True
            then show ?thesis using out plan by (auto simp: checkpointed_def)
          next
            case False
            then obtain e where "r = Some (mustPoison e)" using out(4) by blast
            then show ?thesis using out plan by (auto simp: checkpointed_def)
          qed
        qed
      qed
    qed
  qed
qed

section \<open>\<open>Checkpoint\<close>\<close>

lemma Checkpoint_total: "\<exists>r s'. Checkpoint s = Some (r, s')"
proof (cases "usable s")
  case None
  obtain r s' where "checkpoint s = Some (r, s')" using checkpoint_total by blast
  then show ?thesis
    using None by (cases r rule: option.exhaust; cases "the r")
      (auto simp: Checkpoint_def poison_def split: prod.split)
qed (simp add: Checkpoint_def)

lemma Checkpoint_unfold:
  assumes "usable s = None" "Checkpoint s = Some (r, s')"
  obtains "r = None" "checkpoint s = Some (None, s')"
  | e where "r = Some e" "checkpoint s = Some (Some (Plain e), s')"
  | e s1 where "r = Some (ErrPoisoned e)" "checkpoint s = Some (Some (mustPoison e), s1)"
      "s' = (if poisoned s1 = None then s1\<lparr>poisoned := Some e\<rparr> else s1)"
proof -
  obtain r1 s1 where c: "checkpoint s = Some (r1, s1)" using checkpoint_total by blast
  consider "r1 = None" | e where "r1 = Some (Plain e)" | e where "r1 = Some (mustPoison e)"
    by (cases r1) (auto, metis checkpoint_error.exhaust)
  then show thesis
  proof cases
    case 1
    then show ?thesis using assms c that(1) by (simp add: Checkpoint_def)
  next
    case (2 e)
    then show ?thesis using assms c that(2) [of e] by (simp add: Checkpoint_def)
  next
    case (3 e)
    then show ?thesis using assms c that(3) [of e s1] by (auto simp: Checkpoint_def poison_def Let_def)
  qed
qed

end
