(* ===== verification/StoreRecovery.thy ===== *)
theory StoreRecovery
  imports StoreCheckpoint
begin

text \<open>
  Opening a store: the checks of \<open>Verify\<close> and \<open>load\<close> accept exactly the sound structures, and a
  file that describes checkpoints opens to one of them, whatever fails on the way leaving it so.
\<close>

section \<open>\<open>verifyLive\<close>\<close>

lemma record_list_Inr:
  "record_list s want is seen = Inr seen' \<longleftrightarrow>
     (\<forall>i \<in> set is. i \<noteq> 0 \<and> i < nextPage s \<and> seen i = None \<and> status s i = Some want) \<and> distinct is
     \<and> seen' = (\<lambda>i. if i \<in> set is then Some want else seen i)"
proof (induction "is" arbitrary: seen)
  case (Cons i js)
  show ?case
  proof (cases "i \<noteq> 0 \<and> i < nextPage s \<and> seen i = None \<and> status s i = Some want")
    case True
    then have "inRange i s = None" using inRange_None by blast
    then have r: "record_list s want (i # js) seen = record_list s want js (seen(i \<mapsto> want))"
      using True by simp
    have f: "(\<lambda>x. if x \<in> set js then Some want else (seen(i \<mapsto> want)) x)
        = (\<lambda>x. if x \<in> set (i # js) then Some want else seen x)"
      by (auto simp: fun_eq_iff)
    have g: "(\<forall>x \<in> set js. x \<noteq> 0 \<and> x < nextPage s \<and> (seen(i \<mapsto> want)) x = None \<and> status s x = Some want)
        \<longleftrightarrow> i \<notin> set js \<and> (\<forall>x \<in> set js. x \<noteq> 0 \<and> x < nextPage s \<and> seen x = None \<and> status s x = Some want)"
      by auto
    show ?thesis
      unfolding r Cons.IH f g using True by auto
  next
    case False
    then show ?thesis
      using inRange_None [of i s] by (cases "inRange i s"; cases "seen i") auto
  qed
qed auto

lemma check_durably_free_None: "check_durably_free es is = None \<longleftrightarrow> set is \<subseteq> set es"
  by (induction "is") auto

lemma verify_records_None:
  "verify_records s es = None \<longleftrightarrow>
     distinct (free s @ pending s @ listPage s)
     \<and> (\<forall>i \<in> set (free s @ pending s @ listPage s). i \<noteq> 0 \<and> i < nextPage s)
     \<and> (\<forall>i. status s i = state_of s i) \<and> set (free s) \<subseteq> set es"
  (is "?l \<longleftrightarrow> ?r")
proof
  assume r: ?r
  let ?s1 = "\<lambda>i. if i \<in> set (free s) then Some stFree else None"
  let ?s2 = "\<lambda>i. if i \<in> set (pending s) then Some stPending else ?s1 i"
  let ?s3 = "\<lambda>i. if i \<in> set (listPage s) then Some stFreeList else ?s2 i"
  have "record_list s stFree (free s) Map.empty = Inr ?s1"
    "record_list s stPending (pending s) ?s1 = Inr ?s2"
    "record_list s stFreeList (listPage s) ?s2 = Inr ?s3"
    using r unfolding record_list_Inr by (auto simp: state_of_def)
  moreover have "dom (status s) \<subseteq> dom ?s3"
    using r by (auto simp: state_of_def split: if_splits)
  ultimately show ?l
    using r by (simp add: verify_records_def check_durably_free_None)
next
  assume l: ?l
  then obtain s1 s2 s3 where rec: "record_list s stFree (free s) Map.empty = Inr s1"
    "record_list s stPending (pending s) s1 = Inr s2" "record_list s stFreeList (listPage s) s2 = Inr s3"
    and c: "card (dom s3) \<noteq> card (dom (status s)) \<longrightarrow> dom (status s) \<subseteq> dom s3"
    and f: "set (free s) \<subseteq> set es"
    by (auto simp: verify_records_def check_durably_free_None split: sum.splits if_splits)
  note rec = rec [unfolded record_list_Inr]
  have s3: "s3 = (\<lambda>i. if i \<in> set (listPage s) then Some stFreeList
      else if i \<in> set (pending s) then Some stPending else if i \<in> set (free s) then Some stFree else None)"
    using rec by (auto simp: fun_eq_iff)
  have d3: "dom s3 = set (free s @ pending s @ listPage s)"
    by (auto simp: s3 split: if_splits)
  have sub: "dom s3 \<subseteq> dom (status s)" using rec unfolding d3 by auto
  have "dom s3 = dom (status s)"
    using c sub card_subset_eq [OF finite sub] by auto
  then have "status s i = state_of s i" for i
    using rec d3 by (cases "i \<in> dom s3") (auto simp: state_of_def)
  moreover have "distinct (free s @ pending s @ listPage s)"
    using rec by (auto split: if_splits)
  ultimately show ?r using rec f by auto
qed

text \<open>\<open>verifyLive\<close> accepts exactly the stores that satisfy the invariant and match what was read.\<close>

lemma verifyLive_None:
  assumes "nextPage s \<noteq> 0"
  shows "verifyLive s n es ls = None \<longleftrightarrow>
     mem_ok s \<and> mNextPage (durable s) \<le> nextPage s \<and> filePages s \<le> n \<and> listPage s = ls
     \<and> set (free s) \<subseteq> set es"
proof -
  have "(if root s = NoPage then None
         else if inRange (root s) s \<noteq> None then Some (ErrCorrupt (RootOutside (root s)))
         else map_option (\<lambda>st. ErrCorrupt (RootHasState (root s) st)) (status s (root s))) = None
      \<longleftrightarrow> root s = NoPage \<or> root s < nextPage s \<and> status s (root s) = None"
    using inRange_None [of "root s" s] by (auto split: if_splits)
  then show ?thesis
    using assms
    by (auto simp: verifyLive_def mem_ok_def verify_records_None not_less split: option.split)
qed

section \<open>Reading the free list\<close>

lemma readFreeList_sound:
  assumes "readFreeList d m = (r, d')"
  shows "same_file d d'"
    "r = Inr (es, ls) \<Longrightarrow> chain (live_page d) (mFreeListPage m) ls \<and> es = chain_items (live_page d) ls
       \<and> distinct ls \<and> (\<forall>l \<in> set ls. l < mNextPage m \<and> has_page (live d) (unat l))
       \<and> mFreeCount m = word_of_nat (length es)"
proof -
  obtain q d1 where q: "read_lists d m (mFreeListPage m) {} [] [] = (q, d1)" by fastforce
  have "d' = d1" using assms q by (auto simp: readFreeList_def split: sum.splits if_splits)
  then show "same_file d d'" using read_lists_sound [OF q] by simp
  assume "r = Inr (es, ls)"
  then have "q = Inr (es, ls)" "mFreeCount m = word_of_nat (length es)"
    using assms q by (auto simp: readFreeList_def split: sum.splits if_splits)
  then show "chain (live_page d) (mFreeListPage m) ls \<and> es = chain_items (live_page d) ls
       \<and> distinct ls \<and> (\<forall>l \<in> set ls. l < mNextPage m \<and> has_page (live d) (unat l))
       \<and> mFreeCount m = word_of_nat (length es)"
    using read_lists_sound [OF q] by auto
qed

lemma readFreeList_held:
  assumes "held d (m, E, L)" "readFreeList d m = (Inr (es, ls), d')"
  shows "es = E \<and> ls = L"
  using readFreeList_sound(2) [OF assms(2) refl] assms(1) chain_determined
  by (auto simp: held_iff)

lemma readFreeList_ok:
  assumes "held d (m, E, L)" "sched d = []" "\<not> dev_closed d"
  shows "readFreeList d m = (Inr (E, L), d)"
proof -
  have "\<forall>l \<in> set L. l < mNextPage m \<and> has_page (live d) (unat l)" "distinct L"
    "mFreeCount m = word_of_nat (length E)"
    using assms(1) by (auto simp: held_iff meta_ok_def stable_def)
  then show ?thesis
    using assms read_lists_ok [of d "mFreeListPage m" L "{}" m "[]" "[]"]
    by (simp add: readFreeList_def held_iff)
qed

section \<open>Loading\<close>

definition loaded :: "Meta \<Rightarrow> PageID list \<Rightarrow> PageID list \<Rightarrow> Dev \<Rightarrow> Store" where
  "loaded m E L d =
     \<lparr>pf = d, durable = m, root = mRoot m, nextPage = mNextPage m, filePages = mFilePages m,
      free = E, pending = [], listPage = L,
      status = (\<lambda>i. if i \<in> set L then Some stFreeList else if i \<in> set E then Some stFree else None),
      dirty = False, closed = False, poisoned = None,
      stats = \<lparr>Grown = 0, Allocated = 0, Reused = 0, Freed = 0, Checkpoints = 0\<rparr>\<rparr>"

lemma loaded_fields [simp]:
  "pf (loaded m E L d) = d" "durable (loaded m E L d) = m" "root (loaded m E L d) = mRoot m"
  "nextPage (loaded m E L d) = mNextPage m" "filePages (loaded m E L d) = mFilePages m"
  "free (loaded m E L d) = E" "pending (loaded m E L d) = []" "listPage (loaded m E L d) = L"
  "dirty (loaded m E L d) = False" "closed (loaded m E L d) = False" "poisoned (loaded m E L d) = None"
  "(loaded m E L d)\<lparr>pf := d'\<rparr> = loaded m E L d'"
  by (simp_all add: loaded_def)

lemma loaded_mem_ok: "meta_ok (m, E, L) \<Longrightarrow> mem_ok (loaded m E L d)"
  by (auto simp: mem_ok_def meta_ok_def state_of_def loaded_def)

lemma loaded_store_ok:
  assumes "held d (m, E, L)" "stable d 0" "page_of (live d) 0 = encodeMeta m"
    "4096 * unat (mFilePages m) \<le> length (flushed d)"
  shows "store_ok (loaded m E L d) E"
  using assms loaded_mem_ok
  by (simp add: store_ok_def file_ok_def disk_ok_def held_iff)

text \<open>The last steps of \<open>load\<close>: the meta page is written again and confirmed before anyone gets the
  store.\<close>

definition settle :: "Meta \<Rightarrow> PageID list \<Rightarrow> PageID list \<Rightarrow> Dev \<Rightarrow> opened" where
  "settle m E L d =
     (case WritePage d (encodeMeta m) of
        (Some e, d) \<Rightarrow> Inl (FileErr e, d)
      | (None, d) \<Rightarrow>
          (case SyncPages d of
             (Some e, d) \<Rightarrow> Inl (FileErr e, d)
           | (None, d) \<Rightarrow> Inr (loaded m E L d)))"

lemma load_cases:
  obtains (rejected) e d' where "load d = Inl (e, d')" "same_file d d'"
  | (accepted) m E L d' where "load d = settle m E L d'" "same_file d d'"
      "has_page (live d) 0" "decodeMeta (page_of (live d) 0) = Inr m"
      "chain (live_page d) (mFreeListPage m) L" "E = chain_items (live_page d) L"
      "\<forall>l \<in> set L. has_page (live d) (unat l)" "meta_ok (m, E, L)"
      "4096 * unat (mFilePages m) \<le> length (live d)"
proof -
  obtain q0 d0 where r0: "ReadPage d MetaPage = (q0, d0)" by fastforce
  note f0 = ReadPage_same [OF r0]
  show thesis
  proof (cases "\<exists>raw m. q0 = Inr raw \<and> decodeMeta raw = Inr m")
    case False
    then have "\<exists>e. load d = Inl (e, d0)" using r0 by (auto simp: load_def split: sum.splits)
    then show ?thesis using rejected f0 by blast
  next
    case True
    then obtain raw m where q0: "q0 = Inr raw" "decodeMeta raw = Inr m" by blast
    have raw: "has_page (live d) 0" "raw = page_of (live d) 0"
      using ReadPage_data [OF r0 [unfolded q0(1)]] by simp_all
    obtain q1 d1 where r1: "PageCount d0 = (q1, d1)" by fastforce
    note f1 = same_file_trans [OF f0 PageCount_same [OF r1]]
    show ?thesis
    proof (cases "\<exists>n. q1 = Inr n \<and> checkMeta m n = None")
      case False
      then have "\<exists>e. load d = Inl (e, d1)"
        using r0 q0 r1 by (auto simp: load_def split: sum.splits option.splits)
      then show ?thesis using rejected f1 by blast
    next
      case True
      then obtain n where q1: "q1 = Inr n" "checkMeta m n = None" by blast
      have n: "unat n = min (length (live d) div 4096) 4294967295"
        using PageCount_data [OF r1 [unfolded q1(1)]] f0 by (simp add: same_file_def)
      obtain q2 d2 where r2: "readFreeList d1 m = (q2, d2)" by fastforce
      note f2 = same_file_trans [OF f1 readFreeList_sound(1) [OF r2]]
      show ?thesis
      proof (cases "\<exists>es ls. q2 = Inr (es, ls) \<and> checkFreeSet m es ls = None
          \<and> verifyLive (loaded m es ls d2) n es ls = None")
        case False
        then have "\<exists>e. load d = Inl (e, d2)"
          using r0 q0 r1 q1 r2
          by (auto simp: load_def loaded_def Let_def split: sum.splits option.splits)
        then show ?thesis using rejected f2 by blast
      next
        case True
        then obtain es ls where q2: "q2 = Inr (es, ls)" "checkFreeSet m es ls = None"
          "verifyLive (loaded m es ls d2) n es ls = None" by blast
        have eq: "load d = settle m es ls d2"
          using r0 q0 r1 q1 r2 q2
          by (simp add: load_def settle_def loaded_def Let_def cong: option.case_cong)
        have live: "live d1 = live d" using f1 by (simp add: same_file_def)
        note c = readFreeList_sound(2) [OF r2 q2(1), unfolded live]
        have m: "mNextPage m \<noteq> 0" "mNextPage m \<le> mFilePages m" "mFilePages m \<le> n"
          using q1(2) by (simp_all add: checkMeta_None)
        have ok: "mem_ok (loaded m es ls d2)"
          using q2(3) m(1) by (simp add: verifyLive_None)
        have r: "i \<noteq> mRoot m" if "i \<in> set (es @ ls)" for i
          using mem_ok_root [OF ok, of i] that by simp
        have "meta_ok (m, es, ls)"
          using ok m c decodeMeta_format [OF q0(2)] r
          unfolding mem_ok_def meta_ok_def by auto
        moreover have "4096 * unat (mFilePages m) \<le> length (live d)"
          using m(3) n by (simp add: page_le_iff) linarith
        ultimately show ?thesis
          using eq f2 raw q0(2) c by (intro accepted [of m es ls d2]) auto
      qed
    qed
  qed
qed

text \<open>A file that describes checkpoints loads as one of them, or fails and still describes them.\<close>

lemma sound_live:
  assumes "sound d C"
  obtains m E L where "(m, E, L) \<in> C" "held d (m, E, L)" "has_page (live d) 0"
    "page_of (live d) 0 = encodeMeta m" "decodeMeta (page_of (live d) 0) = Inr m" "meta_ok (m, E, L)"
proof -
  have "meta_at (fst ` C) (live d)" using assms by (simp add: sound_def meta_disk_def)
  then obtain c where c: "c \<in> C" "has_page (live d) 0" "page_of (live d) 0 = encodeMeta (fst c)"
    by (auto simp: meta_at_def)
  obtain m E L where f: "c = (m, E, L)" by (cases c)
  have h: "held d (m, E, L)" using assms c f by (simp add: sound_def)
  then have ok: "meta_ok (m, E, L)" by (simp add: held_iff)
  then have "this_format m" by (simp add: meta_ok_def)
  then show thesis using that [of m E L] c f h ok decode_encode by simp
qed

lemma settle_sound:
  assumes "sound d C" "(m, E, L) \<in> C"
  shows "case settle m E L d of
      Inl (e, d') \<Rightarrow> sound d' C \<and> frame (- {0}) d d'
    | Inr s \<Rightarrow> store_ok s E \<and> s = loaded m E L (pf s) \<and> progress (- {0}) d (pf s)"
proof -
  have m: "m \<in> fst ` C" using assms(2) by force
  have h: "held d (m, E, L)" using assms by (simp add: sound_def)
  obtain e1 d1 where w: "WritePage d (encodeMeta m) = (e1, d1)" by fastforce
  note s1 = sound_WriteMeta [OF w m assms(1)] and p1 = WriteMeta_frame [OF w]
  obtain e2 d2 where sy: "SyncPages d1 = (e2, d2)" by fastforce
  note s2 = sound_SyncPages [OF sy s1]
  have f2: "frame (- {0}) d d2"
    by (rule frame_trans [OF progress_frame [OF p1] SyncPages_frame [OF sy]])
  show ?thesis
  proof (cases "e1 = None \<and> e2 = None")
    case True
    then have w: "WritePage d (encodeMeta m) = (None, d1)" and sy: "SyncPages d1 = (None, d2)"
      using w sy by simp_all
    have h2: "held d2 (m, E, L)" using s2 assms(2) by (simp add: sound_def)
    then have "4096 * unat (mFilePages m) \<le> length (flushed d2)"
      using flushed_empty_log [OF SyncPages_done(3) [OF sy]] by (simp add: held_iff)
    then have "store_ok (loaded m E L d2) E"
      using loaded_store_ok [OF h2] commit_stable [OF w sy] by simp
    then show ?thesis
      using w sy progress_trans [OF p1 SyncPages_done(4) [OF sy]] by (simp add: settle_def)
  next
    case False
    then show ?thesis
      using w sy s1 s2 f2 progress_frame [OF p1] by (auto simp: settle_def split: option.splits)
  qed
qed

lemma load_sound:
  assumes "sound d C"
  shows "case load d of
      Inl (e, d') \<Rightarrow> sound d' C \<and> frame (- {0}) d d'
    | Inr s \<Rightarrow> \<exists>m E L. (m, E, L) \<in> C \<and> store_ok s E \<and> s = loaded m E L (pf s) \<and> progress (- {0}) d (pf s)"
proof (cases rule: load_cases [of d])
  case (rejected e d')
  then show ?thesis
    using assms sound_same_file progress_frame [OF same_file_progress] by auto
next
  case (accepted m E L d')
  obtain m0 E0 L0 where c: "(m0, E0, L0) \<in> C" "held d (m0, E0, L0)"
    "decodeMeta (page_of (live d) 0) = Inr m0"
    using sound_live [OF assms] by metis
  have "m = m0" using accepted(4) c(3) by simp
  moreover have "L = L0" "E = E0"
    using accepted(5,6) c(2) chain_determined calculation by (auto simp: held_iff)
  ultimately have mem: "(m, E, L) \<in> C" using c(1) by simp
  have s: "sound d' C" using assms sound_same_file [OF accepted(2)] by simp
  have p: "progress (- {0}) d d'" using same_file_progress [OF accepted(2)] .
  show ?thesis
  proof (cases "settle m E L d'")
    case (Inl a)
    then show ?thesis
      using settle_sound [OF s mem] accepted(1) frame_trans [OF progress_frame [OF p]]
      by (cases a) auto
  next
    case (Inr s')
    then show ?thesis
      using settle_sound [OF s mem] accepted(1) mem progress_trans [OF p] by auto
  qed
qed

text \<open>Nothing is in the way of a load that no fault hits.\<close>

lemma checks_ok:
  assumes "meta_ok (m, E, L)" "mFilePages m \<le> n"
  shows "checkMeta m n = None" "checkFreeSet m E L = None"
    "verifyLive (loaded m E L d) n E L = None"
proof -
  show "checkMeta m n = None" using assms by (auto simp: checkMeta_None meta_ok_def)
  show "checkFreeSet m E L = None" using assms(1) by (auto simp: checkFreeSet_None meta_ok_def)
  have "mNextPage m \<noteq> 0" using assms(1) by (simp add: meta_ok_def)
  then show "verifyLive (loaded m E L d) n E L = None"
    using loaded_mem_ok [OF assms(1)] assms(2) by (simp add: verifyLive_None)
qed

lemma settle_ok:
  assumes "sched d = []" "\<not> dev_closed d"
  shows "\<exists>d'. settle m E L d = Inr (loaded m E L d') \<and> sched d' = [] \<and> \<not> dev_closed d'"
proof -
  let ?d = "log_write d 0 (encodeMeta m)"
  have "WritePage d (encodeMeta m) = (None, ?d)"
    using WritePage_ok [OF assms, of "encodeMeta m"] by (simp add: Offset_def)
  moreover have "sched ?d = []" "\<not> dev_closed ?d" using assms by (simp_all add: log_write_def)
  ultimately show ?thesis
    using SyncPages_ok [of ?d]
    by (intro exI [of _ "?d\<lparr>disk := flushed ?d, wlog := []\<rparr>"]) (simp add: settle_def)
qed

lemma count_ok:
  "4096 * unat k \<le> length img \<Longrightarrow> (k :: u32) \<le> word_of_nat (min (length img div 4096) 4294967295)"
proof -
  assume "4096 * unat k \<le> length img"
  then have "unat k \<le> length img div 4096" by (simp add: less_eq_div_iff_mult_less_eq mult.commute)
  then show ?thesis using unat_u32 [of k] by (simp add: page_le_iff unat_of_nat)
qed

lemma load_ok:
  assumes "sound d C" "sched d = []" "\<not> dev_closed d"
  shows "\<exists>s. load d = Inr s \<and> sched (pf s) = [] \<and> \<not> dev_closed (pf s)"
proof -
  obtain m E L where c: "held d (m, E, L)" "has_page (live d) 0"
    "decodeMeta (page_of (live d) 0) = Inr m" "meta_ok (m, E, L)"
    using sound_live [OF assms(1)] by metis
  let ?n = "word_of_nat (min (length (live d) div 4096) 4294967295) :: u32"
  have "mFilePages m \<le> ?n" using c(1) by (intro count_ok) (simp add: held_iff)
  note ch = checks_ok(1,2) [OF c(4) this] checks_ok(3) [OF c(4) this, of d]
  have "ReadPage d MetaPage = (Inr (page_of (live d) 0), d)"
    using ReadPage_ok [OF assms(2,3), of MetaPage] c(2) by simp
  then have "load d = settle m E L d"
    using PageCount_ok [OF assms(2,3)] readFreeList_ok [OF c(1) assms(2,3)] c(3) ch
    by (simp add: load_def settle_def loaded_def Let_def cong: option.case_cong)
  then show ?thesis using settle_ok [OF assms(2,3), of m E L] by auto
qed

section \<open>Opening\<close>

lemma SizeFile_data: "SizeFile d = (Inr n, d') \<Longrightarrow> n = length (live d)"
  by (auto simp: SizeFile_def same_file_def dest!: next_fault_eq split: if_splits prod.splits fault.splits)

lemma ChunkPages_unat [simp]: "unat ChunkPages = 16"
  by (simp add: ChunkPages_def)

lemma isBlank_same: "isBlank d = (r, d') \<Longrightarrow> same_file d d'"
  by (auto simp: isBlank_def Let_def dest!: SizeFile_same ReadAt_same intro: same_file_trans
      split: sum.splits if_splits prod.splits)

lemma isBlank_data:
  assumes "isBlank d = (Inr b, d')"
  shows "b \<longleftrightarrow> length (live d) \<le> 65536 \<and> (\<forall>x \<in> set (live d). x = 0)"
proof -
  obtain q d1 where sz: "SizeFile d = (q, d1)" by fastforce
  then obtain n where q: "q = Inr n" using assms by (cases q) (auto simp: isBlank_def)
  note n = SizeFile_data [OF sz [unfolded q]] and live = SizeFile_same [OF sz]
  show ?thesis
  proof (cases "n = 0 \<or> n > 65536")
    case True
    then show ?thesis using assms sz q n by (cases "n = 0") (simp_all add: isBlank_def)
  next
    case False
    obtain bs e d2 where r: "ReadAt d1 n 0 = (bs, e, d2)" by (metis prod_cases3)
    have l: "length bs = n" "b \<longleftrightarrow> (\<forall>x \<in> set bs. x = 0)"
      using assms sz q False r by (auto simp: isBlank_def split: if_splits)
    have "bs = live d"
      using ReadAt_data [OF r l(1)] False n live by (auto simp: subslice_def same_file_def)
    then show ?thesis using l False n by auto
  qed
qed

lemma hasMagic_same: "hasMagic d = (b, d') \<Longrightarrow> same_file d d'"
  by (auto simp: hasMagic_def dest: ReadAt_same split: prod.splits)

lemma sound_not_blank:
  assumes "sound d C" "isBlank d = (Inr b, d')"
  shows "\<not> b"
proof -
  obtain m where m: "has_page (live d) 0" "page_of (live d) 0 = encodeMeta m"
    using sound_live [OF assms(1)] by metis
  have "live d ! 16 \<noteq> 0" using nth_page0 [OF m(1), of 16] m(2) meta_not_blank [of m] by simp
  moreover have "live d ! 16 \<in> set (live d)" using m(1) by (simp add: has_page_def)
  ultimately show ?thesis using isBlank_data [OF assms(2)] by blast
qed

lemma openFile_cases:
  obtains (failed) e d' where "openFile d = Some (Inl (e, d'))" "same_file d d'"
  | (blank) d' where "openFile d = create d'" "same_file d d'" "isBlank d = (Inr True, d')"
  | (load) d' d1 where "openFile d = Some (load d')" "same_file d d'" "PageSize \<le> length (live d)"
      "isBlank d = (Inr False, d1)"
proof -
  obtain q d1 where b: "isBlank d = (q, d1)" by fastforce
  note f1 = isBlank_same [OF b]
  show thesis
  proof (cases q)
    case (Inl e)
    then show ?thesis using failed [of e d1] b f1 by (simp add: openFile_def)
  next
    case (Inr bl)
    show ?thesis
    proof (cases bl)
      case True
      then show ?thesis using blank [of d1] b f1 Inr by (simp add: openFile_def)
    next
      case False
      obtain z d2 where z: "SizeFile d1 = (z, d2)" by fastforce
      note f2 = same_file_trans [OF f1 SizeFile_same [OF z]]
      show ?thesis
      proof (cases z)
        case (Inl e)
        then show ?thesis using failed [of _ d2] b f2 Inr False z by (simp add: openFile_def)
      next
        case (Inr n)
        have n: "n = length (live d)"
          using SizeFile_data [OF z [unfolded Inr]] f1 by (simp add: same_file_def)
        show ?thesis
        proof (cases "n < PageSize")
          case True
          obtain h d3 where h: "hasMagic d2 = (h, d3)" by fastforce
          have "\<exists>e. openFile d = Some (Inl (e, d3))"
            using b \<open>q = Inr bl\<close> False z Inr True h by (cases h) (auto simp: openFile_def)
          then show ?thesis
            using failed same_file_trans [OF f2 hasMagic_same [OF h]] by blast
        next
          case big: False
          then show ?thesis
            using load [of d2 d1] b \<open>q = Inr bl\<close> False z Inr f2 n by (simp add: openFile_def)
        qed
      qed
    qed
  qed
qed

lemma openFile_sound:
  assumes "sound d C"
  shows "case openFile d of
      None \<Rightarrow> False
    | Some (Inl (e, d')) \<Rightarrow> sound d' C \<and> frame (- {0}) d d'
    | Some (Inr s) \<Rightarrow>
        \<exists>m E L. (m, E, L) \<in> C \<and> store_ok s E \<and> s = loaded m E L (pf s) \<and> progress (- {0}) d (pf s)"
proof (cases rule: openFile_cases [of d])
  case (failed e d')
  then show ?thesis
    using assms sound_same_file progress_frame [OF same_file_progress] by auto
next
  case (blank d')
  then show ?thesis using sound_not_blank [OF assms] by blast
next
  case (load d' d1)
  have s: "sound d' C" using assms sound_same_file [OF load(2)] by simp
  have p: "progress (- {0}) d d'" using same_file_progress [OF load(2)] .
  show ?thesis
    using load_sound [OF s] load(1) frame_trans [OF progress_frame [OF p]] progress_trans [OF p]
    by (cases "StoreOps.load d'") (auto; blast)+
qed

lemma openFile_ok:
  assumes "sound d C" "sched d = []" "\<not> dev_closed d"
  shows "\<exists>s. openFile d = Some (Inr s) \<and> sched (pf s) = [] \<and> \<not> dev_closed (pf s)"
proof -
  have n: "\<not> (length (live d) \<le> 65536 \<and> (\<forall>x \<in> set (live d). x = 0))" "4096 \<le> length (live d)"
  proof -
    obtain m where m: "has_page (live d) 0" "page_of (live d) 0 = encodeMeta m"
      using sound_live [OF assms(1)] by metis
    have "live d ! 16 \<noteq> 0" using nth_page0 [OF m(1), of 16] m(2) meta_not_blank [of m] by simp
    moreover have "live d ! 16 \<in> set (live d)" using m(1) by (simp add: has_page_def)
    ultimately show "\<not> (length (live d) \<le> 65536 \<and> (\<forall>x \<in> set (live d). x = 0))" by blast
    show "4096 \<le> length (live d)" using m(1) by (simp add: has_page_def)
  qed
  have sz: "SizeFile d = (Inr (length (live d)), d)"
    using assms(2,3) by (simp add: SizeFile_def next_fault_def)
  have "ReadAt d (length (live d)) 0 = (live d, None, d)"
    using assms(2,3) by (simp add: ReadAt_def next_fault_def subslice_def)
  then have "isBlank d = (Inr False, d)"
    using n sz by (auto simp: isBlank_def)
  then have "openFile d = Some (load d)" using n(2) sz by (simp add: openFile_def)
  then show ?thesis using load_ok [OF assms] by auto
qed

section \<open>Creating\<close>

definition first_meta :: Meta where
  "first_meta = \<lparr>mVersion = Version, mPageSize = 4096, mRoot = 0, mFreeListPage = 0, mFreeCount = 0,
                 mNextPage = 1, mFilePages = 16, mCheckpoint = 1\<rparr>"

definition initial :: "Dev \<Rightarrow> Store" where
  "initial d =
     \<lparr>pf = d,
      durable = \<lparr>mVersion = 0, mPageSize = 0, mRoot = 0, mFreeListPage = 0, mFreeCount = 0,
                 mNextPage = 0, mFilePages = 0, mCheckpoint = 0\<rparr>,
      root = NoPage, nextPage = 1, filePages = ChunkPages, free = [], pending = [], listPage = [],
      status = Map.empty, dirty = False, closed = False, poisoned = None,
      stats = \<lparr>Grown = 1, Allocated = 0, Reused = 0, Freed = 0, Checkpoints = 0\<rparr>\<rparr>"

lemma initial_fields [simp]:
  "pf (initial d) = d" "root (initial d) = 0" "nextPage (initial d) = 1" "filePages (initial d) = 16"
  "free (initial d) = []" "pending (initial d) = []" "listPage (initial d) = []"
  "status (initial d) = Map.empty" "dirty (initial d) = False" "closed (initial d) = False"
  "poisoned (initial d) = None" "(initial d)\<lparr>pf := d'\<rparr> = initial d'"
  "mCheckpoint (durable (initial d)) = 0"
  by (simp_all add: initial_def ChunkPages_def)

lemma initial_plan: "plan_lists d (fixed_of (initial d0)) (first_plan (initial d0)) = (Inr (first_plan (initial d0)), d)"
  by (subst plan_lists.simps) (simp add: fixed_of_def first_plan_def pagesFor_def)

lemma initial_next: "next_meta (first_plan (initial d0)) [] (initial d) = first_meta"
  by (simp add: next_meta_def first_plan_def first_meta_def head_of_def)

text \<open>\<open>create\<close> as the four calls it makes of the file.\<close>

lemma create_steps:
  obtains (grow) e d1 where "Grow d 0 16 = (Some e, d1)" "create d = Some (Inl (FileErr e, d1))"
  | (sync) e d1 d2 where "Grow d 0 16 = (None, d1)" "SyncPages d1 = (Some e, d2)"
      "create d = Some (Inl (ErrPoisoned e, d2))"
  | (meta) e d1 d2 d3 where "Grow d 0 16 = (None, d1)" "SyncPages d1 = (None, d2)"
      "WritePage d2 (encodeMeta first_meta) = (Some e, d3)" "create d = Some (Inl (ErrPoisoned e, d3))"
  | (commit) e d1 d2 d3 d4 where "Grow d 0 16 = (None, d1)" "SyncPages d1 = (None, d2)"
      "WritePage d2 (encodeMeta first_meta) = (None, d3)" "SyncPages d3 = (Some e, d4)"
      "create d = Some (Inl (ErrPoisoned e, d4))"
  | (created) s d1 d2 d3 d4 where "Grow d 0 16 = (None, d1)" "SyncPages d1 = (None, d2)"
      "WritePage d2 (encodeMeta first_meta) = (None, d3)" "SyncPages d3 = (None, d4)"
      "create d = Some (Inr s)" "checkpoint (initial d1) = Some (None, s)" "pf s = d4"
      "durable s = first_meta" "free s = []" "listPage s = []" "pending s = []" "root s = 0" "nextPage s = 1"
      "usable s = None" "\<not> dirty s"
proof -
  obtain e1 d1 where g: "Grow d 0 16 = (e1, d1)" by fastforce
  then have g': "Grow d 0 ChunkPages = (e1, d1)" by (simp add: ChunkPages_def)
  show thesis
  proof (cases e1)
    case (Some e)
    then show ?thesis using grow g g' by (simp add: create_def)
  next
    case None
    have c: "create d = (case Checkpoint (initial d1) of
        None \<Rightarrow> None | Some (Some e, s) \<Rightarrow> Some (Inl (e, pf s)) | Some (None, s) \<Rightarrow> Some (Inr s))"
      using g' None by (simp add: create_def initial_def)
    have u: "usable (initial d1) = None" by (simp add: usable_None)
    have ne: "new_entries (first_plan (initial d1)) (initial d1) = []"
      by (simp add: new_entries_def first_plan_def)
    have pl: "p_lists (first_plan (initial d1)) = []" by (simp add: first_plan_def)
    obtain e2 d2 where s1: "SyncPages d1 = (e2, d2)" by fastforce
    show ?thesis
    proof (cases e2)
      case (Some e)
      then have "checkpoint (initial d1) = Some (Some (mustPoison e), initial d2)"
        using s1 unfolding checkpoint_eq by simp
      then show ?thesis
        using sync g None s1 Some c u by (simp add: Checkpoint_def poison_def)
    next
      case e2: None
      have k: "checkpoint (initial d1) = Some (commit (first_plan (initial d1)) [] (initial d2))"
        using s1 e2 unfolding checkpoint_eq by (simp add: initial_plan ne pl)
      note ce = commit_eq [of "first_plan (initial d1)" "initial d1" d2, unfolded ne initial_next]
      obtain e3 d3 where w: "WritePage d2 (encodeMeta first_meta) = (e3, d3)" by fastforce
      show ?thesis
      proof (cases e3)
        case (Some e)
        then have "checkpoint (initial d1) = Some (Some (mustPoison e), initial d3)"
          using k ce w by simp
        then show ?thesis
          using meta g None s1 e2 w Some c u by (simp add: Checkpoint_def poison_def)
      next
        case e3: None
        obtain e4 d4 where s2: "SyncPages d3 = (e4, d4)" by fastforce
        show ?thesis
        proof (cases e4)
          case (Some e)
          then have "checkpoint (initial d1) = Some (Some (mustPoison e), initial d4)"
            using k ce w e3 s2 by simp
          then show ?thesis
            using commit g None s1 e2 w e3 s2 Some c u by (simp add: Checkpoint_def poison_def)
        next
          case e4: None
          obtain s where s: "checkpoint (initial d1) = Some (None, s)" "pf s = d4" "durable s = first_meta"
            "free s = []" "listPage s = []" "pending s = []" "root s = 0" "nextPage s = 1"
            "poisoned s = None" "\<not> closed s" "\<not> dirty s"
            using k ce w e3 s2 e4 pl by (simp add: first_plan_def)
          then show ?thesis
            using created [of d1 d2 d3 d4 s] g None s1 e2 w e3 s2 e4 c u
            by (simp add: Checkpoint_def usable_None)
        qed
      qed
    qed
  qed
qed

lemma initial_ok:
  assumes "Grow d 0 16 = (None, d1)"
  shows "mem_ok (initial d1)" "file_ok (initial d1)"
proof -
  show "mem_ok (initial d1)" by (simp add: mem_ok_def state_of_def)
  have "4096 * 16 \<le> length (live d1)" "4096 * 16 \<le> length (flushed d1)"
    using Grow_done [OF assms] all_pages_length [of 0 16 "live d1"] all_pages_length [of 0 16 "flushed d1"]
    by (simp_all add: agree_def)
  then show "file_ok (initial d1)" by (simp add: file_ok_def)
qed

lemma create_success:
  assumes "create d = Some (Inr s)"
  shows "store_ok s []" "durable s = first_meta" "free s = []" "pending s = []" "listPage s = []"
    "root s = 0" "nextPage s = 1" "usable s = None" "\<not> dirty s"
proof -
  have all: "store_ok s [] \<and> durable s = first_meta \<and> free s = [] \<and> pending s = [] \<and> listPage s = []
    \<and> root s = 0 \<and> nextPage s = 1 \<and> usable s = None \<and> \<not> dirty s"
  proof (cases rule: create_steps [of d])
    case (created s' d1 d2 d3 d4)
    then have s: "s' = s" using assms by simp
    obtain p where "plan_ok (initial d1) (fixed_of (initial d1)) p"
      "store_ok s (new_entries p (initial d1))" "committed (initial d1) p s"
      using checkpoint_success [OF initial_ok [OF created(1)] created(6) [unfolded s]] by blast
    then have "store_ok s []" using created(9) [unfolded s] by (simp add: committed_def)
    then show ?thesis using created [unfolded s] by simp
  qed (use assms in simp_all)
  then show "store_ok s []" "durable s = first_meta" "free s = []" "pending s = []" "listPage s = []"
    "root s = 0" "nextPage s = 1" "usable s = None" "\<not> dirty s" by simp_all
qed

lemma create_total: "\<exists>r. create d = Some r"
  by (cases rule: create_steps [of d]) simp_all

section \<open>\<open>Verify\<close>\<close>

lemma Verify_same:
  assumes "Verify s = (r, s')"
  shows "s' = s\<lparr>pf := pf s'\<rparr> \<and> same_file (pf s) (pf s')"
proof (cases "usable s")
  case None
  obtain q0 d0 where r0: "ReadPage (pf s) MetaPage = (q0, d0)" by fastforce
  note f0 = ReadPage_same [OF r0]
  show ?thesis
  proof (cases "\<exists>raw. q0 = Inr raw \<and> decodeMeta raw = Inr (durable s)")
    case False
    then have "s' = s\<lparr>pf := d0\<rparr>"
      using assms None r0 by (auto simp: Verify_def split: sum.splits if_splits)
    then show ?thesis using f0 by simp
  next
    case True
    then obtain raw where q0: "q0 = Inr raw" "decodeMeta raw = Inr (durable s)" by blast
    obtain q1 d1 where r1: "PageCount d0 = (q1, d1)" by fastforce
    note f1 = same_file_trans [OF f0 PageCount_same [OF r1]]
    obtain q2 d2 where r2: "readFreeList d1 (durable s) = (q2, d2)" by fastforce
    note f2 = same_file_trans [OF f1 readFreeList_sound(1) [OF r2]]
    have "s' = s\<lparr>pf := d1\<rparr> \<or> s' = s\<lparr>pf := d2\<rparr>"
      using assms None r0 q0 r1 r2
      by (auto simp: Verify_def split: sum.splits option.splits prod.splits)
    then show ?thesis using f1 f2 by auto
  qed
next
  case (Some e)
  then show ?thesis using assms by (simp add: Verify_def)
qed

lemma Verify_passes:
  assumes "store_ok s E" "usable s = None" "sched (pf s) = []" "\<not> dev_closed (pf s)"
  shows "Verify s = (None, s)"
proof -
  let ?d = "pf s" and ?m = "durable s"
  let ?n = "word_of_nat (min (length (live ?d) div 4096) 4294967295) :: u32"
  have h: "held ?d (?m, E, listPage s)" and p0: "has_page (live ?d) 0" "page_of (live ?d) 0 = encodeMeta ?m"
    and mem: "mem_ok s" and fs: "set (free s) \<subseteq> set E" "mNextPage ?m \<le> nextPage s"
    "4096 * unat (filePages s) \<le> length (live ?d)" "mFilePages ?m \<le> filePages s"
    using assms(1) by (auto simp: store_ok_def disk_ok_def file_ok_def stable_def)
  have ok: "meta_ok (?m, E, listPage s)" using h by (simp add: held_iff)
  then have dec: "decodeMeta (encodeMeta ?m) = Inr ?m" by (simp add: decode_encode meta_ok_def)
  have n: "filePages s \<le> ?n" using fs(3) by (rule count_ok)
  have ch: "checkMeta ?m ?n = None" "checkFreeSet ?m E (listPage s) = None"
    using checks_ok(1,2) [OF ok order_trans [OF fs(4) n]] .
  have nz: "nextPage s \<noteq> 0" using mem unfolding mem_ok_def by blast
  have v: "verifyLive s ?n E (listPage s) = None"
    using mem n fs verifyLive_None [OF nz] by simp
  have "ReadPage ?d MetaPage = (Inr (encodeMeta ?m), ?d)"
    using ReadPage_ok [OF assms(3,4), of MetaPage] p0 by simp
  then show ?thesis
    using PageCount_ok [OF assms(3,4)] readFreeList_ok [OF h assms(3,4)] dec ch v assms(2)
    by (simp add: Verify_def)
qed

text \<open>On a file that holds a checkpoint the only failures are those of the file itself.\<close>

lemma read_lists_answers:
  "chain (live_page d) i L \<Longrightarrow> distinct L \<Longrightarrow> set L \<inter> seen = {} \<Longrightarrow> \<forall>l \<in> set L. l < mNextPage m \<Longrightarrow>
   read_lists d m i seen es ls = (Inl e, d') \<Longrightarrow> \<exists>f. e = FileErr f"
proof (induction L arbitrary: d i seen es ls)
  case (Cons l L)
  then have ok: "list_ok l (live_page d l)" "i = l" "l \<noteq> NoPage" "l \<notin> seen" "\<not> mNextPage m \<le> l"
    by auto
  obtain q d1 where rd: "ReadPage d l = (q, d1)" by fastforce
  show ?case
  proof (cases q)
    case (Inl f)
    then show ?thesis
      using Cons.prems(5) ok rd by (subst (asm) read_lists.simps) auto
  next
    case (Inr p)
    have p: "p = live_page d l" using ReadPage_data [OF rd [unfolded Inr]] by simp
    have s: "live d1 = live d" using ReadPage_same [OF rd] by (simp add: same_file_def)
    have "read_lists d1 m (page_link (live_page d l)) (insert l seen) (es @ page_items (live_page d l)) (ls @ [l])
        = (Inl e, d')"
      using Cons.prems(5) ok rd Inr p
      by (subst (asm) read_lists.simps) (simp add: list_ok_def page_link_def page_items_def Let_def)
    then show ?thesis
      using Cons.IH [of d1 "page_link (live_page d l)" "insert l seen"] Cons.prems s by auto
  qed
qed (simp add: read_lists.simps)

lemma readFreeList_answers:
  assumes "held d (m, E, L)" "readFreeList d m = (Inl e, d')"
  shows "\<exists>f. e = FileErr f"
proof -
  obtain q d1 where q: "read_lists d m (mFreeListPage m) {} [] [] = (q, d1)" by fastforce
  show ?thesis
  proof (cases q)
    case (Inl x)
    have "\<exists>f. x = FileErr f"
      by (rule read_lists_answers [OF _ _ _ _ q [unfolded Inl], of L])
        (use assms(1) in \<open>auto simp: held_iff meta_ok_def\<close>)
    then show ?thesis using assms(2) q Inl by (simp add: readFreeList_def)
  next
    case (Inr x)
    then obtain L' where L': "x = (chain_items (live_page d) L', L')" "chain (live_page d) (mFreeListPage m) L'"
      using read_lists_sound [OF q] by auto
    then have "L' = L" using assms(1) chain_determined by (auto simp: held_iff)
    then have "word_of_nat (length (fst x)) = mFreeCount m"
      using assms(1) L'(1) by (auto simp: held_iff meta_ok_def)
    then show ?thesis using assms(2) q Inr by (cases x) (simp add: readFreeList_def)
  qed
qed

lemma Verify_answers:
  assumes "store_ok s E" "usable s = None" "Verify s = (Some e, s')"
  shows "\<exists>f. e = FileErr f"
proof -
  let ?m = "durable s"
  have h: "held (pf s) (?m, E, listPage s)" and p0: "page_of (live (pf s)) 0 = encodeMeta ?m"
    and mem: "mem_ok s" and fs: "set (free s) \<subseteq> set E" "mNextPage ?m \<le> nextPage s"
    "4096 * unat (filePages s) \<le> length (live (pf s))" "mFilePages ?m \<le> filePages s"
    using assms(1) by (auto simp: store_ok_def disk_ok_def file_ok_def)
  have ok: "meta_ok (?m, E, listPage s)" using h by (simp add: held_iff)
  then have dec: "decodeMeta (encodeMeta ?m) = Inr ?m" by (simp add: decode_encode meta_ok_def)
  obtain q0 d0 where r0: "ReadPage (pf s) MetaPage = (q0, d0)" by fastforce
  note f0 = ReadPage_same [OF r0]
  show ?thesis
  proof (cases q0)
    case (Inl f)
    then show ?thesis using assms(2,3) r0 by (auto simp: Verify_def)
  next
    case (Inr raw)
    have raw: "raw = encodeMeta ?m" using ReadPage_data [OF r0 [unfolded Inr]] p0 by simp
    obtain q1 d1 where r1: "PageCount d0 = (q1, d1)" by fastforce
    note f1 = same_file_trans [OF f0 PageCount_same [OF r1]]
    show ?thesis
    proof (cases q1)
      case q1: (Inl f)
      then show ?thesis using assms(2,3) r0 Inr raw dec r1 by (auto simp: Verify_def)
    next
      case q1: (Inr n)
      have "unat n = min (length (live (pf s)) div 4096) 4294967295"
        using PageCount_data [OF r1 [unfolded q1]] f0 by (simp add: same_file_def)
      moreover have "unat (filePages s) \<le> length (live (pf s)) div 4096"
        using fs(3) by (simp add: less_eq_div_iff_mult_less_eq mult.commute)
      ultimately have n: "filePages s \<le> n" using unat_u32 [of "filePages s"] by (simp add: page_le_iff)
      have ch: "checkMeta ?m n = None" "checkFreeSet ?m E (listPage s) = None"
        using checks_ok(1,2) [OF ok order_trans [OF fs(4) n]] .
      have nz: "nextPage s \<noteq> 0" using mem unfolding mem_ok_def by blast
      have v: "verifyLive s n E (listPage s) = None" using mem n fs verifyLive_None [OF nz] by simp
      obtain q2 d2 where r2: "readFreeList d1 ?m = (q2, d2)" by fastforce
      have h1: "held d1 (?m, E, listPage s)" using h held_same_file [OF f1] by simp
      show ?thesis
      proof (cases q2)
        case (Inl x)
        have "\<exists>f. x = FileErr f" by (rule readFreeList_answers [OF h1 r2 [unfolded Inl]])
        then show ?thesis using assms(2,3) r0 Inr raw dec r1 q1 ch r2 Inl by (auto simp: Verify_def)
      next
        case q2: (Inr x)
        have "x = (E, listPage s)" using readFreeList_held [OF h1, of "fst x" "snd x"] r2 q2 by (cases x) simp
        then show ?thesis using assms(2,3) r0 Inr raw dec r1 q1 ch r2 q2 v by (simp add: Verify_def)
      qed
    qed
  qed
qed

end
