(* ===== verification/StoreBirth.thy ===== *)
theory StoreBirth
  imports StoreRecovery
begin

text \<open>
  A crash while a store is created: the file is blank, or holds the first meta page and zeros, or is
  torn between the two, and opening it gives the empty store in every case.
\<close>

section \<open>A file being created\<close>

definition zeros :: "bytes \<Rightarrow> bool" where
  "zeros img \<longleftrightarrow> length img \<le> 65536 \<and> (\<forall>j < length img. img ! j = 0)"

definition blank_dev :: "Dev \<Rightarrow> bool" where
  "blank_dev d \<longleftrightarrow> zeros (live d) \<and> zeros (disk d)
     \<and> (\<forall>w \<in> set (wlog d). fst w + length (snd w) \<le> 65536 \<and> zeros (snd w))"

definition zero_img :: bytes where
  "zero_img = replicate 65536 0"

definition first_img :: bytes where
  "first_img = encodeMeta first_meta @ replicate 61440 0"

definition born :: "Dev \<Rightarrow> bool" where
  "born d \<longleftrightarrow> live d = first_img \<and> disk d \<in> {zero_img, first_img}
     \<and> (\<forall>w \<in> set (wlog d). meta_write {first_meta} w)"

definition empty_snapshot :: snapshot where
  "empty_snapshot = (first_meta, [], [])"

definition nascent :: "Dev \<Rightarrow> bool" where
  "nascent d \<longleftrightarrow> blank_dev d \<or> born d \<or> sound d {empty_snapshot}"

lemma zeros_masked:
  "zeros img \<Longrightarrow> zeros p \<Longrightarrow> off + length p \<le> 65536 \<Longrightarrow> zeros (write_into img off (masked keep img off p))"
  by (simp add: zeros_def length_write_into)
    (auto simp: write_into_def masked_def nth_overwrite nth_append)

lemma zeros_write_into:
  "zeros img \<Longrightarrow> zeros p \<Longrightarrow> off + length p \<le> 65536 \<Longrightarrow> zeros (write_into img off p)"
  using zeros_masked [of img p off "all_kept 0"] by simp

lemma zeros_apply_log:
  "zeros img \<Longrightarrow> \<forall>w \<in> set ws. fst w + length (snd w) \<le> 65536 \<and> zeros (snd w) \<Longrightarrow>
   zeros (apply_log kept n ws img)"
proof (induction ws arbitrary: n img)
  case (Cons w ws)
  then have "zeros (apply_write (kept n) w img)"
    by (cases w) (simp add: zeros_masked)
  then show ?case using Cons by simp
qed simp

lemma zeros_full: "zeros img \<Longrightarrow> 65536 \<le> length img \<Longrightarrow> img = zero_img"
  unfolding zeros_def zero_img_def by (rule nth_equalityI) simp_all

lemma zeros_replicate: "n \<le> 65536 \<Longrightarrow> zeros (replicate n 0)"
  by (simp add: zeros_def)

lemma length_first_img [simp]: "length first_img = 65536" "length zero_img = 65536"
  by (simp_all add: first_img_def zero_img_def)

lemma first_img_nth:
  "j < 65536 \<Longrightarrow> first_img ! j = (if j < 4096 then encodeMeta first_meta ! j else 0)"
  "j < 65536 \<Longrightarrow> zero_img ! j = 0"
  by (simp_all add: first_img_def zero_img_def nth_append)

text \<open>A torn write of the first meta page over zeros is all of it or none of it.\<close>

lemma born_write:
  assumes "img \<in> {zero_img, first_img}" "meta_write {first_meta} w"
  shows "apply_write keep w img \<in> {zero_img, first_img}"
    "(\<exists>j < length (snd w). keep (j div 512)) \<Longrightarrow> keep 0 \<Longrightarrow> apply_write keep w img = first_img"
proof -
  obtain k where w: "w = (0, take (512 * k) (encodeMeta first_meta))"
    using assms(2) by (auto simp: meta_write_def)
  let ?p = "take (512 * k) (encodeMeta first_meta)"
  let ?img = "write_into img 0 (masked keep img 0 ?p)"
  have l: "length img = 65536" using assms(1) by auto
  have tail: "encodeMeta first_meta ! j = 0" if "512 \<le> j" "j < 4096" for j
    using that encodeMeta_tail [of j first_meta] by simp
  have img_tail: "img ! j = 0" if "512 \<le> j" "j < 65536" for j
    using that assms(1) tail by (auto simp: first_img_nth)
  have len: "length ?img = 65536" using l by (simp add: length_write_into)
  have nth: "?img ! j = (if j < length ?p \<and> keep (j div 512) then ?p ! j else img ! j)" if "j < 65536" for j
    using that l by (simp add: nth_write_into masked_def)
  have whole: "?img = first_img" if "keep 0" "k \<noteq> 0"
  proof (rule nth_equalityI)
    fix j assume "j < length ?img"
    then have j: "j < 65536" using len by simp
    show "?img ! j = first_img ! j"
    proof (cases "j < 512")
      case True
      then have "j < length ?p" using that(2) by (cases k) auto
      then show ?thesis using nth [OF j] True that(1) by (simp add: first_img_nth)
    next
      case False
      then show ?thesis
        using nth [OF j] img_tail [of j] tail [of j] j by (simp add: first_img_nth)
    qed
  qed (use len in simp)
  have same: "?img = img" if "\<not> keep 0 \<or> k = 0"
  proof (rule nth_equalityI)
    fix j assume "j < length ?img"
    then have j: "j < 65536" using len by simp
    show "?img ! j = img ! j"
    proof (cases "j < length ?p \<and> keep (j div 512)")
      case True
      then have "512 \<le> j" using that by (cases "j < 512") auto
      then show ?thesis using nth [OF j] True img_tail [of j] tail [of j] j by simp
    qed (use nth [OF j] in auto)
  qed (use len l in simp)
  show "apply_write keep w img \<in> {zero_img, first_img}"
    using whole same assms(1) by (cases "keep 0 \<and> k \<noteq> 0") (auto simp: w)
  show "(\<exists>j < length (snd w). keep (j div 512)) \<Longrightarrow> keep 0 \<Longrightarrow> apply_write keep w img = first_img"
    using whole by (cases "k = 0") (auto simp: w)
qed

lemma born_apply_log:
  "img \<in> {zero_img, first_img} \<Longrightarrow> \<forall>w \<in> set ws. meta_write {first_meta} w \<Longrightarrow>
   apply_log kept n ws img \<in> {zero_img, first_img}"
proof (induction ws arbitrary: n img)
  case (Cons w ws)
  then show ?case using born_write(1) [of img w "kept n"] by simp
qed simp

lemma blank_same_file: "same_file d d' \<Longrightarrow> blank_dev d \<Longrightarrow> blank_dev d'"
  by (simp add: blank_dev_def same_file_def)

lemma born_same_file: "same_file d d' \<Longrightarrow> born d \<Longrightarrow> born d'"
  by (simp add: born_def same_file_def)

lemma nascent_same_file: "same_file d d' \<Longrightarrow> nascent d \<Longrightarrow> nascent d'"
  using blank_same_file born_same_file sound_same_file [of d d'] by (auto simp: nascent_def)

lemma SyncPages_cases:
  assumes "SyncPages d = (e, d')"
  obtains "same_file d d'" "e \<noteq> None"
  | kept where "live d' = live d" "disk d' = apply_log kept 0 (wlog d) (disk d)" "wlog d' = []"
proof -
  obtain e1 where s: "SyncFile d = (e1, d')" "e = None \<longleftrightarrow> e1 = None" using SyncPages_file [OF assms] by blast
  show thesis
  proof (cases "dev_closed d")
    case True
    then show ?thesis using that(1) s by (auto simp: SyncFile_def)
  next
    case False
    obtain f d1 where n: "next_fault d = (f, d1)" "same_file d d1" by (rule next_fault_same)
    then show ?thesis using that(2) s False by (auto simp: SyncFile_def same_file_def split: fault.splits)
  qed
qed

lemma blank_SyncPages: "SyncPages d = (e, d') \<Longrightarrow> blank_dev d \<Longrightarrow> blank_dev d'"
  by (erule SyncPages_cases) (auto simp: blank_dev_def same_file_def zeros_apply_log)

lemma born_SyncPages:
  assumes "SyncPages d = (e, d')" "born d"
  shows "born d'"
  using assms(1)
proof (cases rule: SyncPages_cases)
  case 1
  then show ?thesis using born_same_file assms(2) by blast
next
  case (2 kept)
  then show ?thesis using assms(2) born_apply_log [of "disk d" "wlog d"] by (simp add: born_def)
qed

section \<open>Creating it, step by step\<close>

lemma Grow_first:
  assumes "Grow d 0 16 = (e, d')"
  obtains e1 where "WriteAt d (replicate 65536 0) 0 = (e1, d')" "e = None \<longleftrightarrow> e1 = None"
proof -
  have step: "min 16 growPiece = (16 :: u32)" by (simp add: growPiece_def)
  obtain e1 d1 where w: "WriteAt d (replicate 65536 0) 0 = (e1, d1)" by fastforce
  have "grow_loop d 0 16 = (case e1 of Some x \<Rightarrow> (Some (FileIO x), d1) | None \<Rightarrow> grow_loop d1 16 16)"
    using w by (subst grow_loop.simps) (simp add: step Let_def Offset_def split: option.split)
  moreover have "grow_loop d1 16 16 = (None, d1)" by (subst grow_loop.simps) simp
  ultimately show thesis
    using that [of e1] assms w by (cases e1) (auto simp: Grow_def)
qed

lemma blank_log_write:
  assumes "blank_dev d" "zeros p" "off + length p \<le> 65536"
  shows "blank_dev (log_write d off p)"
  using assms zeros_write_into by (auto simp: blank_dev_def log_write_def)

lemma blank_Grow:
  assumes "Grow d 0 16 = (e, d')" "blank_dev d"
  shows "blank_dev d'"
proof -
  obtain e1 where w: "WriteAt d (replicate 65536 0) 0 = (e1, d')" using Grow_first [OF assms(1)] .
  show ?thesis
  proof (cases "dev_closed d")
    case False
    obtain f d1 where n: "next_fault d = (f, d1)" "same_file d d1" by (rule next_fault_same)
    have b: "blank_dev (log_write d1 0 (replicate m 0))" if "m \<le> 65536" for m
      using blank_log_write [OF blank_same_file [OF n(2) assms(2)]] that by (simp add: zeros_replicate)
    then have "blank_dev (log_write d1 0 (take m (replicate 65536 0)))" for m
      by (simp add: take_replicate)
    then show ?thesis
      using w False n blank_same_file [OF n(2) assms(2)] b [of 65536]
      by (auto simp: WriteAt_def split: fault.splits if_splits)
  qed (use w assms in \<open>simp add: WriteAt_def\<close>)
qed

text \<open>A write of a meta page fails without effect, or logs the page or its first sectors.\<close>

lemma WriteMeta_cases:
  assumes "WritePage d (encodeMeta m) = (e, d')"
  obtains "same_file d d'" "e \<noteq> None"
  | k d1 where "k \<noteq> 0" "same_file d d1" "d' = log_write d1 0 (take (512 * k) (encodeMeta m))"
proof -
  obtain e1 where w: "WriteAt d (encodeMeta m) 0 = (e1, d')" "e = None \<longleftrightarrow> e1 = None"
    using assms by (auto simp: WritePage_def Offset_def split: prod.splits option.splits)
  show thesis
  proof (cases "dev_closed d")
    case True
    then show ?thesis using that(1) w by (auto simp: WriteAt_def)
  next
    case False
    obtain f d1 where n: "next_fault d = (f, d1)" "same_file d d1" by (rule next_fault_same)
    show ?thesis
    proof (cases f)
      case Succeed
      then show ?thesis using that(2) [of 8 d1] w False n by (simp add: WriteAt_def)
    next
      case (Fail part kept)
      then show ?thesis
        using that(1) that(2) [of part d1] w False n by (cases "part = 0") (auto simp: WriteAt_def)
    qed
  qed
qed

lemma first_meta_written:
  assumes "img \<in> {zero_img, first_img}" "k \<noteq> 0"
  shows "write_into img 0 (take (512 * k) (encodeMeta first_meta)) = first_img"
proof -
  let ?w = "(0, take (512 * k) (encodeMeta first_meta))"
  have m: "meta_write {first_meta} ?w" by (auto simp: meta_write_def)
  have "0 < length (snd ?w)" using assms(2) by simp
  then have "\<exists>j < length (snd ?w). all_kept 0 (j div 512)" unfolding all_kept_def by blast
  then show ?thesis
    using born_write(2) [OF assms(1) m, of "all_kept 0"] by (simp add: all_kept_def split: if_splits)
qed

lemma born_log_write:
  assumes "live d \<in> {zero_img, first_img}" "disk d \<in> {zero_img, first_img}"
    "\<forall>w \<in> set (wlog d). meta_write {first_meta} w" "k \<noteq> 0"
  shows "born (log_write d 0 (take (512 * k) (encodeMeta first_meta)))"
  using assms first_meta_written [OF assms(1,4)]
  by (auto simp: born_def log_write_def meta_write_def)

lemma first_meta_ok: "meta_ok empty_snapshot"
  by (simp add: meta_ok_def empty_snapshot_def first_meta_def this_format_def)

lemma empty_held:
  "65536 \<le> length (live d) \<Longrightarrow> 65536 \<le> length (disk d) \<Longrightarrow> held d empty_snapshot"
  using first_meta_ok by (simp add: held_def empty_snapshot_def) (simp add: first_meta_def)

text \<open>The first meta page, written over zeros the drive holds.\<close>

lemma born_WriteMeta:
  assumes "WritePage d (encodeMeta first_meta) = (e, d')"
    and "live d = zero_img" "disk d = zero_img" "wlog d = []"
  shows "(e \<noteq> None \<and> same_file d d') \<or> born d'"
  using assms(1)
proof (cases rule: WriteMeta_cases)
  case (2 k d1)
  then show ?thesis using born_log_write [of d1 k] assms(2-4) by (simp add: same_file_def)
qed simp

lemma create_nascent:
  assumes "blank_dev d" "create d = Some (Inl (e, d'))"
  shows "nascent d'"
proof -
  have synced: "live d2 = zero_img \<and> disk d2 = zero_img \<and> wlog d2 = [] \<and> blank_dev d2"
    if g: "Grow d 0 16 = (None, d1)" and s: "SyncPages d1 = (None, d2)" for d1 d2
  proof -
    have b1: "blank_dev d1" using blank_Grow [OF g assms(1)] .
    have b2: "blank_dev d2" using blank_SyncPages [OF s b1] .
    note h = initial_ok(2) [OF g]
    have "65536 \<le> length (live d1)" "65536 \<le> length (flushed d1)" using h by (simp_all add: file_ok_def)
    then have "65536 \<le> length (live d2)" "65536 \<le> length (disk d2)"
      using SyncPages_done(1,2) [OF s] by simp_all
    then show ?thesis
      using b2 SyncPages_done(3) [OF s] zeros_full by (simp add: blank_dev_def)
  qed
  show ?thesis
  proof (cases rule: create_steps [of d])
    case (grow e1 d1)
    then show ?thesis using blank_Grow [OF grow(1) assms(1)] assms(2) by (simp add: nascent_def)
  next
    case (sync e1 d1 d2)
    then show ?thesis
      using blank_SyncPages [OF sync(2) blank_Grow [OF sync(1) assms(1)]] assms(2) by (simp add: nascent_def)
  next
    case (meta e1 d1 d2 d3)
    then show ?thesis
      using synced [OF meta(1,2)] born_WriteMeta [OF meta(3)] blank_same_file assms(2)
      by (auto simp: nascent_def)
  next
    case (commit e1 d1 d2 d3 d4)
    then have "born d3" using synced [OF commit(1,2)] born_WriteMeta [OF commit(3)] by auto
    then show ?thesis using born_SyncPages [OF commit(4)] commit(5) assms(2) by (simp add: nascent_def)
  qed (use assms(2) in simp)
qed

section \<open>Opening it\<close>

lemma born_page0: "has_page first_img 0" "page_of first_img 0 = encodeMeta first_meta"
  by (simp_all add: has_page_def page_of_def subslice_def first_img_def)

lemma first_decode: "decodeMeta (encodeMeta first_meta) = Inr first_meta"
  by (rule decode_encode) (simp add: this_format_def first_meta_def)

lemma born_settle:
  assumes "born d"
  shows "case settle first_meta [] [] d of
      Inl (e, d') \<Rightarrow> born d'
    | Inr s \<Rightarrow> store_ok s [] \<and> s = loaded first_meta [] [] (pf s)"
proof -
  obtain e1 d1 where w: "WritePage d (encodeMeta first_meta) = (e1, d1)" by fastforce
  from w have b1: "born d1"
  proof (cases rule: WriteMeta_cases)
    case 1
    then show ?thesis using born_same_file assms by blast
  next
    case (2 k d2)
    then show ?thesis using born_log_write [of d2 k] assms by (auto simp: born_def same_file_def)
  qed
  obtain e2 d2 where sy: "SyncPages d1 = (e2, d2)" by fastforce
  have b2: "born d2" by (rule born_SyncPages [OF sy b1])
  show ?thesis
  proof (cases "e1 = None \<and> e2 = None")
    case True
    then have ws: "WritePage d (encodeMeta first_meta) = (None, d1)" "SyncPages d1 = (None, d2)"
      using w sy by simp_all
    have len: "65536 \<le> length (live d2)" "65536 \<le> length (disk d2)"
      using b2 by (auto simp: born_def)
    have "held d2 (first_meta, [], [])" using empty_held [OF len] by (simp add: empty_snapshot_def)
    moreover have "4096 * unat (mFilePages first_meta) \<le> length (flushed d2)"
      using len flushed_empty_log [OF SyncPages_done(3) [OF ws(2)]] by (simp add: first_meta_def)
    ultimately show ?thesis
      using ws loaded_store_ok commit_stable [OF ws] by (simp add: settle_def)
  next
    case False
    then show ?thesis using w sy b1 b2 by (auto simp: settle_def split: option.splits)
  qed
qed

definition empty_store :: "Store \<Rightarrow> bool" where
  "empty_store s \<longleftrightarrow> store_ok s [] \<and> durable s = first_meta \<and> free s = [] \<and> pending s = []
     \<and> listPage s = [] \<and> root s = 0 \<and> nextPage s = 1 \<and> usable s = None \<and> \<not> dirty s"

lemma chain_zero: "chain f 0 L \<Longrightarrow> L = []"
  by (cases L) auto

lemma loaded_empty: "store_ok (loaded first_meta [] [] d) [] \<Longrightarrow> empty_store (loaded first_meta [] [] d)"
  by (simp add: empty_store_def usable_None) (simp add: first_meta_def)

lemma born_load:
  assumes "born d"
  shows "case load d of Inl (e, d') \<Rightarrow> born d' | Inr s \<Rightarrow> empty_store s"
proof (cases rule: load_cases [of d])
  case (rejected e d')
  then show ?thesis using born_same_file assms by auto
next
  case (accepted m E L d')
  have m: "m = first_meta"
    using accepted(4) assms born_page0 first_decode by (simp add: born_def)
  then have L: "L = []" using accepted(5) chain_zero by (simp add: first_meta_def)
  then have E: "E = []" using accepted(6) by simp
  have b: "born d'" using born_same_file [OF accepted(2) assms] .
  show ?thesis
  proof (cases "settle first_meta [] [] d'")
    case (Inl a)
    then show ?thesis using born_settle [OF b] accepted(1) m L E by (cases a) simp
  next
    case (Inr s)
    then have "store_ok s []" "s = loaded first_meta [] [] (pf s)"
      using born_settle [OF b] by simp_all
    then show ?thesis using accepted(1) m L E Inr loaded_empty by (metis sum.simps(6))
  qed
qed

lemma born_not_blank: "born d \<Longrightarrow> isBlank d = (Inr b, d') \<Longrightarrow> \<not> b"
proof
  assume a: "born d" "isBlank d = (Inr b, d')" b
  have "first_img ! 16 \<noteq> 0" using meta_not_blank by (simp add: first_img_nth)
  moreover have "first_img ! 16 \<in> set first_img" by simp
  ultimately show False using isBlank_data [OF a(2)] a(1,3) by (auto simp: born_def)
qed

lemma blank_short: "zeros (live d) \<Longrightarrow> isBlank d = (Inr b, d') \<Longrightarrow> b"
  using isBlank_data [of d b d'] by (auto simp: zeros_def in_set_conv_nth)

text \<open>Whatever calls fail, opening a file left by an interrupted \<open>create\<close> gives the empty store or
  leaves a file of the same kind.\<close>

lemma openFile_nascent:
  assumes "nascent d"
  shows "case openFile d of
      None \<Rightarrow> False
    | Some (Inl (e, d')) \<Rightarrow> nascent d'
    | Some (Inr s) \<Rightarrow> empty_store s"
proof -
  consider "blank_dev d" | "born d" | "sound d {empty_snapshot}"
    using assms by (auto simp: nascent_def)
  then show ?thesis
  proof cases
    case 1
    show ?thesis
    proof (cases rule: openFile_cases [of d])
      case (failed e d')
      then show ?thesis using nascent_same_file assms by auto
    next
      case (blank d')
      have b: "blank_dev d'" using blank_same_file [OF blank(2) 1] .
      obtain r where r: "create d' = Some r" using create_total by blast
      show ?thesis
      proof (cases r)
        case (Inl x)
        then show ?thesis using blank(1) r create_nascent [OF b] by (cases x) auto
      next
        case (Inr s)
        then show ?thesis using blank(1) r create_success [of d' s] by (simp add: empty_store_def)
      qed
    next
      case (load d' d1)
      then show ?thesis using blank_short 1 by (auto simp: blank_dev_def)
    qed
  next
    case 2
    show ?thesis
    proof (cases rule: openFile_cases [of d])
      case (failed e d')
      then show ?thesis using nascent_same_file assms by auto
    next
      case (blank d')
      then show ?thesis using born_not_blank [OF 2] by blast
    next
      case (load d' d1)
      have "born d'" using born_same_file [OF load(2) 2] .
      then show ?thesis
        using born_load load(1) by (cases "StoreOps.load d'") (auto simp: nascent_def; fastforce)+
    qed
  next
    case 3
    note o = openFile_sound [OF 3]
    have "store_ok s [] \<Longrightarrow> s = loaded first_meta [] [] (pf s) \<Longrightarrow> empty_store s" for s
      using loaded_empty by metis
    then show ?thesis
      using o by (auto simp: nascent_def empty_snapshot_def split: option.splits sum.splits)
  qed
qed

section \<open>Crashes, and opening in peace\<close>

lemma first_img_sound:
  "live d = first_img \<Longrightarrow> disk d = first_img \<Longrightarrow> \<forall>w \<in> set (wlog d). meta_write {first_meta} w \<Longrightarrow>
   sound d {empty_snapshot}"
  using empty_held [of d] born_page0
  by (simp add: sound_def meta_disk_def meta_at_def empty_snapshot_def)

lemma nascent_power_loss:
  assumes "nascent d"
  shows "nascent (power_loss kept sc d)"
proof -
  let ?d = "power_loss kept sc d"
  consider "blank_dev d" | "born d" | "sound d {empty_snapshot}"
    using assms by (auto simp: nascent_def)
  then show ?thesis
  proof cases
    case 1
    then show ?thesis
      using zeros_apply_log [of "disk d" "wlog d" kept 0]
      by (simp add: nascent_def blank_dev_def power_loss_def Let_def)
  next
    case 2
    then consider "live ?d = zero_img" | "live ?d = first_img"
      using born_apply_log [of "disk d" "wlog d" kept 0] by (auto simp: born_def power_loss_def Let_def)
    then show ?thesis
    proof cases
      case 1
      then show ?thesis
        using zeros_replicate [of 65536]
        by (simp add: nascent_def blank_dev_def power_loss_def Let_def zero_img_def)
    next
      case 2
      then show ?thesis
        using first_img_sound [of ?d] by (simp add: nascent_def power_loss_def Let_def)
    qed
  next
    case 3
    then show ?thesis using sound_power_loss [OF 3, of kept sc] by (auto simp: nascent_def)
  qed
qed

lemma nascent_restart: "nascent d \<Longrightarrow> nascent (restart sc d)"
  using nascent_same_file [of d "restart sc d"] by (simp add: same_file_def restart_def)

lemma nascent_emptyDev: "nascent (emptyDev sc)"
  by (simp add: nascent_def blank_dev_def emptyDev_def zeros_def)

lemma create_ok:
  assumes "sched d = []" "\<not> dev_closed d"
  shows "\<exists>s. create d = Some (Inr s) \<and> sched (pf s) = [] \<and> \<not> dev_closed (pf s)"
proof -
  obtain d1 where g: "Grow d 0 16 = (None, d1)" and d1: "sched d1 = []" "\<not> dev_closed d1"
    using Grow_ok [OF assms] by blast
  let ?d2 = "d1\<lparr>disk := flushed d1, wlog := []\<rparr>"
  let ?d3 = "log_write ?d2 0 (encodeMeta first_meta)"
  have s1: "SyncPages d1 = (None, ?d2)" by (rule SyncPages_ok [OF d1])
  have w: "WritePage ?d2 (encodeMeta first_meta) = (None, ?d3)"
    using WritePage_ok [of ?d2 "encodeMeta first_meta"] d1 by (simp add: Offset_def)
  have s2: "\<exists>d4. SyncPages ?d3 = (None, d4) \<and> sched d4 = [] \<and> \<not> dev_closed d4"
    using SyncPages_ok [of ?d3] d1 by (simp add: log_write_def)
  show ?thesis
    using g s1 w s2 by (cases rule: create_steps [of d]) auto
qed

lemma born_load_ok:
  assumes "born d" "sched d = []" "\<not> dev_closed d"
  shows "\<exists>s. load d = Inr s \<and> sched (pf s) = [] \<and> \<not> dev_closed (pf s)"
proof -
  let ?n = "word_of_nat (min (length (live d) div 4096) 4294967295) :: u32"
  have ok: "meta_ok (first_meta, [], [])" using first_meta_ok by (simp add: empty_snapshot_def)
  have live: "live d = first_img" using assms(1) by (simp add: born_def)
  have "mFilePages first_meta \<le> ?n" by (rule count_ok) (simp add: live, simp add: first_meta_def)
  note ch = checks_ok(1,2) [OF ok this] checks_ok(3) [OF ok this, of d]
  have "ReadPage d MetaPage = (Inr (encodeMeta first_meta), d)"
    using ReadPage_ok [OF assms(2,3), of MetaPage] born_page0 live by simp
  moreover have "readFreeList d first_meta = (Inr ([], []), d)"
    by (simp add: readFreeList_def read_lists.simps first_meta_def)
  ultimately have "load d = settle first_meta [] [] d"
    using PageCount_ok [OF assms(2,3)] first_decode ch
    by (simp add: load_def settle_def loaded_def Let_def cong: option.case_cong)
  then show ?thesis using settle_ok [OF assms(2,3), of first_meta "[]" "[]"] by auto
qed

lemma isBlank_ok:
  assumes "sched d = []" "\<not> dev_closed d"
  shows "\<exists>b. isBlank d = (Inr b, d)"
proof -
  have "SizeFile d = (Inr (length (live d)), d)"
    using assms by (simp add: SizeFile_def next_fault_def)
  moreover have "ReadAt d (length (live d)) 0 = (live d, None, d)"
    using assms by (simp add: ReadAt_def next_fault_def subslice_def)
  ultimately show ?thesis by (auto simp: isBlank_def)
qed

lemma openFile_nascent_ok:
  assumes "nascent d" "sched d = []" "\<not> dev_closed d"
  shows "\<exists>s. openFile d = Some (Inr s) \<and> empty_store s \<and> sched (pf s) = [] \<and> \<not> dev_closed (pf s)"
proof -
  have "\<exists>s. openFile d = Some (Inr s) \<and> sched (pf s) = [] \<and> \<not> dev_closed (pf s)"
  proof -
    consider "blank_dev d" | "born d" | "sound d {empty_snapshot}"
      using assms(1) by (auto simp: nascent_def)
    then show ?thesis
    proof cases
      case 1
      then have "isBlank d = (Inr True, d)"
        using isBlank_ok [OF assms(2,3)] blank_short by (auto simp: blank_dev_def)
      then show ?thesis using create_ok [OF assms(2,3)] by (simp add: openFile_def)
    next
      case 2
      obtain b where b: "isBlank d = (Inr b, d)" using isBlank_ok [OF assms(2,3)] by blast
      then have "isBlank d = (Inr False, d)" using born_not_blank [OF 2 b] by simp
      moreover have "SizeFile d = (Inr 65536, d)"
        using assms(2,3) 2 by (simp add: SizeFile_def next_fault_def born_def)
      ultimately show ?thesis using born_load_ok [OF 2 assms(2,3)] by (simp add: openFile_def)
    next
      case 3
      then show ?thesis using openFile_ok [OF 3 assms(2,3)] by blast
    qed
  qed
  then show ?thesis using openFile_nascent [OF assms(1)] by auto
qed

end
