(* ===== verification/StoreSystem.thy ===== *)
theory StoreSystem
  imports StoreBirth
begin

text \<open>
  The store as a system: operations, crashes, power losses and reopenings in any order and under any
  faults refine a transactional store of pages.  Its durable contents change at a checkpoint, and then
  at once, with one exception, which is the code's: \<open>Write\<close> writes in place, so a write to a page the
  last checkpoint uses loses that page's old contents before any checkpoint.  \<open>copy_on_write\<close> is the
  discipline that avoids it, and \<open>ct_step\<close> what the store then is.
\<close>

section \<open>Calls and answers\<close>

datatype store_op =
    OpRead PageID | OpWrite Page | OpAllocate Kind | OpFree PageID | OpSetRoot PageID
  | OpSync | OpCheckpoint | OpVerify | OpClose | OpDiscard

text \<open>What a client can tell of an answer: an error of the file, a poisoned store, or a call the store
  rejects without doing anything.\<close>

datatype reply = Done | GotPage Page | FileFailed | Poisoned | Rejected

fun reply_of :: "store_error \<Rightarrow> reply" where
  "reply_of (FileErr e) = FileFailed"
| "reply_of (ErrPoisoned e) = Poisoned"
| "reply_of e = Rejected"

definition answer :: "store_error option \<times> Store \<Rightarrow> reply \<times> Store" where
  "answer r = (case r of (None, s) \<Rightarrow> (Done, s) | (Some e, s) \<Rightarrow> (reply_of e, s))"

definition page_answer :: "(store_error + Page) \<times> Store \<Rightarrow> reply \<times> Store" where
  "page_answer r = (case r of (Inl e, s) \<Rightarrow> (reply_of e, s) | (Inr p, s) \<Rightarrow> (GotPage p, s))"

text \<open>\<open>None\<close> is a panic.\<close>

fun run_op :: "store_op \<Rightarrow> Store \<Rightarrow> (reply \<times> Store) option" where
  "run_op (OpRead i) s = Some (page_answer (StoreRead i s))"
| "run_op (OpWrite p) s = map_option answer (StoreWrite p s)"
| "run_op (OpAllocate k) s = Some (page_answer (Allocate k s))"
| "run_op (OpFree i) s = Some (answer (FreePage i s))"
| "run_op (OpSetRoot i) s = Some (answer (SetRoot i s))"
| "run_op OpSync s = Some (answer (SyncStore s))"
| "run_op OpCheckpoint s = map_option answer (Checkpoint s)"
| "run_op OpVerify s = Some (answer (Verify s))"
| "run_op OpClose s = map_option answer (CloseStore s)"
| "run_op OpDiscard s = Some (answer (Discard s))"

datatype event = Did store_op reply | Crash | PowerLoss | Evict | Opened PageID | OpenFailed

section \<open>The transactional store\<close>

text \<open>The root, the pages in use, and the contents of those whose contents are known.\<close>

record Tx =
  troot :: PageID
  tused :: "PageID set"
  tpages :: "PageID \<rightharpoonup> Page"

text \<open>An open transactional store has live contents and the contents it may be reopened with; a
  stopped one only the latter.\<close>

datatype tx_state = Open Tx "Tx set" | Stopped "Tx set"

definition empty_tx :: Tx where
  "empty_tx = \<lparr>troot = NoPage, tused = {}, tpages = Map.empty\<rparr>"

definition put_page :: "PageID \<Rightarrow> Page \<Rightarrow> Tx \<Rightarrow> Tx" where
  "put_page i p t = t\<lparr>tused := insert i (tused t), tpages := (tpages t)(i \<mapsto> p)\<rparr>"

definition forget :: "PageID \<Rightarrow> Tx \<Rightarrow> Tx" where
  "forget i t = t\<lparr>tpages := (tpages t)(i := None)\<rparr>"

definition release :: "PageID \<Rightarrow> Tx \<Rightarrow> Tx" where
  "release i t = t\<lparr>tused := tused t - {i}, tpages := (tpages t)(i := None)\<rparr>"

text \<open>When a call may be refused, and which calls may fail without an effect.\<close>

fun refused :: "store_op \<Rightarrow> Tx \<Rightarrow> bool" where
  "refused (OpRead i) t \<longleftrightarrow> i \<notin> tused t"
| "refused (OpWrite p) t \<longleftrightarrow> ID p \<notin> tused t"
| "refused (OpFree i) t \<longleftrightarrow> i \<notin> tused t \<or> i = troot t"
| "refused (OpSetRoot i) t \<longleftrightarrow> i \<noteq> NoPage \<and> i \<notin> tused t"
| "refused (OpAllocate k) t \<longleftrightarrow> True"
| "refused OpCheckpoint t \<longleftrightarrow> True"
| "refused c t \<longleftrightarrow> False"

fun may_fail :: "store_op \<Rightarrow> bool" where
  "may_fail (OpRead i) \<longleftrightarrow> True"
| "may_fail (OpAllocate k) \<longleftrightarrow> True"
| "may_fail OpCheckpoint \<longleftrightarrow> True"
| "may_fail OpVerify \<longleftrightarrow> True"
| "may_fail c \<longleftrightarrow> False"

text \<open>A write to a page that none of the durable contents use leaves them alone; a write to a page one of
  them uses loses what that page held there.\<close>

inductive tx_step :: "tx_state \<Rightarrow> event \<Rightarrow> tx_state \<Rightarrow> bool" where
  tx_read: "i \<in> tused t \<Longrightarrow> tpages t i \<in> {None, Some p} \<Longrightarrow>
     tx_step (Open t D) (Did (OpRead i) (GotPage p)) (Open t D)"
| tx_write: "is_page p \<Longrightarrow> ID p \<in> tused t \<Longrightarrow> \<forall>g \<in> D. ID p \<notin> tused g \<Longrightarrow>
     tx_step (Open t D) (Did (OpWrite p) Done) (Open (put_page (ID p) p t) D)"
| tx_write_in_place: "is_page p \<Longrightarrow> ID p \<in> tused t \<Longrightarrow> g \<in> D \<Longrightarrow> ID p \<in> tused g \<Longrightarrow>
     tx_step (Open t D) (Did (OpWrite p) Done) (Open (put_page (ID p) p t) (forget (ID p) ` D))"
| tx_write_fails: "\<forall>g \<in> D. ID p \<notin> tused g \<Longrightarrow>
     tx_step (Open t D) (Did (OpWrite p) FileFailed) (Open (forget (ID p) t) D)"
| tx_write_in_place_fails: "g \<in> D \<Longrightarrow> ID p \<in> tused g \<Longrightarrow>
     tx_step (Open t D) (Did (OpWrite p) FileFailed) (Open (forget (ID p) t) (forget (ID p) ` D))"
| tx_allocate: "i \<noteq> NoPage \<Longrightarrow> i \<notin> tused t \<Longrightarrow> \<forall>g \<in> D. i \<notin> tused g \<Longrightarrow>
     tx_step (Open t D) (Did (OpAllocate k) (GotPage (NewPage i k))) (Open (put_page i (NewPage i k) t) D)"
| tx_free: "i \<in> tused t \<Longrightarrow> i \<noteq> troot t \<Longrightarrow>
     tx_step (Open t D) (Did (OpFree i) Done) (Open (release i t) D)"
| tx_set_root: "i = NoPage \<or> i \<in> tused t \<Longrightarrow>
     tx_step (Open t D) (Did (OpSetRoot i) Done) (Open (t\<lparr>troot := i\<rparr>) D)"
| tx_nothing: "c \<in> {OpSync, OpVerify} \<Longrightarrow> tx_step (Open t D) (Did c Done) (Open t D)"
| tx_rejected: "refused c t \<Longrightarrow> tx_step (Open t D) (Did c Rejected) (Open t D)"
| tx_failed: "may_fail c \<Longrightarrow> tx_step (Open t D) (Did c FileFailed) (Open t D)"
| tx_commit: "tx_step (Open t D) (Did OpCheckpoint Done) (Open t {t})"
| tx_poisoned: "c = OpSync \<and> D' = D \<or> c = OpCheckpoint \<and> D' \<in> {D, insert t D} \<Longrightarrow>
     tx_step (Open t D) (Did c Poisoned) (Stopped D')"
| tx_close: "tx_step (Open t D) (Did OpClose Done) (Stopped {t})"
| tx_close_fails: "r \<noteq> Done \<Longrightarrow> D' \<in> {D, {t}, insert t D} \<Longrightarrow>
     tx_step (Open t D) (Did OpClose r) (Stopped D')"
| tx_discard: "tx_step (Open t D) (Did OpDiscard r) (Stopped D)"
| tx_stopped: "r \<in> {Rejected, Poisoned} \<or> c \<in> {OpClose, OpDiscard} \<Longrightarrow>
     tx_step (Stopped D) (Did c r) (Stopped D)"
| tx_crash_open: "tx_step (Open t D) Crash (Stopped D)"
| tx_crash: "tx_step (Stopped D) Crash (Stopped D)"
| tx_power_loss_open: "g \<in> D \<Longrightarrow> tx_step (Open t D) PowerLoss (Stopped {g})"
| tx_power_loss: "g \<in> D \<Longrightarrow> tx_step (Stopped D) PowerLoss (Stopped {g})"
| tx_evict: "tx_step a Evict a"
| tx_open: "g \<in> D \<Longrightarrow> tx_step (Stopped D) (Opened (troot g)) (Open g {g})"
| tx_open_fails: "D' = D \<or> (\<exists>g \<in> D. D' = {g}) \<Longrightarrow> tx_step (Stopped D) OpenFailed (Stopped D')"

section \<open>The system\<close>

datatype system = Running Store | Down Dev

text \<open>The end of the process leaves the page cache as it is; a power loss can strike at any time;
  \<open>sc\<close> is always the schedule of faults to come.\<close>

inductive sys_step :: "system \<Rightarrow> event \<Rightarrow> system \<Rightarrow> bool" where
  do_op: "run_op c s = Some (r, s') \<Longrightarrow> sys_step (Running s) (Did c r) (Running s')"
| die: "sys_step (Running s) Crash (Down (restart sc (pf s)))"
| die_again: "sys_step (Down d) Crash (Down (restart sc d))"
| power_running: "sys_step (Running s) PowerLoss (Down (power_loss kept sc (pf s)))"
| power_down: "sys_step (Down d) PowerLoss (Down (power_loss kept sc d))"
| evict_running: "sys_step (Running s) Evict (Running (s\<lparr>pf := evict gone (pf s)\<rparr>))"
| evict_down: "sys_step (Down d) Evict (Down (evict gone d))"
| reopen: "OpenStore (Inr d) synced = Some (Inr s) \<Longrightarrow> sys_step (Down d) (Opened (root s)) (Running s)"
| reopen_fails: "OpenStore (Inr d) synced = Some (Inl (e, d')) \<Longrightarrow>
     sys_step (Down d) OpenFailed (Down (restart sc d'))"
| create_opens: "CreateStore (Inr d) synced = Some (Inr s) \<Longrightarrow> sys_step (Down d) (Opened (root s)) (Running s)"
| create_fails: "CreateStore (Inr d) synced = Some (Inl (e, d')) \<Longrightarrow>
     sys_step (Down d) OpenFailed (Down (restart sc d'))"

inductive_cases tx_step_open: "tx_step (Open t D) ev a"
inductive_cases tx_step_stopped: "tx_step (Stopped D) ev a"
inductive_simps sys_step_running: "sys_step (Running s) (Did c r) x"

section \<open>Runs\<close>

text \<open>A labelled step taken along a list of events.\<close>

fun steps :: "('s \<Rightarrow> 'e \<Rightarrow> 's \<Rightarrow> bool) \<Rightarrow> 's \<Rightarrow> 'e list \<Rightarrow> 's \<Rightarrow> bool" where
  "steps R x [] y \<longleftrightarrow> x = y"
| "steps R x (e # es) y \<longleftrightarrow> (\<exists>z. R x e z \<and> steps R z es y)"

lemma steps_append: "steps R x (es @ es') y \<longleftrightarrow> (\<exists>z. steps R x es z \<and> steps R z es' y)"
  by (induction es arbitrary: x) auto

section \<open>Copy on write\<close>

fun durables :: "tx_state \<Rightarrow> Tx set" where
  "durables (Open t D) = D"
| "durables (Stopped D) = D"

text \<open>A step that changes the durable contents only by a checkpoint, \<open>Close\<close> included, and then only to the
  live ones.\<close>

definition ct_step :: "tx_state \<Rightarrow> event \<Rightarrow> tx_state \<Rightarrow> bool" where
  "ct_step a ev b \<longleftrightarrow> tx_step a ev b
     \<and> (durables b \<subseteq> durables a
        \<or> (\<exists>t D c r. a = Open t D \<and> ev = Did c r \<and> c \<in> {OpCheckpoint, OpClose} \<and> durables b \<subseteq> insert t D))"

text \<open>The pages a client was given since the last checkpoint, and the runs in which it writes to no others.\<close>

fun given :: "event \<Rightarrow> PageID set \<Rightarrow> PageID set" where
  "given (Did (OpAllocate k) (GotPage p)) N = insert (ID p) N"
| "given (Did OpCheckpoint Done) N = {}"
| "given (Opened i) N = {}"
| "given ev N = N"

fun wrote :: "event \<Rightarrow> PageID option" where
  "wrote (Did (OpWrite p) r) = (if r \<in> {Done, FileFailed} then Some (ID p) else None)"
| "wrote ev = None"

fun writes_to :: "PageID set \<Rightarrow> event list \<Rightarrow> bool" where
  "writes_to N [] \<longleftrightarrow> True"
| "writes_to N (ev # evs) \<longleftrightarrow> set_option (wrote ev) \<subseteq> N \<and> writes_to (given ev N) evs"

definition copy_on_write :: "event list \<Rightarrow> bool" where
  "copy_on_write evs \<longleftrightarrow> writes_to {} evs"

definition spares :: "PageID set \<Rightarrow> tx_state \<Rightarrow> bool" where
  "spares N a \<longleftrightarrow> (case a of Open t D \<Rightarrow> \<forall>g \<in> D. \<forall>i \<in> N. i \<notin> tused g | Stopped D \<Rightarrow> True)"

lemma given_reply [simp]:
  "given (Did c Rejected) N = N" "given (Did c FileFailed) N = N" "given (Did c Poisoned) N = N"
  "wrote (Did c Rejected) = None"
  by (cases c; simp)+

lemma spares_step:
  assumes "tx_step a ev b" "spares N a" "set_option (wrote ev) \<subseteq> N"
  shows "ct_step a ev b \<and> spares (given ev N) b"
proof -
  have "durables b \<subseteq> durables a
      \<or> (\<exists>t D c r. a = Open t D \<and> ev = Did c r \<and> c \<in> {OpCheckpoint, OpClose} \<and> durables b \<subseteq> insert t D)"
    using assms by cases (auto simp: spares_def)
  moreover have "spares (given ev N) b"
    using assms by cases (auto simp: spares_def page_simps)
  ultimately show ?thesis using assms(1) by (simp add: ct_step_def)
qed

lemma copy_on_write_steps:
  "steps tx_step a evs b \<Longrightarrow> writes_to N evs \<Longrightarrow> spares N a \<Longrightarrow> steps ct_step a evs b"
  by (induction evs arbitrary: a N) (use spares_step in \<open>auto, blast\<close>)

text \<open>When no write fails either, all contents are known.\<close>

definition whole :: "Tx \<Rightarrow> bool" where
  "whole t \<longleftrightarrow> dom (tpages t) = tused t"

lemma whole_put:
  "whole t \<Longrightarrow> whole (put_page i p t)" "whole t \<Longrightarrow> whole (release i t)" "whole (t\<lparr>troot := i\<rparr>) = whole t"
  by (simp_all add: whole_def put_page_def release_def)

fun all_whole :: "tx_state \<Rightarrow> bool" where
  "all_whole (Open t D) \<longleftrightarrow> whole t \<and> (\<forall>g \<in> D. whole g)"
| "all_whole (Stopped D) \<longleftrightarrow> (\<forall>g \<in> D. whole g)"

lemma whole_step:
  assumes "ct_step a ev b" "all_whole a" "\<forall>p. ev \<noteq> Did (OpWrite p) FileFailed"
  shows "all_whole b"
proof -
  have s: "tx_step a ev b" and D: "\<forall>g \<in> durables b. whole g"
    using assms(1,2) by (cases a; fastforce simp: ct_step_def)+
  have "whole t" if "b = Open t D" for t D
    using s assms(2,3) that by cases (auto simp: whole_put)
  then show ?thesis using D by (cases b) auto
qed

lemma whole_steps:
  "steps ct_step a evs b \<Longrightarrow> all_whole a \<Longrightarrow> \<forall>p. Did (OpWrite p) FileFailed \<notin> set evs \<Longrightarrow> all_whole b"
  by (induction evs arbitrary: a) (use whole_step in \<open>auto, blast\<close>)

section \<open>Evictions are harmless\<close>

lemma store_ok_evict:
  assumes "store_ok s E"
  shows "store_ok (s\<lparr>pf := evict gone (pf s)\<rparr>) E"
proof (rule store_ok_pf [OF assms evict_progress])
  show "unat ` insert 0 (set (listPage s)) \<subseteq> {i. agree (pf s) i}"
    using assms stable_agree by (auto simp: store_ok_def disk_ok_def held_iff)
qed

lemma held_evict: "held d c \<Longrightarrow> held (evict gone d) c"
proof (cases c)
  case (fields m E L)
  assume h: "held d c"
  have "held (evict gone d) (m, E, L)"
  proof (rule held_keep)
    show "held d (m, E, L)" using h fields by simp
    fix l :: PageID assume "stable d (unat l)"
    then show "stable (evict gone d) (unat l) \<and> live_page (evict gone d) l = live_page d l"
      by (rule evict_stable)
  qed simp_all
  then show ?thesis using fields by simp
qed

lemma sound_evict:
  assumes "sound d C"
  shows "sound (evict gone d) C"
proof -
  have m: "meta_at (fst ` C) (live d)" "meta_at (fst ` C) (disk d)"
    using assms by (simp_all add: sound_def meta_disk_def)
  then have "meta_at (fst ` C) (live (evict gone d))"
    using evict_page [of d 0 gone] by (auto simp: meta_at_def)
  then show ?thesis
    using assms held_evict by (simp add: sound_def meta_disk_def)
qed

lemma evict_zeros: "zeros (live d) \<Longrightarrow> zeros (disk d) \<Longrightarrow> zeros (live (evict gone d))"
proof -
  assume z: "zeros (live d)" "zeros (disk d)"
  have "live (evict gone d) ! j = 0" if "j < length (live d)" for j
    using z that by (simp add: evict_nth zeros_def byte_at_def)
  then show ?thesis using z by (simp add: zeros_def)
qed

lemma evict_born:
  assumes "born d"
  shows "born (evict gone d) \<or> blank_dev (evict gone d)"
proof -
  have l: "length (live d) = 65536" "length (disk d) = 65536"
    using assms by (auto simp: born_def)
  have eq: "live (evict gone d) ! j = (if gone (j div 4096) \<and> clean d (j div 4096) then disk d ! j else first_img ! j)"
    if "j < 65536" for j
    using that l assms by (simp add: evict_nth born_def byte_at_def)
  have rest: "disk d ! j = 0" if "4096 \<le> j" "j < 65536" for j
    using that assms by (auto simp: born_def first_img_nth)
  show ?thesis
  proof (cases "gone 0 \<and> clean d 0")
    case True
    have "live (evict gone d) = disk d"
    proof (rule nth_equalityI)
      fix j assume "j < length (live (evict gone d))"
      then have j: "j < 65536" using l by simp
      show "live (evict gone d) ! j = disk d ! j"
        using eq [OF j] rest [of j] True j by (cases "j < 4096") (auto simp: first_img_nth)
    qed (use l in simp)
    moreover have "zeros (snd w) \<and> fst w + length (snd w) \<le> 65536" if "w \<in> set (wlog d)" for w
    proof -
      have "meta_write {first_meta} w" "avoids w 0"
        using assms True that by (auto simp: born_def clean_def)
      then have "w = (0, [])" by (auto simp: meta_write_def avoids_def)
      then show ?thesis by (simp add: zeros_def)
    qed
    moreover have "zeros zero_img" using zeros_replicate [of 65536] by (simp add: zero_img_def)
    ultimately show ?thesis using assms by (auto simp: born_def blank_dev_def)
  next
    case False
    have "live (evict gone d) = first_img"
    proof (rule nth_equalityI)
      fix j assume "j < length (live (evict gone d))"
      then have j: "j < 65536" using l by simp
      show "live (evict gone d) ! j = first_img ! j"
        using eq [OF j] rest [of j] False j by (cases "j < 4096") (auto simp: first_img_nth)
    qed (use l in simp)
    then show ?thesis using assms by (simp add: born_def)
  qed
qed

lemma nascent_evict:
  assumes "nascent d"
  shows "nascent (evict gone d)"
proof -
  have "blank_dev (evict gone d)" if "blank_dev d"
    using that evict_zeros [of d gone] by (simp add: blank_dev_def)
  then show ?thesis
    using assms evict_born sound_evict by (auto simp: nascent_def)
qed

end
