(* ===== verification/StoreRefine.thy ===== *)
theory StoreRefine
  imports StoreSystem
begin

text \<open>
  The simulation: each step of the system is matched by steps of the transactional store.
\<close>

section \<open>What the transactional store knows of the file\<close>

text \<open>Contents that are on the drive to stay, and contents the next fsync will put there.\<close>

definition keeps :: "Dev \<Rightarrow> Tx \<Rightarrow> bool" where
  "keeps d g \<longleftrightarrow> (\<forall>i b. tpages g i = Some b \<longrightarrow> stable d (unat i) \<and> live_page d i = b)"

definition knows :: "Dev \<Rightarrow> (PageID \<rightharpoonup> Page) \<Rightarrow> bool" where
  "knows d m \<longleftrightarrow> (\<forall>i b. m i = Some b \<longrightarrow> agree d (unat i) \<and> live_page d i = b)"

text \<open>The pages in use at a checkpoint are those it does not list.\<close>

definition matches :: "snapshot \<Rightarrow> Tx \<Rightarrow> bool" where
  "matches c g = (case c of (m, E, L) \<Rightarrow>
     troot g = mRoot m \<and> tused g = {i. i \<noteq> 0 \<and> i < mNextPage m \<and> i \<notin> set E \<and> i \<notin> set L}
     \<and> dom (tpages g) \<subseteq> tused g)"

definition open_with :: "Store \<Rightarrow> Tx \<Rightarrow> Tx \<Rightarrow> PageID list \<Rightarrow> bool" where
  "open_with s t g E \<longleftrightarrow>
     usable s = None \<and> store_ok s E \<and> troot t = root s \<and> tused t = {i. owned i s = None}
     \<and> dom (tpages t) \<subseteq> tused t \<and> knows (pf s) (tpages t) \<and> (\<not> dirty s \<longrightarrow> t = g)
     \<and> matches (durable s, E, listPage s) g \<and> keeps (pf s) g"

definition sim_open :: "Store \<Rightarrow> Tx \<Rightarrow> Tx set \<Rightarrow> bool" where
  "sim_open s t D \<longleftrightarrow> (\<exists>E g. D = {g} \<and> open_with s t g E)"

definition sim_stopped :: "Dev \<Rightarrow> Tx set \<Rightarrow> bool" where
  "sim_stopped d D \<longleftrightarrow>
     (nascent d \<and> D = {empty_tx})
     \<or> (\<exists>K. sound d (fst ` K) \<and> D = snd ` K \<and> (\<forall>(c, g) \<in> K. matches c g \<and> keeps d g))"

fun sim :: "system \<Rightarrow> tx_state \<Rightarrow> bool" where
  "sim (Running s) (Open t D) \<longleftrightarrow> sim_open s t D"
| "sim (Running s) (Stopped D) \<longleftrightarrow> usable s \<noteq> None \<and> sim_stopped (pf s) D"
| "sim (Down d) (Open t D) \<longleftrightarrow> False"
| "sim (Down d) (Stopped D) \<longleftrightarrow> sim_stopped d D"

lemma matches_dom: "matches c g \<Longrightarrow> dom (tpages g) \<subseteq> tused g"
  unfolding matches_def by (cases c) blast

lemma forget_unused: "dom (tpages g) \<subseteq> tused g \<Longrightarrow> i \<notin> tused g \<Longrightarrow> forget i g = g"
proof -
  assume "dom (tpages g) \<subseteq> tused g" "i \<notin> tused g"
  then have "tpages g i = None" by blast
  then show ?thesis by (simp add: forget_def fun_upd_idem)
qed

lemma matches_less:
  "matches c g \<Longrightarrow> troot g' = troot g \<Longrightarrow> tused g' = tused g \<Longrightarrow> dom (tpages g') \<subseteq> dom (tpages g) \<Longrightarrow>
   matches c g'"
  unfolding matches_def by (cases c) (metis (mono_tags, lifting) prod.case subset_trans)

lemma keeps_frame: "keeps d g \<Longrightarrow> frame P d d' \<Longrightarrow> unat ` dom (tpages g) \<subseteq> P \<Longrightarrow> keeps d' g"
  unfolding keeps_def
proof (intro allI impI)
  fix i b
  assume a: "\<forall>i b. tpages g i = Some b \<longrightarrow> stable d (unat i) \<and> live_page d i = b"
    "frame P d d'" "unat ` dom (tpages g) \<subseteq> P" "tpages g i = Some b"
  then have "unat i \<in> P" "stable d (unat i)" "live_page d i = b" by blast+
  then show "stable d' (unat i) \<and> live_page d' i = b"
    using frame_stable [OF a(2)] frame_live [OF a(2), of "unat i"] by (auto simp: stable_def)
qed

lemma knows_progress: "knows d m \<Longrightarrow> progress P d d' \<Longrightarrow> unat ` dom m \<subseteq> P \<Longrightarrow> knows d' m"
  unfolding knows_def
proof (intro allI impI)
  fix i b
  assume a: "\<forall>i b. m i = Some b \<longrightarrow> agree d (unat i) \<and> live_page d i = b"
    "progress P d d'" "unat ` dom m \<subseteq> P" "m i = Some b"
  then have "unat i \<in> P" "agree d (unat i)" "live_page d i = b" by blast+
  then show "agree d' (unat i) \<and> live_page d' i = b"
    using progress_agree [OF a(2)] frame_live [OF progress_frame [OF a(2)], of "unat i"]
    by (auto simp: agree_def)
qed

lemma keeps_power_loss: "keeps d g \<Longrightarrow> keeps (power_loss kept sc d) g"
  using stable_power_loss stable_survives by (simp add: keeps_def)

lemma keeps_restart [simp]: "keeps (restart sc d) g = keeps d g"
  by (simp add: keeps_def, simp add: restart_def)

lemma keeps_same_file: "same_file d d' \<Longrightarrow> keeps d g \<Longrightarrow> keeps d' g"
  by (simp add: keeps_def same_file_def stable_def clean_def)

lemma keeps_evict: "keeps d g \<Longrightarrow> keeps (evict gone d) g"
  using evict_stable by (simp add: keeps_def)

lemma knows_evict: "knows d m \<Longrightarrow> knows (evict gone d) m"
  using evict_agree_page evict_progress [of d gone] by (simp add: knows_def progress_def)

lemma matches_busy:
  "store_ok s E \<Longrightarrow> matches (durable s, E, listPage s) g \<Longrightarrow> unat ` tused g \<subseteq> busy s - {0}"
proof -
  assume a: "store_ok s E" "matches (durable s, E, listPage s) g"
  have "i < nextPage s \<and> i \<notin> set (free s) \<and> unat i \<noteq> 0" if "i \<in> tused g" for i
    using a that by (auto simp: matches_def store_ok_def disk_ok_def unat_eq_0 intro: less_le_trans)
  then have "\<forall>i \<in> tused g. unat i \<in> busy s - {0}" unfolding busy_def by blast
  then show ?thesis by (simp only: image_subset_iff)
qed

lemma owned_busy: "store_ok s E \<Longrightarrow> {i. owned i s = None} \<subseteq> {i. unat i \<in> busy s - {0}}"
  using owned_lists by (auto simp: busy_def owned_None store_ok_def unat_eq_0)

section \<open>Stopping\<close>

lemma sim_stopped_same_file: "same_file d d' \<Longrightarrow> sim_stopped d D \<Longrightarrow> sim_stopped d' D"
proof -
  assume f: "same_file d d'" and s: "sim_stopped d D"
  show ?thesis
  proof (cases "nascent d \<and> D = {empty_tx}")
    case True
    then show ?thesis using nascent_same_file [OF f] by (simp add: sim_stopped_def)
  next
    case False
    then obtain K where K: "sound d (fst ` K)" "D = snd ` K" "\<forall>(c, g) \<in> K. matches c g \<and> keeps d g"
      using s unfolding sim_stopped_def by blast
    have "sound d' (fst ` K)" using K(1) sound_same_file [OF f] by simp
    moreover have "\<forall>(c, g) \<in> K. matches c g \<and> keeps d' g"
      using K(3) keeps_same_file [OF f] by auto
    ultimately show ?thesis using K(2) unfolding sim_stopped_def by blast
  qed
qed

lemma sim_stopped_restart: "sim_stopped d D \<Longrightarrow> sim_stopped (restart sc d) D"
  by (rule sim_stopped_same_file) (simp_all add: same_file_def restart_def)

lemma sim_stopped_evict: "sim_stopped d D \<Longrightarrow> sim_stopped (evict gone d) D"
proof -
  assume s: "sim_stopped d D"
  show ?thesis
  proof (cases "nascent d \<and> D = {empty_tx}")
    case True
    then show ?thesis using nascent_evict by (simp add: sim_stopped_def)
  next
    case False
    then obtain K where K: "sound d (fst ` K)" "D = snd ` K" "\<forall>(c, g) \<in> K. matches c g \<and> keeps d g"
      using s unfolding sim_stopped_def by blast
    have "sound (evict gone d) (fst ` K)" using K(1) sound_evict by blast
    moreover have "\<forall>(c, g) \<in> K. matches c g \<and> keeps (evict gone d) g"
      using K(3) keeps_evict by auto
    ultimately show ?thesis using K(2) unfolding sim_stopped_def by blast
  qed
qed

lemma sim_stopped_power_loss:
  assumes "sim_stopped d D"
  shows "\<exists>t \<in> D. sim_stopped (power_loss kept sc d) {t}"
proof (cases "nascent d \<and> D = {empty_tx}")
  case True
  then show ?thesis using nascent_power_loss by (simp add: sim_stopped_def)
next
  case False
  then obtain K where K: "sound d (fst ` K)" "D = snd ` K" "\<forall>(c, g) \<in> K. matches c g \<and> keeps d g"
    using assms unfolding sim_stopped_def by blast
  obtain c where c: "c \<in> fst ` K" "sound (power_loss kept sc d) {c}"
    using sound_power_loss [OF K(1)] by blast
  then obtain g where g: "(c, g) \<in> K" by force
  have "sim_stopped (power_loss kept sc d) {g}"
    unfolding sim_stopped_def
    by (rule disjI2, rule exI [of _ "{(c, g)}"]) (use c g K(3) keeps_power_loss in auto)
  then show ?thesis using g K(2) by force
qed

lemma sim_open_stopped: "sim_open s t D \<Longrightarrow> sim_stopped (pf s) D"
proof -
  assume "sim_open s t D"
  then obtain E g where "store_ok s E" "D = {g}" "matches (durable s, E, listPage s) g" "keeps (pf s) g"
    unfolding sim_open_def open_with_def by blast
  then show ?thesis
    using disk_ok_sound [of s E] unfolding sim_stopped_def store_ok_def
    by (intro disjI2 exI [of _ "{((durable s, E, listPage s), g)}"]) simp
qed

section \<open>The page operations\<close>

lemma open_withD:
  assumes "open_with s t g E"
  shows "store_ok s E" "mem_ok s" "unat ` dom (tpages g) \<subseteq> busy s - {0}" "unat ` dom (tpages t) \<subseteq> busy s - {0}"
    "knows (pf s) (tpages t)" "keeps (pf s) g" "troot t = root s" "usable s = None"
    "tused t = {i. owned i s = None}" "matches (durable s, E, listPage s) g" "dom (tpages t) \<subseteq> tused t"
    "\<not> dirty s \<Longrightarrow> t = g" "unat ` tused t \<subseteq> busy s - {0}" "unat ` tused g \<subseteq> busy s - {0}"
proof -
  show o: "store_ok s E" "usable s = None" "troot t = root s" "tused t = {i. owned i s = None}"
    "knows (pf s) (tpages t)" "matches (durable s, E, listPage s) g" "keeps (pf s) g"
    "dom (tpages t) \<subseteq> tused t" "\<not> dirty s \<Longrightarrow> t = g"
    using assms unfolding open_with_def by blast+
  show "mem_ok s" using o(1) by (simp add: store_ok_def)
  show g: "unat ` tused g \<subseteq> busy s - {0}" by (rule matches_busy [OF o(1,6)])
  show u: "unat ` tused t \<subseteq> busy s - {0}"
    unfolding image_subset_iff using o(4) owned_busy [OF o(1)] by blast
  show "unat ` dom (tpages t) \<subseteq> busy s - {0}" using u o(8) by blast
  show "unat ` dom (tpages g) \<subseteq> busy s - {0}" using g matches_dom [OF o(6)] by blast
qed

lemma open_step:
  assumes o: "open_with s t g E" and "store_ok s' E" "usable s' = None"
    and "durable s' = durable s" "listPage s' = listPage s" "root s' = troot t'"
    and pr: "progress P (pf s) (pf s')" and "unat ` dom (tpages g') \<subseteq> P"
    and "knows (pf s') (tpages t')" "tused t' = {i. owned i s' = None}" "dom (tpages t') \<subseteq> tused t'"
    and g': "troot g' = troot g" "tused g' = tused g" "tpages g' \<subseteq>\<^sub>m tpages g"
    and "\<not> dirty s' \<Longrightarrow> t' = g'"
  shows "open_with s' t' g' E"
proof -
  have k: "keeps (pf s) g'"
    using open_withD(6) [OF o] g'(3) unfolding keeps_def map_le_def dom_def by fastforce
  have "keeps (pf s') g'" by (rule keeps_frame [OF k progress_frame [OF pr] assms(8)])
  moreover have "dom (tpages g') \<subseteq> dom (tpages g)" using g'(3) by (rule map_le_implies_dom_le)
  ultimately have "matches (durable s, E, listPage s) g'" "keeps (pf s') g'"
    using matches_less [OF open_withD(10) [OF o] g'(1,2)] by blast+
  then show ?thesis using assms unfolding open_with_def by auto
qed

lemma open_same:
  assumes o: "open_with s t g E" and s': "s' = s\<lparr>pf := pf s'\<rparr>" "store_ok s' E"
    and pr: "progress P (pf s) (pf s')" "busy s - {0} \<subseteq> P"
  shows "open_with s' t g E"
proof -
  note D = open_withD [OF o]
  have f: "durable s' = durable s" "listPage s' = listPage s" "root s' = root s" "usable s' = usable s"
    "dirty s' = dirty s" "owned i s' = owned i s" for i
    by (subst s'(1), simp add: usable_def owned_def inRange_def)+
  have "knows (pf s') (tpages t)"
    using knows_progress [OF D(5) pr(1)] D(4) pr(2) by blast
  then show ?thesis
    using o f D pr by (intro open_step [OF o s'(2) _ f(1,2) _ pr(1)]) auto
qed

lemma owned_reply: "owned i s = Some e \<Longrightarrow> reply_of e = Rejected"
  by (auto simp: owned_def inRange_def split: option.splits if_splits)

lemma sim_read:
  assumes "open_with s t g E" "StoreRead i s = (r, s')"
  shows "open_with s' t g E"
proof -
  note r = StoreRead_ok [OF open_withD(1) [OF assms(1)] assms(2)]
  show ?thesis
    using open_same [OF assms(1), of s' UNIV] r same_file_progress [of "pf s" "pf s'" UNIV] by auto
qed

lemma sim_read_answer:
  assumes "open_with s t g E" "StoreRead i s = (r, s')"
  shows "case r of
      Inl e \<Rightarrow> reply_of e = FileFailed \<or> reply_of e = Rejected \<and> refused (OpRead i) t
    | Inr p \<Rightarrow> i \<in> tused t \<and> tpages t i \<in> {None, Some p}"
proof (cases "owned i s")
  case (Some x)
  then show ?thesis
    using assms(2) open_withD(8,9) [OF assms(1)] owned_reply [OF Some] by (auto simp: StoreRead_def)
next
  case None
  have "b = p" if "tpages t i = Some b" "r = Inr p" for b p
    using assms(2) that None open_withD(5,8) [OF assms(1)] ReadPage_data [of "pf s" i p]
    by (auto simp: StoreRead_def knows_def split: prod.splits sum.splits)
  then have "tpages t i \<in> {None, Some p}" if "r = Inr p" for p
    using that by (cases "tpages t i") auto
  moreover have "reply_of e = FileFailed" if "r = Inl e" for e
    using assms(2) that None open_withD(8) [OF assms(1)]
    by (auto simp: StoreRead_def split: prod.splits sum.splits)
  ultimately show ?thesis using None open_withD(9) [OF assms(1)] by (auto split: sum.split)
qed

lemma sim_verify:
  assumes "open_with s t g E" "Verify s = (r, s')"
  shows "open_with s' t g E"
proof -
  note r = Verify_same [OF assms(2)]
  then have "store_ok s' E"
    using same_file_store [OF open_withD(1) [OF assms(1)], of "pf s'"] by simp
  then show ?thesis
    using open_same [OF assms(1), of s' UNIV] r same_file_progress [of "pf s" "pf s'" UNIV] by auto
qed

lemma sim_set_root:
  assumes "open_with s t g E" "SetRoot i s = (r, s')"
  shows "r = None \<Longrightarrow> open_with s' (t\<lparr>troot := i\<rparr>) g E \<and> (i = NoPage \<or> i \<in> tused t)"
    "r = Some e \<Longrightarrow> s' = s \<and> reply_of e = Rejected \<and> refused (OpSetRoot i) t"
proof -
  note r = SetRoot_ok [OF open_withD(1) [OF assms(1)] assms(2)]
  note D = open_withD [OF assms(1)]
  show "open_with s' (t\<lparr>troot := i\<rparr>) g E \<and> (i = NoPage \<or> i \<in> tused t)" if "r = None"
  proof -
    have s': "s' = s\<lparr>root := i, dirty := True\<rparr>" "i = 0 \<or> owned i s = None"
      using assms(2) that by (auto simp: SetRoot_def split: option.splits if_splits)
    then show ?thesis
      using assms(1) r that D(9) unfolding open_with_def
      by (auto simp: usable_None owned_None)
  qed
  show "s' = s \<and> reply_of e = Rejected \<and> refused (OpSetRoot i) t" if "r = Some e"
    using assms(2) that D(8,9) owned_reply [of i s]
    by (auto simp: SetRoot_def split: option.splits if_splits)
qed

lemma sim_free:
  assumes "open_with s t g E" "FreePage i s = (r, s')"
  shows "r = None \<Longrightarrow> open_with s' (release i t) g E \<and> i \<in> tused t \<and> i \<noteq> troot t"
    "r = Some e \<Longrightarrow> s' = s \<and> reply_of e = Rejected \<and> refused (OpFree i) t"
proof -
  note r = FreePage_ok [OF open_withD(1) [OF assms(1)] assms(2)]
  note D = open_withD [OF assms(1)]
  show "open_with s' (release i t) g E \<and> i \<in> tused t \<and> i \<noteq> troot t" if "r = None"
  proof -
    have "\<exists>st. s' = s\<lparr>pending := pending s @ [i], status := (status s)(i \<mapsto> stPending), dirty := True, stats := st\<rparr>"
      using assms(2) that by (auto simp: FreePage_def split: option.splits if_splits)
    then have "open_with s' (release i t) g E"
      using assms(1) r that unfolding open_with_def release_def knows_def
      by (auto simp: usable_None owned_None split: if_splits)
    then show ?thesis using r that D(7,9) by simp
  qed
  show "s' = s \<and> reply_of e = Rejected \<and> refused (OpFree i) t" if "r = Some e"
    using assms(2) that D(7,8,9) owned_reply [of i s]
    by (auto simp: FreePage_def owned_None inRange_def split: option.splits if_splits)
qed

lemma pick_page_owned:
  assumes "mem_ok s" "pick_page s = (Inr i, s1)"
  shows "owned j s1 = None \<longleftrightarrow> j = i \<or> owned j s = None"
proof -
  have new: "owned j (s\<lparr>nextPage := i + 1\<rparr>) = None \<longleftrightarrow> j = i \<or> owned j s = None"
    if "i = nextPage s" "\<not> MaxPages \<le> i"
  proof -
    have "status s (nextPage s) = None" "nextPage s \<noteq> 0"
      using assms(1) mem_ok_status [OF assms(1), of "nextPage s"]
      by (auto simp: state_of_def mem_ok_def dest: less_imp_neq)
    moreover have "j < i + 1 \<longleftrightarrow> j < i \<or> j = i"
      using MaxPages_less [OF that(2)] by (auto simp: page_le_iff less_Suc_eq simp flip: unat_u32_eq)
    ultimately show ?thesis using that by (auto simp: owned_None)
  qed
  show ?thesis
    using assms(2)
  proof (cases rule: pick_page_cases)
    case (reused xs)
    then show ?thesis using pick_reused_mem(2-4) [OF assms(1) reused(1)] by (auto simp: owned_None)
  next
    case new
    then show ?thesis using \<open>i = nextPage s \<Longrightarrow> \<not> MaxPages \<le> i \<Longrightarrow> _\<close> by simp
  next
    case (grown d)
    then show ?thesis using new by (simp add: owned_None)
  qed
qed

lemma Allocate_owned:
  assumes "mem_ok s" "Allocate k s = (Inr p, s')"
  shows "owned j s' = None \<longleftrightarrow> j = ID p \<or> owned j s = None"
proof -
  obtain i s1 where pk: "pick_page s = (Inr i, s1)" and p: "p = NewPage i k"
    and s': "nextPage s' = nextPage s1" "status s' = status s1"
    using assms(2) by (auto simp: Allocate_def Let_def split: prod.splits sum.splits option.splits)
  have "ID p = i" by (simp add: p page_simps)
  then show ?thesis using pick_page_owned [OF assms(1) pk, of j] s' by (simp add: owned_None)
qed

lemma sim_allocate:
  assumes "open_with s t g E" "Allocate k s = (r, s')"
  shows "case r of
      Inl e \<Rightarrow> open_with s' t g E \<and> reply_of e \<in> {Rejected, FileFailed}
    | Inr p \<Rightarrow> ID p \<noteq> NoPage \<and> ID p \<notin> tused t \<and> ID p \<notin> tused g \<and> p = NewPage (ID p) k
        \<and> open_with s' (put_page (ID p) (NewPage (ID p) k) t) g E"
proof (cases r)
  case (Inl e)
  note a = Allocate_err [OF open_withD(1) [OF assms(1)] assms(2) [unfolded Inl]]
  have "reply_of e \<in> {Rejected, FileFailed}"
    using assms(2) Inl open_withD(8) [OF assms(1)]
    by (auto simp: Allocate_def pick_page_def Let_def split: if_splits prod.splits option.splits sum.splits)
  then show ?thesis using open_same [OF assms(1), of s' "busy s"] a Inl by simp
next
  case (Inr p)
  note D = open_withD [OF assms(1)]
  note a = Allocate_ok [OF D(1) assms(2) [unfolded Inr]]
  let ?t = "put_page (ID p) (NewPage (ID p) k) t"
  have fresh: "ID p \<notin> tused t" "ID p \<notin> tused g" using a(5) D(13,14) by blast+
  have nz: "ID p \<noteq> 0" using a(6) by (simp add: owned_None)
  have "unat ` dom (tpages t) \<subseteq> busy s" using D(4) by blast
  then have "knows (pf s') (tpages t)" by (rule knows_progress [OF D(5) a(2)])
  then have k: "knows (pf s') (tpages ?t)"
    using a(7-9) by (auto simp: knows_def put_page_def)
  have used: "tused ?t = {i. owned i s' = None}"
    using D(9) Allocate_owned [OF D(2) assms(2) [unfolded Inr]] by (auto simp: put_page_def)
  have "open_with s' ?t g E"
  proof (rule open_step [OF assms(1) a(1) a(11) a(4) a(14) _ a(2) _ k used])
    show "root s' = troot ?t" using a(12) D(7) by (simp add: put_page_def)
    show "unat ` dom (tpages g) \<subseteq> busy s" using D(3) by blast
    show "dom (tpages ?t) \<subseteq> tused ?t" using D(11) by (auto simp: put_page_def)
  qed (use a(10) in simp_all)
  then show ?thesis using Inr fresh nz a(7) by simp
qed

lemma sim_write:
  assumes "open_with s t g E" "StoreWrite p s = Some (r, s')"
  shows "r = None \<Longrightarrow> open_with s' (put_page (ID p) p t) (forget (ID p) g) E \<and> is_page p \<and> ID p \<in> tused t"
    "r = Some e \<Longrightarrow> s' = s \<and> reply_of e = Rejected \<and> refused (OpWrite p) t
       \<or> open_with s' (forget (ID p) t) (forget (ID p) g) E \<and> reply_of e = FileFailed"
proof -
  note D = open_withD [OF assms(1)]
  note w = StoreWrite_ok [OF D(1) assms(2)]
  have pr: "progress (- {unat (ID p)}) (pf s) (pf s')" using w by blast
  have kn: "knows (pf s') (tpages (forget (ID p) t))"
  proof (rule knows_progress [OF _ pr])
    show "knows (pf s) (tpages (forget (ID p) t))" using D(5) by (simp add: knows_def forget_def)
    show "unat ` dom (tpages (forget (ID p) t)) \<subseteq> - {unat (ID p)}" by (auto simp: forget_def split: if_splits)
  qed
  have upd: "usable (s\<lparr>pf := d, dirty := b\<rparr>) = usable s" "owned i (s\<lparr>pf := d, dirty := b\<rparr>) = owned i s"
    "usable (s\<lparr>pf := d\<rparr>) = usable s" "owned i (s\<lparr>pf := d\<rparr>) = owned i s" for d b i
    by (simp_all add: usable_def owned_def inRange_def)
  have fields: "usable s' = usable s" "listPage s' = listPage s" "root s' = root s" "owned i s' = owned i s" for i
  proof -
    have "s' = s\<lparr>pf := pf s', dirty := True\<rparr> \<or> s' = s\<lparr>pf := pf s'\<rparr>" using w by blast
    then obtain d b where "s' = s\<lparr>pf := d, dirty := b\<rparr> \<or> s' = s\<lparr>pf := d\<rparr>" by blast
    then show "usable s' = usable s" "listPage s' = listPage s" "root s' = root s" "owned i s' = owned i s"
      using upd by auto
  qed
  have step: "open_with s' t' (forget (ID p) g) E"
    if "t' \<in> {put_page (ID p) p t, forget (ID p) t}" "knows (pf s') (tpages t')" "dom (tpages t') \<subseteq> tused t'"
      "tused t' = tused t" "\<not> dirty s' \<Longrightarrow> t' = forget (ID p) g" for t'
  proof (rule open_step [OF assms(1) _ _ _ fields(2) _ pr])
    show "store_ok s' E" "durable s' = durable s" using w by blast+
    show "usable s' = None" "root s' = troot t'" using fields D(7,8) that(1) by (auto simp: forget_def put_page_def)
    show "unat ` dom (tpages (forget (ID p) g)) \<subseteq> - {unat (ID p)}" by (auto simp: forget_def split: if_splits)
    show "tused t' = {i. owned i s' = None}" using that(4) D(9) fields(4) by simp
    show "troot (forget (ID p) g) = troot g" "tused (forget (ID p) g) = tused g"
      "tpages (forget (ID p) g) \<subseteq>\<^sub>m tpages g"
      by (auto simp: forget_def map_le_def split: if_splits)
  qed (use that in simp_all)
  show "open_with s' (put_page (ID p) p t) (forget (ID p) g) E \<and> is_page p \<and> ID p \<in> tused t" if "r = None"
  proof -
    have own: "ID p \<in> tused t" using that w D(9) by simp
    have "dirty s'" using w that by (metis (no_types) Store.select_convs(10) Store.surjective Store.update_convs(10))
    moreover have "knows (pf s') (tpages (put_page (ID p) p t))"
      using kn w that by (auto simp: knows_def forget_def put_page_def split: if_splits)
    moreover have "dom (tpages (put_page (ID p) p t)) \<subseteq> tused (put_page (ID p) p t)"
      using D(11) by (auto simp: put_page_def)
    moreover have "tused (put_page (ID p) p t) = tused t" using own by (auto simp: put_page_def)
    ultimately show ?thesis using step w that own by simp
  qed
  show "s' = s \<and> reply_of e = Rejected \<and> refused (OpWrite p) t
       \<or> open_with s' (forget (ID p) t) (forget (ID p) g) E \<and> reply_of e = FileFailed" if "r = Some e"
  proof (cases "owned (ID p) s")
    case (Some x)
    then have "s' = s" "e = x" "ID p \<notin> tused t"
      using assms(2) that D(8,9) by (auto simp: StoreWrite_def split: if_splits)
    then show ?thesis using owned_reply [OF Some] by simp
  next
    case None
    then have f: "\<exists>f. e = FileErr f"
      using assms(2) that D(8) by (auto simp: StoreWrite_def split: if_splits prod.splits option.splits)
    have s': "s' = s\<lparr>pf := pf s'\<rparr>" using w that by simp
    have "dirty s' = dirty s" by (subst s') simp
    then have "\<not> dirty s' \<Longrightarrow> forget (ID p) t = forget (ID p) g" using D(12) by simp
    moreover have "dom (tpages (forget (ID p) t)) \<subseteq> tused (forget (ID p) t)" "tused (forget (ID p) t) = tused t"
      using D(11) by (auto simp: forget_def split: if_splits)
    ultimately show ?thesis using step [of "forget (ID p) t"] kn f by auto
  qed
qed

section \<open>Sync and checkpoint\<close>

lemma sim_sync:
  assumes "open_with s t g E" "SyncStore s = (r, s')"
  shows "r = None \<and> open_with s' t g E
    \<or> (\<exists>e. r = Some (ErrPoisoned e) \<and> usable s' \<noteq> None \<and> sim_stopped (pf s') {g})"
proof -
  note D = open_withD [OF assms(1)]
  have r: "r = None \<or> (\<exists>e. r = Some (ErrPoisoned e))" "r = None \<Longrightarrow> poisoned s' = None"
    using assms(2) D(8) by (auto simp: SyncStore_def poison_def Let_def usable_None split: prod.splits option.splits)
  from SyncStore_ok [OF D(1) assms(2)] show ?thesis
  proof
    assume a: "poisoned s' = poisoned s \<and> store_ok s' E \<and> progress UNIV (pf s) (pf s')
      \<and> s' = s\<lparr>pf := pf s'\<rparr> \<and> (r = None \<longrightarrow> (\<forall>i. agree (pf s) i \<longrightarrow> stable (pf s') i))"
    have "poisoned s' = None" using a D(8) by (simp add: usable_None)
    then have "r = None"
      using assms(2) D(8) by (auto simp: SyncStore_def poison_def Let_def usable_None split: prod.splits option.splits)
    moreover have "open_with s' t g E" using a by (intro open_same [OF assms(1)]) auto
    ultimately show ?thesis by blast
  next
    assume a: "r \<noteq> None \<and> poisoned s' \<noteq> None \<and> frame UNIV (pf s) (pf s')
      \<and> durable s' = durable s \<and> root s' = root s
      \<and> sound (pf s') {(durable s, E, listPage s)}"
    then have "keeps (pf s') g" using keeps_frame [OF D(6)] by blast
    then have "sim_stopped (pf s') {g}"
      using a D(10) unfolding sim_stopped_def
      by (intro disjI2 exI [of _ "{((durable s, E, listPage s), g)}"]) simp
    then show ?thesis using a r(1) by (auto simp: usable_None)
  qed
qed

text \<open>The pages in use are the same before a checkpoint and after it: none is lost, none is given
  away.\<close>

lemma used_outside_plan:
  assumes "mem_ok s" "plan_ok s fixed p"
  shows "i \<noteq> 0 \<and> i < p_next p \<and> i \<notin> set (new_entries p s) \<and> i \<notin> set (p_lists p) \<longleftrightarrow> owned i s = None"
proof
  assume o: "owned i s = None"
  note l = owned_lists [OF assms(1) o]
  have i: "i < nextPage s" using o by (simp add: owned_None)
  then have "i < p_next p" using assms(2) by (auto simp: plan_ok_def intro: less_le_trans)
  moreover have "i \<notin> set (new_entries p s)"
    using l assms(2) by (auto simp: new_entries_def plan_ok_def)
  moreover have "i \<notin> set (p_lists p)" using l i assms(2) by (auto simp: plan_ok_def)
  ultimately show "i \<noteq> 0 \<and> i < p_next p \<and> i \<notin> set (new_entries p s) \<and> i \<notin> set (p_lists p)" using l by simp
next
  assume a: "i \<noteq> 0 \<and> i < p_next p \<and> i \<notin> set (new_entries p s) \<and> i \<notin> set (p_lists p)"
  then have n: "i \<notin> set (p_free p) \<union> set (p_lists p)" "i \<notin> set (pending s)" "i \<notin> set (listPage s)"
    by (simp_all add: new_entries_def)
  then have "i \<notin> set (free s)" "i < nextPage s"
    using assms(2) a unfolding plan_ok_def covers_def by (meson not_le)+
  then show "owned i s = None"
    using a n(2,3) assms(1) by (simp add: owned_None mem_ok_status state_of_def)
qed

text \<open>A checkpoint that fails before it has written anything that matters fails with an error of the
  file or because the page numbers ran out.\<close>

lemma plan_lists_answer: "plan_lists d fixed p = (Inl e, d') \<Longrightarrow> reply_of e \<in> {Rejected, FileFailed}"
proof (induction d fixed p rule: plan_lists.induct)
  case (1 d fixed p)
  show ?case
    using 1(4) [unfolded plan_lists.simps [of d fixed p]] 1(1)
      1(2) [OF _ _ refl _ _ refl _ sym refl] 1(3) [OF _ _ refl]
    by (auto simp: Let_def split: if_splits prod.splits option.splits)
qed

lemma checkpoint_plain: "checkpoint s = Some (Some (Plain e), s') \<Longrightarrow> reply_of e \<in> {Rejected, FileFailed}"
  unfolding checkpoint_eq commit_def Let_def
  by (auto dest: plan_lists_answer split: prod.splits option.splits sum.splits if_splits)

lemma snapshot_matches:
  assumes "open_with s t g E" "plan_ok s fixed p"
  shows "matches (new_snapshot p s) t"
proof -
  note D = open_withD [OF assms(1)]
  show ?thesis
    using D(7,9,11) used_outside_plan [OF D(2) assms(2)]
    unfolding matches_def new_snapshot_def next_meta_def by simp
qed

lemma settled_keeps:
  assumes "open_with s t g E" "settles s d" "frame (busy s - {0}) (pf s) d"
  shows "keeps d t" "knows d (tpages t)"
proof -
  note D = open_withD [OF assms(1)]
  show k: "keeps d t" unfolding keeps_def
  proof (intro allI impI)
    fix i b assume "tpages t i = Some b"
    then have i: "unat i \<in> busy s - {0}" "agree (pf s) (unat i)" "live_page (pf s) i = b"
      using D(4,5) unfolding knows_def by blast+
    then show "stable d (unat i) \<and> live_page d i = b"
      using assms(2) frame_live [OF assms(3) i(1)] by (auto simp: settles_def agree_def)
  qed
  then show "knows d (tpages t)" using stable_agree by (simp add: keeps_def knows_def)
qed

lemma sim_committed:
  assumes o: "open_with s t g E" and p: "plan_ok s fixed p" and ok: "store_ok s' (new_entries p s)"
    and c: "committed s p s'" and k: "settles s (pf s')" "frame (busy s - {0}) (pf s) (pf s')"
  shows "open_with s' t t (new_entries p s)"
proof -
  note D = open_withD [OF o]
  have m: "matches (durable s', new_entries p s, listPage s') t"
    using snapshot_matches [OF o p] c by (simp add: committed_def new_snapshot_def)
  have mem: "mem_ok s'" and f: "free s' = new_entries p s" "pending s' = []" "listPage s' = p_lists p" "nextPage s' = p_next p"
    using ok c by (simp_all add: store_ok_def committed_def)
  have "owned i s' = None \<longleftrightarrow> owned i s = None" for i
    using used_outside_plan [OF D(2) p, of i] f
    by (auto simp: owned_None mem_ok_status [OF mem] state_of_def)
  then have "tused t = {i. owned i s' = None}" using D(9) by simp
  moreover have "usable s' = None" "troot t = root s'"
    using D(7,8) c by (simp_all add: usable_None committed_def)
  ultimately show ?thesis
    using ok m settled_keeps [OF o k] D(11) unfolding open_with_def by blast
qed

lemma sim_checkpoint:
  assumes o: "open_with s t g E" and c: "Checkpoint s = Some (r, s')"
  shows "r = None \<and> (\<exists>E'. open_with s' t t E')
    \<or> (\<exists>e. r = Some e \<and> reply_of e \<in> {Rejected, FileFailed} \<and> open_with s' t g E)
    \<or> (\<exists>e. r = Some (ErrPoisoned e) \<and> poisoned s' = Some e \<and> (sim_stopped (pf s') {g} \<or> sim_stopped (pf s') {t, g}))"
proof -
  note D = open_withD [OF o]
  from D(8) c show ?thesis
  proof (cases rule: Checkpoint_unfold)
    case 1
    have "checkpointed s E None s'" by (rule checkpoint_outcome [OF D(1) 1(2)])
    then have "\<exists>E'. open_with s' t t E'"
      using sim_committed [OF o] unfolding checkpointed_def option.case by blast
    then show ?thesis using 1(1) by simp
  next
    case (2 e)
    have k: "checkpointed s E (Some (Plain e)) s'" by (rule checkpoint_outcome [OF D(1) 2(2)])
    then have "open_with s' t g E"
      by (intro open_same [OF o, of s' "busy s"]) (auto simp: checkpointed_def)
    then show ?thesis using 2 checkpoint_plain by blast
  next
    case (3 e s1)
    have k: "checkpointed s E (Some (mustPoison e)) s1" by (rule checkpoint_outcome [OF D(1) 3(2)])
    have "s1 = s\<lparr>pf := pf s1\<rparr>" using k by (simp add: checkpointed_def)
    then have "poisoned s1 = None" using D(8) by (metis Store.select_convs(12) Store.surjective Store.update_convs(1) usable_None)
    then have s': "pf s' = pf s1" "poisoned s' = Some e" using 3(3) by simp_all
    have f: "frame (busy s - {0}) (pf s) (pf s1)" using k by (simp add: checkpointed_def)
    have kg: "keeps (pf s1) g" by (rule keeps_frame [OF D(6) f D(3)])
    from k consider "sound (pf s1) {(durable s, E, listPage s)}"
      | p where "plan_ok s (fixed_of s) p" "settles s (pf s1)"
          "sound (pf s1) {new_snapshot p s, (durable s, E, listPage s)}"
      by (auto simp: checkpointed_def)
    then show ?thesis
    proof cases
      case 1
      then have "sim_stopped (pf s1) {g}"
        using kg D(10) unfolding sim_stopped_def
        by (intro disjI2 exI [of _ "{((durable s, E, listPage s), g)}"]) simp
      then show ?thesis using s' 3(1) by simp
    next
      case (2 p)
      then have "sim_stopped (pf s1) {t, g}"
        using kg D(10) snapshot_matches [OF o 2(1)] settled_keeps(1) [OF o 2(2) f] unfolding sim_stopped_def
        by (intro disjI2 exI [of _ "{(new_snapshot p s, t), ((durable s, E, listPage s), g)}"]) simp
      then show ?thesis using s' 3(1) by simp
    qed
  qed
qed

section \<open>Closing, and stores that take no more operations\<close>

lemma Discard_stopped:
  assumes "Discard s = (r, s')" "\<not> closed s"
  shows "same_file (pf s) (pf s') \<and> usable s' \<noteq> None"
  using assms ClosePages_same [of "pf s"]
  by (auto simp: Discard_def usable_None split: prod.splits)

lemma sim_close:
  assumes o: "open_with s t g E" and c: "CloseStore s = Some (r, s')"
  shows "usable s' \<noteq> None"
    "\<exists>D. sim_stopped (pf s') D \<and> D \<in> {{g}, {t}, {t, g}} \<and> (r = None \<longrightarrow> D = {t})"
proof -
  note D = open_withD [OF o]
  have stopped: "sim_stopped (pf s) {g}"
    using sim_open_stopped [of s t "{g}"] o by (auto simp: sim_open_def)
  obtain q s1 where q: "(if poisoned s = None \<and> dirty s then Checkpoint s else Some (None, s)) = Some (q, s1)"
    using c D(8) by (auto simp: CloseStore_def usable_None split: if_splits option.splits)
  obtain e d where cl: "ClosePages (pf s1) = (e, d)" by fastforce
  have s': "pf s' = d" "usable s' \<noteq> None"
    and r: "r = (case poisoned s1 of Some e \<Rightarrow> Some (ErrPoisoned e)
        | None \<Rightarrow> case q of Some e \<Rightarrow> Some e | None \<Rightarrow> map_option FileErr e)"
    using c D(8) q cl by (auto simp: CloseStore_def usable_None Let_def split: if_splits)
  show "usable s' \<noteq> None" by (rule s'(2))
  have "\<exists>D. sim_stopped (pf s1) D \<and> D \<in> {{g}, {t}, {t, g}} \<and> (r = None \<longrightarrow> D = {t})"
  proof (cases "poisoned s = None \<and> dirty s")
    case True
    then have c: "Checkpoint s = Some (q, s1)" using q by simp
    have err: "r \<noteq> None" if "q \<noteq> None"
      using that r by (auto split: option.splits)
    have open': "sim_stopped (pf s1) {g'}" if "open_with s1 t g' E'" for g' E'
      using sim_open_stopped [of s1 t "{g'}"] that by (auto simp: sim_open_def)
    have "sim_stopped (pf s1) {t} \<or> q \<noteq> None \<and> (sim_stopped (pf s1) {g} \<or> sim_stopped (pf s1) {t, g})"
      using sim_checkpoint [OF o c] open' by auto
    then show ?thesis
      using err by auto
  next
    case False
    then have "s1 = s" "\<not> dirty s" using q D(8) by (auto simp: usable_None split: if_splits)
    then show ?thesis using stopped D(12) by blast
  qed
  then show "\<exists>D. sim_stopped (pf s') D \<and> D \<in> {{g}, {t}, {t, g}} \<and> (r = None \<longrightarrow> D = {t})"
    using s' sim_stopped_same_file [OF ClosePages_same [OF cl]] by blast
qed

text \<open>A poisoned or closed store answers every call with an error and touches its file no more than
  closing it does.\<close>

lemma unusable_op:
  assumes "usable s \<noteq> None" "run_op c s = Some (r, s')"
  shows "same_file (pf s) (pf s')" "usable s' \<noteq> None" "r \<in> {Rejected, Poisoned} \<or> c \<in> {OpClose, OpDiscard}"
proof -
  obtain e where u: "usable s = Some e" using assms(1) by blast
  have e: "reply_of e \<in> {Rejected, Poisoned}"
    using u by (auto simp: usable_def split: option.splits if_splits)
  have close: "same_file (pf s) (pf s') \<and> usable s' \<noteq> None" if "CloseStore s = Some (q, s')" for q
  proof (cases "closed s")
    case True
    then show ?thesis using that assms(1) by (simp add: CloseStore_def)
  next
    case False
    then have "poisoned s \<noteq> None" using assms(1) by (simp add: usable_None)
    then show ?thesis
      using that False ClosePages_same [of "pf s"]
      by (auto simp: CloseStore_def usable_None Let_def split: prod.splits)
  qed
  have discard: "same_file (pf s) (pf s') \<and> usable s' \<noteq> None" if "Discard s = (q, s')" for q
    using that Discard_stopped [of s q s'] assms(1) by (cases "closed s") (auto simp: Discard_def)
  have all: "same_file (pf s) (pf s') \<and> usable s' \<noteq> None
    \<and> (r \<in> {Rejected, Poisoned} \<or> c \<in> {OpClose, OpDiscard})"
  proof (cases c)
    case OpClose
    then show ?thesis using assms(2) close by (auto simp: answer_def split: option.splits)
  next
    case OpDiscard
    then show ?thesis using assms(2) discard by (auto simp: answer_def split: prod.splits option.splits)
  qed (use assms u e in \<open>auto simp: answer_def page_answer_def StoreRead_def StoreWrite_def Allocate_def
      FreePage_def SetRoot_def SyncStore_def Checkpoint_def Verify_def\<close>)
  then show "same_file (pf s) (pf s')" "usable s' \<noteq> None"
    "r \<in> {Rejected, Poisoned} \<or> c \<in> {OpClose, OpDiscard}" by simp_all
qed

section \<open>Opening\<close>

lemma open_empty:
  assumes "empty_store s"
  shows "open_with s empty_tx empty_tx []"
proof -
  have "\<not> (i \<noteq> 0 \<and> i < (1 :: u32))" for i by (simp add: page_le_iff unat_eq_0)
  then show ?thesis
    using assms by (auto simp: empty_store_def open_with_def empty_tx_def knows_def keeps_def matches_def
        first_meta_def owned_None)
qed

lemma sim_empty: "empty_store s \<Longrightarrow> sim_open s empty_tx {empty_tx}"
  using open_empty unfolding sim_open_def by blast

lemma sim_loaded:
  assumes "matches (m, E, L) g" "keeps d g" "store_ok s E" "s = loaded m E L (pf s)" "progress (- {0}) d (pf s)"
  shows "sim_open s g {g}"
proof -
  have f: "usable s = None" "root s = mRoot m" "durable s = m" "listPage s = L" "nextPage s = mNextPage m"
    "free s = E" "pending s = []" "\<not> dirty s"
    by (subst assms(4), simp add: usable_None)+
  have z: "unat ` dom (tpages g) \<subseteq> - {0}"
    using assms(1) matches_dom [OF assms(1)] by (auto simp: matches_def unat_eq_0)
  have k: "keeps (pf s) g" by (rule keeps_frame [OF assms(2) progress_frame [OF assms(5)] z])
  have "owned i s = None \<longleftrightarrow> i \<noteq> 0 \<and> i < mNextPage m \<and> i \<notin> set E \<and> i \<notin> set L" for i
    using assms(3) f by (auto simp: owned_None store_ok_def mem_ok_status state_of_def)
  then have "tused g = {i. owned i s = None}" "troot g = root s"
    using assms(1) f(2) by (auto simp: matches_def)
  moreover have "knows (pf s) (tpages g)" using k stable_agree by (simp add: keeps_def knows_def)
  ultimately have "open_with s g g E"
    using f k assms(1,3) matches_dom [OF assms(1)] unfolding open_with_def by simp
  then show ?thesis unfolding sim_open_def by blast
qed

lemma sim_openFile:
  assumes "sim_stopped d D"
  shows "case openFile d of
      None \<Rightarrow> False
    | Some (Inl (e, d')) \<Rightarrow> sim_stopped d' D
    | Some (Inr s) \<Rightarrow> \<exists>t \<in> D. sim_open s t {t}"
proof (cases "nascent d \<and> D = {empty_tx}")
  case True
  have "case openFile d of None \<Rightarrow> False | Some (Inl (e, d')) \<Rightarrow> nascent d' | Some (Inr s) \<Rightarrow> empty_store s"
    using openFile_nascent True by blast
  then show ?thesis
    using True sim_empty by (auto simp: sim_stopped_def split: option.splits sum.splits)
next
  case False
  then obtain K where K: "sound d (fst ` K)" "D = snd ` K" "\<forall>(c, g) \<in> K. matches c g \<and> keeps d g"
    using assms unfolding sim_stopped_def by blast
  note o = openFile_sound [OF K(1)]
  show ?thesis
  proof (cases "openFile d")
    case None
    then show ?thesis using o by simp
  next
    case (Some r)
    show ?thesis
    proof (cases r)
      case (Inl x)
      obtain e d' where x: "x = (e, d')" by fastforce
      have s: "sound d' (fst ` K)" "frame (- {0}) d d'" using o Some Inl x by simp_all
      have "matches c g \<and> keeps d' g" if "(c, g) \<in> K" for c g
      proof -
        have m: "matches c g" "keeps d g" using K(3) that by auto
        then have "unat ` dom (tpages g) \<subseteq> - {0}"
          using matches_dom [OF m(1)] by (auto simp: matches_def unat_eq_0)
        then show ?thesis using m keeps_frame [OF m(2) s(2)] by simp
      qed
      then have "\<forall>(c, g) \<in> K. matches c g \<and> keeps d' g" by blast
      then have "sim_stopped d' D" using s(1) K(2) unfolding sim_stopped_def by blast
      then show ?thesis using Some Inl x by simp
    next
      case (Inr s)
      then obtain m E L where c: "(m, E, L) \<in> fst ` K" "store_ok s E" "s = loaded m E L (pf s)"
        "progress (- {0}) d (pf s)" using o Some by auto
      then obtain g where g: "((m, E, L), g) \<in> K" by force
      have "matches (m, E, L) g \<and> keeps d g" using K(3) g by blast
      then have "sim_open s g {g}" using sim_loaded c(2-4) by blast
      moreover have "g \<in> D" using g K(2) by force
      ultimately show ?thesis using Some Inr by auto
    qed
  qed
qed

lemma sim_discard:
  assumes "sim_open s t D"
  shows "sim_stopped (pf (snd (Discard s))) D"
proof -
  obtain r s' where d: "Discard s = (r, s')" by fastforce
  have "\<not> closed s" using assms by (auto simp: sim_open_def open_with_def usable_None)
  then have "same_file (pf s) (pf s')" using Discard_stopped [OF d] by blast
  then show ?thesis using sim_open_stopped [OF assms] sim_stopped_same_file d by auto
qed

text \<open>Opening by path: on the way an error may close the file again, after the store was loaded.\<close>

definition opened_as :: "opened \<Rightarrow> Tx set \<Rightarrow> bool" where
  "opened_as r D \<longleftrightarrow>
     (case r of
        Inl (e, d') \<Rightarrow> sim_stopped d' D \<or> (\<exists>t \<in> D. sim_stopped d' {t})
      | Inr s \<Rightarrow> \<exists>t \<in> D. sim_open s t {t})"

lemma sim_OpenStore:
  assumes "sim_stopped d D" "OpenStore (Inr d) synced = Some r"
  shows "opened_as r D"
proof -
  note o = sim_openFile [OF assms(1)]
  obtain q where q: "openFile d = Some q" using o by (cases "openFile d") auto
  show ?thesis
  proof (cases q)
    case (Inl x)
    obtain e d' where x: "x = (e, d')" by fastforce
    obtain e' d2 where cl: "ClosePages d' = (e', d2)" by fastforce
    have "sim_stopped d2 D"
      using sim_stopped_same_file [OF ClosePages_same [OF cl]] o q Inl x by simp
    then show ?thesis using assms(2) q Inl x cl by (auto simp: OpenStore_def opened_as_def)
  next
    case (Inr s)
    then obtain t where t: "t \<in> D" "sim_open s t {t}" using o q by auto
    then show ?thesis
      using assms(2) q Inr sim_discard [OF t(2)] by (auto simp: OpenStore_def opened_as_def split: option.splits)
  qed
qed

lemma nascent_create:
  assumes "nascent d" "isBlank d = (Inr True, d')"
  shows "blank_dev d'"
proof -
  have "\<not> born d" using assms born_not_blank by blast
  moreover have "\<not> sound d C" for C using assms sound_not_blank by blast
  ultimately have "blank_dev d" using assms(1) by (auto simp: nascent_def)
  then show ?thesis using blank_same_file isBlank_same [OF assms(2)] by blast
qed

lemma sim_CreateStore:
  assumes "sim_stopped d D" "CreateStore (Inr d) synced = Some r"
  shows "opened_as r D"
proof -
  obtain q d1 where b: "isBlank d = (q, d1)" by fastforce
  have s1: "sim_stopped d1 D" by (rule sim_stopped_same_file [OF isBlank_same [OF b] assms(1)])
  have closed: "sim_stopped (snd (ClosePages d')) D" if "sim_stopped d' D" for d'
    using that sim_stopped_same_file ClosePages_same by (metis prod.collapse)
  show ?thesis
  proof (cases "q = Inr True")
    case False
    obtain ours d2 where h: "hasMagic d1 = (ours, d2)" by fastforce
    have "sim_stopped d2 D" by (rule sim_stopped_same_file [OF hasMagic_same [OF h] s1])
    then show ?thesis
      using assms(2) b False h closed s1
      by (cases q) (auto simp: CreateStore_def opened_as_def Let_def)
  next
    case True
    have n: "nascent d" "D = {empty_tx}"
      using assms(1) sound_not_blank b True unfolding sim_stopped_def by blast+
    have bl: "blank_dev d1" using nascent_create [OF n(1)] b True by simp
    obtain c where c: "create d1 = Some c" using create_total by blast
    show ?thesis
    proof (cases c)
      case (Inl x)
      obtain e d' where x: "x = (e, d')" by fastforce
      have "sim_stopped d' D"
        using create_nascent [OF bl] c Inl x n(2) by (simp add: sim_stopped_def)
      then show ?thesis
        using assms(2) b True c Inl x closed by (auto simp: CreateStore_def opened_as_def)
    next
      case (Inr s)
      have e: "empty_store s" using create_success [of d1 s] c Inr by (simp add: empty_store_def)
      note o = sim_empty [OF e]
      show ?thesis
        using assms(2) b True c Inr n(2) o sim_discard [OF o]
        by (auto simp: CreateStore_def opened_as_def split: option.splits)
    qed
  qed
qed

lemma opening_total: "\<exists>r. OpenStore (Inr d) synced = Some r" if "sim_stopped d D"
  using sim_openFile [OF that]
  by (cases "openFile d") (auto simp: OpenStore_def split: option.split sum.splits)

section \<open>Every step\<close>

lemma sim_op:
  assumes o: "open_with s t g E" and r: "run_op c s = Some (r, s')"
  shows "\<exists>a. tx_step (Open t {g}) (Did c r) a \<and> sim (Running s') a"
proof -
  have goes: ?thesis if "tx_step (Open t {g}) (Did c r) (Open t' {g'})" "open_with s' t' g' E'" for t' g' E'
    using that by (intro exI [of _ "Open t' {g'}"]) (auto simp: sim_open_def)
  have refuse: ?thesis if "refused c t" "r = Rejected" "open_with s' t g E"
    using goes [OF _ that(3)] tx_rejected [OF that(1)] that(2) by simp
  have fail: ?thesis if "may_fail c" "r = FileFailed" "open_with s' t g E"
    using goes [OF _ that(3)] tx_failed [OF that(1)] that(2) by simp
  have ends: ?thesis if "tx_step (Open t {g}) (Did c r) (Stopped D)" "usable s' \<noteq> None" "sim_stopped (pf s') D" for D
    using that by (intro exI [of _ "Stopped D"]) simp
  show ?thesis
  proof (cases c)
    case (OpRead i)
    obtain q where q: "StoreRead i s = (q, s')" "r = (case q of Inl e \<Rightarrow> reply_of e | Inr p \<Rightarrow> GotPage p)"
      using r OpRead by (auto simp: page_answer_def split: prod.splits sum.splits)
    note k = sim_read [OF o q(1)]
    show ?thesis
    proof (cases q)
      case (Inl e)
      then show ?thesis using sim_read_answer [OF o q(1)] q(2) OpRead refuse fail k by auto
    next
      case (Inr p)
      then have "tx_step (Open t {g}) (Did c r) (Open t {g})"
        using sim_read_answer [OF o q(1)] tx_read [of i t p "{g}"] q(2) OpRead by simp
      then show ?thesis using goes k by blast
    qed
  next
    case (OpWrite p)
    then obtain e where w: "StoreWrite p s = Some (e, s')" "r = (case e of None \<Rightarrow> Done | Some e \<Rightarrow> reply_of e)"
      using r by (auto simp: answer_def split: option.splits)
    note sw = sim_write [OF o w(1)]
    have unused: "ID p \<notin> tused g \<Longrightarrow> forget (ID p) g = g"
      by (rule forget_unused [OF matches_dom [OF open_withD(10) [OF o]]])
    show ?thesis
    proof (cases e)
      case None
      then have k: "open_with s' (put_page (ID p) p t) (forget (ID p) g) E" "is_page p" "ID p \<in> tused t"
        using sw(1) by simp_all
      have "tx_step (Open t {g}) (Did c r) (Open (put_page (ID p) p t) {forget (ID p) g})"
        using tx_write [OF k(2,3), of "{g}"] tx_write_in_place [OF k(2,3), of g "{g}"] unused w(2) None OpWrite
        by (cases "ID p \<in> tused g") simp_all
      then show ?thesis using goes k(1) by blast
    next
      case (Some x)
      from sw(2) [OF Some] show ?thesis
      proof
        assume "s' = s \<and> reply_of x = Rejected \<and> refused (OpWrite p) t"
        then show ?thesis using refuse o w(2) Some OpWrite by simp
      next
        assume k: "open_with s' (forget (ID p) t) (forget (ID p) g) E \<and> reply_of x = FileFailed"
        have "tx_step (Open t {g}) (Did c r) (Open (forget (ID p) t) {forget (ID p) g})"
          using tx_write_fails [of "{g}" p t] tx_write_in_place_fails [of g "{g}" p t] unused OpWrite w(2) Some k
          by (cases "ID p \<in> tused g") simp_all
        then show ?thesis using goes k by blast
      qed
    qed
  next
    case (OpAllocate k)
    obtain q where q: "Allocate k s = (q, s')" "r = (case q of Inl e \<Rightarrow> reply_of e | Inr p \<Rightarrow> GotPage p)"
      using r OpAllocate by (auto simp: page_answer_def split: prod.splits sum.splits)
    note sa = sim_allocate [OF o q(1)]
    show ?thesis
    proof (cases q)
      case (Inl e)
      then show ?thesis using sa q(2) OpAllocate refuse fail by auto
    next
      case (Inr p)
      then have k: "ID p \<noteq> NoPage" "ID p \<notin> tused t" "\<forall>h \<in> {g}. ID p \<notin> tused h" "p = NewPage (ID p) k"
        "open_with s' (put_page (ID p) (NewPage (ID p) k) t) g E"
        using sa unfolding Inr by auto
      have "tx_step (Open t {g}) (Did c r) (Open (put_page (ID p) (NewPage (ID p) k) t) {g})"
        using tx_allocate [OF k(1-3), of k] unfolding OpAllocate q(2) Inr sum.case k(4) [symmetric] .
      then show ?thesis using goes k(5) by blast
    qed
  next
    case (OpFree i)
    then obtain e where f: "FreePage i s = (e, s')" "r = (case e of None \<Rightarrow> Done | Some e \<Rightarrow> reply_of e)"
      using r by (auto simp: answer_def split: prod.splits option.splits)
    show ?thesis
    proof (cases e)
      case None
      then show ?thesis using sim_free(1) [OF o f(1) None] goes [of "release i t" g E] f(2) None OpFree tx_free [of i t "{g}"] by simp
    next
      case (Some x)
      then show ?thesis using sim_free(2) [OF o f(1) Some] refuse o f(2) Some OpFree by simp
    qed
  next
    case (OpSetRoot i)
    then obtain e where f: "SetRoot i s = (e, s')" "r = (case e of None \<Rightarrow> Done | Some e \<Rightarrow> reply_of e)"
      using r by (auto simp: answer_def split: prod.splits option.splits)
    show ?thesis
    proof (cases e)
      case None
      then show ?thesis using sim_set_root(1) [OF o f(1) None] goes [of "t\<lparr>troot := i\<rparr>" g E] f(2) None OpSetRoot tx_set_root [of i t "{g}"] by simp
    next
      case (Some x)
      then show ?thesis using sim_set_root(2) [OF o f(1) Some] refuse o f(2) Some OpSetRoot by simp
    qed
  next
    case OpSync
    then obtain e where f: "SyncStore s = (e, s')" "r = (case e of None \<Rightarrow> Done | Some e \<Rightarrow> reply_of e)"
      using r by (auto simp: answer_def split: prod.splits option.splits)
    from sim_sync [OF o f(1)] show ?thesis
    proof (elim disjE conjE exE)
      assume "e = None" "open_with s' t g E"
      then show ?thesis using goes [of t g E] f(2) OpSync tx_nothing [of OpSync t "{g}"] by simp
    next
      fix x assume "e = Some (ErrPoisoned x)" "usable s' \<noteq> None" "sim_stopped (pf s') {g}"
      then show ?thesis using ends [of "{g}"] f(2) OpSync tx_poisoned [of OpSync "{g}" "{g}" t] by simp
    qed
  next
    case OpCheckpoint
    then obtain e where f: "Checkpoint s = Some (e, s')" "r = (case e of None \<Rightarrow> Done | Some e \<Rightarrow> reply_of e)"
      using r by (auto simp: answer_def split: option.splits)
    from sim_checkpoint [OF o f(1)] show ?thesis
    proof (elim disjE conjE exE)
      fix E' assume "e = None" "open_with s' t t E'"
      then show ?thesis using goes [of t t E'] f(2) OpCheckpoint tx_commit [of t "{g}"] by simp
    next
      fix x assume "e = Some x" "reply_of x \<in> {Rejected, FileFailed}" "open_with s' t g E"
      then show ?thesis using refuse fail f(2) OpCheckpoint by auto
    next
      fix x assume "e = Some (ErrPoisoned x)" "poisoned s' = Some x" "sim_stopped (pf s') {g}"
      then show ?thesis using ends [of "{g}"] f(2) OpCheckpoint tx_poisoned [of OpCheckpoint "{g}" "{g}" t] by (simp add: usable_None)
    next
      fix x assume "e = Some (ErrPoisoned x)" "poisoned s' = Some x" "sim_stopped (pf s') {t, g}"
      then show ?thesis using ends [of "{t, g}"] f(2) OpCheckpoint tx_poisoned [of OpCheckpoint "{t, g}" "{g}" t] by (simp add: usable_None)
    qed
  next
    case OpVerify
    then obtain e where f: "Verify s = (e, s')" "r = (case e of None \<Rightarrow> Done | Some e \<Rightarrow> reply_of e)"
      using r by (auto simp: answer_def split: prod.splits option.splits)
    have "r = Done \<or> r = FileFailed"
      using f Verify_answers [OF open_withD(1,8) [OF o]] by (cases e) auto
    then show ?thesis
      using goes [OF _ sim_verify [OF o f(1)]] fail [OF _ _ sim_verify [OF o f(1)]] OpVerify
        tx_nothing [of OpVerify t "{g}"] by auto
  next
    case OpClose
    then obtain e where f: "CloseStore s = Some (e, s')" "r = (case e of None \<Rightarrow> Done | Some e \<Rightarrow> reply_of e)"
      using r by (auto simp: answer_def split: option.splits)
    obtain D where D: "sim_stopped (pf s') D" "D \<in> {{g}, {t}, {t, g}}" "e = None \<longrightarrow> D = {t}"
      using sim_close(2) [OF o f(1)] by blast
    have "tx_step (Open t {g}) (Did c r) (Stopped D)"
    proof (cases "r = Done")
      case True
      then have "e = None" using f(2) by (auto split: option.splits elim: reply_of.elims)
      then show ?thesis using D(3) True OpClose tx_close by auto
    next
      case False
      then show ?thesis using D(2) OpClose tx_close_fails [OF False, of D "{g}" t] by auto
    qed
    then show ?thesis using ends sim_close(1) [OF o f(1)] D(1) by blast
  next
    case OpDiscard
    then obtain e where d: "Discard s = (e, s')" using r by (auto simp: answer_def split: prod.splits option.splits)
    have "\<not> closed s" using open_withD(8) [OF o] by (simp add: usable_None)
    then have "usable s' \<noteq> None" using Discard_stopped [OF d] by blast
    moreover have "sim_stopped (pf s') {g}"
      using sim_discard [of s t "{g}"] o d by (auto simp: sim_open_def)
    ultimately show ?thesis using ends [of "{g}"] OpDiscard tx_discard [of t "{g}" r] by simp
  qed
qed

section \<open>Forward simulation\<close>

text \<open>Each labelled step of the implementation is matched by a step of the specification with the same
  label; then so is every run.\<close>

locale forward_simulation =
  fixes impl_step :: "'c \<Rightarrow> 'e \<Rightarrow> 'c \<Rightarrow> bool"
    and spec_step :: "'a \<Rightarrow> 'e \<Rightarrow> 'a \<Rightarrow> bool"
    and rel :: "'c \<Rightarrow> 'a \<Rightarrow> bool"
  assumes matched: "rel c a \<Longrightarrow> impl_step c ev c' \<Longrightarrow> \<exists>a'. spec_step a ev a' \<and> rel c' a'"
begin

lemma run_matched: "steps impl_step c evs c' \<Longrightarrow> rel c a \<Longrightarrow> \<exists>a'. steps spec_step a evs a' \<and> rel c' a'"
proof (induction evs arbitrary: c a)
  case (Cons ev evs)
  then obtain d where d: "impl_step c ev d" "steps impl_step d evs c'" by auto
  then obtain b where b: "spec_step a ev b" "rel d b" using matched Cons.prems(2) by blast
  then obtain a' where "steps spec_step b evs a'" "rel c' a'" using Cons.IH [OF d(2)] by blast
  then show ?case using b(1) by auto
qed simp

lemma run_safe:
  assumes "\<And>c a. rel c a \<Longrightarrow> P c" "steps impl_step c evs c'" "rel c a"
  shows "P c'"
  using run_matched [OF assms(2,3)] assms(1) by blast

end

lemma power_loss_step:
  assumes "sim_stopped d D"
  obtains g where "g \<in> D" "sim (Down (power_loss kept sc d)) (Stopped {g})"
  using sim_stopped_power_loss [OF assms] by auto

lemma opened_step:
  assumes "opened_as r D"
  shows "case r of
      Inl (e, d') \<Rightarrow> \<exists>a. tx_step (Stopped D) OpenFailed a \<and> sim (Down (restart sc d')) a
    | Inr s \<Rightarrow> \<exists>a. tx_step (Stopped D) (Opened (root s)) a \<and> sim (Running s) a"
proof (cases r)
  case (Inl x)
  obtain e d' where x: "x = (e, d')" by fastforce
  from assms obtain D' where "D' = D \<or> (\<exists>g \<in> D. D' = {g})" "sim_stopped d' D'"
    by (auto simp: opened_as_def Inl x)
  then show ?thesis
    using tx_open_fails [of D' D] sim_stopped_restart [of d' D' sc]
    by (simp add: Inl x) (intro exI [of _ "Stopped D'"], simp)
next
  case (Inr s)
  then obtain t where t: "t \<in> D" "sim_open s t {t}" using assms by (auto simp: opened_as_def)
  then have "troot t = root s" by (auto simp: sim_open_def open_with_def)
  then show ?thesis using tx_open [OF t(1)] t(2) Inr by (auto intro!: exI [of _ "Open t {t}"])
qed

lemma sim_running:
  assumes "sim (Running s) a"
  obtains (live) t g E where "a = Open t {g}" "open_with s t g E"
  | (stopped) D where "a = Stopped D" "usable s \<noteq> None" "sim_stopped (pf s) D"
  using assms by (cases a) (auto simp: sim_open_def)

lemma sim_down:
  assumes "sim (Down d) a"
  obtains D where "a = Stopped D" "sim_stopped d D"
  using assms by (cases a) auto

lemma open_with_stopped: "open_with s t g E \<Longrightarrow> sim_stopped (pf s) {g}"
  using sim_open_stopped [of s t "{g}"] by (auto simp: sim_open_def)

lemma sim_step:
  assumes "sim x a" "sys_step x ev y"
  shows "\<exists>a'. tx_step a ev a' \<and> sim y a'"
  using assms(2)
proof cases
  case (do_op c s r s')
  from assms(1) [unfolded do_op(1)] show ?thesis
  proof (cases rule: sim_running)
    case (live t g E)
    then show ?thesis using sim_op [OF live(2) do_op(4)] do_op(2,3) by simp
  next
    case (stopped D)
    note u = unusable_op [OF stopped(2) do_op(4)]
    have "tx_step a ev (Stopped D)" using u(3) stopped(1) do_op(2) by (auto intro: tx_stopped)
    moreover have "sim y (Stopped D)" using u(1,2) stopped(3) sim_stopped_same_file do_op(3) by simp
    ultimately show ?thesis by blast
  qed
next
  case (die s sc)
  from assms(1) [unfolded die(1)] show ?thesis
  proof (cases rule: sim_running)
    case (live t g E)
    then show ?thesis using die(2,3) open_with_stopped [OF live(2)] sim_stopped_restart tx_crash_open by (metis sim.simps(4))
  next
    case (stopped D)
    then show ?thesis using die(2,3) sim_stopped_restart tx_crash by (metis sim.simps(4))
  qed
next
  case (die_again d sc)
  obtain D where "a = Stopped D" "sim_stopped d D" using assms(1) [unfolded die_again(1)] by (rule sim_down)
  then show ?thesis using die_again(2,3) sim_stopped_restart tx_crash by (metis sim.simps(4))
next
  case (power_running s kept sc)
  from assms(1) [unfolded power_running(1)] show ?thesis
  proof (cases rule: sim_running)
    case (live t g E)
    then show ?thesis
      using power_loss_step [OF open_with_stopped [OF live(2)], of kept sc] power_running(2,3) tx_power_loss_open [of _ "{g}" t]
      by metis
  next
    case (stopped D)
    then show ?thesis
      using power_loss_step [OF stopped(3), of kept sc] power_running(2,3) tx_power_loss by metis
  qed
next
  case (power_down d kept sc)
  obtain D where D: "a = Stopped D" "sim_stopped d D" using assms(1) [unfolded power_down(1)] by (rule sim_down)
  then show ?thesis using power_loss_step [OF D(2), of kept sc] power_down(2,3) tx_power_loss by metis
next
  case (evict_running s gone)
  from assms(1) [unfolded evict_running(1)] show ?thesis
  proof (cases rule: sim_running)
    case (live t g E)
    have "open_with (s\<lparr>pf := evict gone (pf s)\<rparr>) t g E"
      using live(2) store_ok_evict keeps_evict knows_evict unfolding open_with_def
      by (elim conjE, intro conjI) (simp_all add: usable_None owned_None)
    then have "sim y a" using evict_running(3) live(1) by (auto simp: sim_open_def)
    then show ?thesis using evict_running(2) tx_evict by blast
  next
    case (stopped D)
    then have "sim y a" using evict_running(3) sim_stopped_evict by (simp add: usable_None)
    then show ?thesis using evict_running(2) tx_evict by blast
  qed
next
  case (evict_down d gone)
  then have "sim y a" using assms(1) sim_stopped_evict by (cases a) simp_all
  then show ?thesis using evict_down(2) tx_evict by blast
next
  case (reopen d synced s)
  obtain D where D: "a = Stopped D" "sim_stopped d D" using assms(1) [unfolded reopen(1)] by (rule sim_down)
  show ?thesis using opened_step [OF sim_OpenStore [OF D(2) reopen(4)]] D(1) reopen(2,3) by simp
next
  case (reopen_fails d synced e d' sc)
  obtain D where D: "a = Stopped D" "sim_stopped d D" using assms(1) [unfolded reopen_fails(1)] by (rule sim_down)
  show ?thesis using opened_step [OF sim_OpenStore [OF D(2) reopen_fails(4)]] D(1) reopen_fails(2,3) by simp
next
  case (create_opens d synced s)
  obtain D where D: "a = Stopped D" "sim_stopped d D" using assms(1) [unfolded create_opens(1)] by (rule sim_down)
  show ?thesis using opened_step [OF sim_CreateStore [OF D(2) create_opens(4)]] D(1) create_opens(2,3) by simp
next
  case (create_fails d synced e d' sc)
  obtain D where D: "a = Stopped D" "sim_stopped d D" using assms(1) [unfolded create_fails(1)] by (rule sim_down)
  show ?thesis using opened_step [OF sim_CreateStore [OF D(2) create_fails(4)]] D(1) create_fails(2,3) by simp
qed

interpretation store_sim: forward_simulation sys_step tx_step sim
  by unfold_locales (rule sim_step)

lemma sim_start: "sim (Down (emptyDev sc)) (Stopped {empty_tx})"
  using nascent_emptyDev by (simp add: sim_stopped_def)

end
