(* ===== verification/StoreRuns.thy ===== *)
theory StoreRuns
  imports StoreRefine
begin

text \<open>
  What the simulation says of the code: the properties of the page store, from a new file on, over every
  sequence of operations, faults, crashes and reopenings.
\<close>

section \<open>Runs\<close>

text \<open>A run starts on an empty file, under any schedule of faults.\<close>

definition store_run :: "event list \<Rightarrow> system \<Rightarrow> bool" where
  "store_run evs x \<longleftrightarrow> (\<exists>sc. steps sys_step (Down (emptyDev sc)) evs x)"

definition tx_run :: "event list \<Rightarrow> tx_state \<Rightarrow> bool" where
  "tx_run evs a \<longleftrightarrow> steps tx_step (Stopped {empty_tx}) evs a"

text \<open>The same with steps that change the durable contents only by a checkpoint.\<close>

definition ct_run :: "event list \<Rightarrow> tx_state \<Rightarrow> bool" where
  "ct_run evs a \<longleftrightarrow> steps ct_step (Stopped {empty_tx}) evs a"

lemma copy_on_write_run: "tx_run evs a \<Longrightarrow> copy_on_write evs \<Longrightarrow> ct_run evs a"
  unfolding tx_run_def ct_run_def copy_on_write_def
  by (erule (1) copy_on_write_steps) (simp add: spares_def)

lemma ct_run_whole: "ct_run evs a \<Longrightarrow> \<forall>p. Did (OpWrite p) FileFailed \<notin> set evs \<Longrightarrow> all_whole a"
  unfolding ct_run_def by (erule whole_steps) (simp_all add: whole_def empty_tx_def)

definition fault_free :: "Dev \<Rightarrow> bool" where
  "fault_free d \<longleftrightarrow> sched d = [] \<and> \<not> dev_closed d"

lemma run_simulated:
  assumes "store_run evs x"
  obtains a where "tx_run evs a" "sim x a"
  using assms store_sim.run_matched [OF _ sim_start] unfolding store_run_def tx_run_def by blast

lemma run_step: "store_run evs x \<Longrightarrow> sys_step x ev y \<Longrightarrow> store_run (evs @ [ev]) y"
  unfolding store_run_def by (auto simp: steps_append)

lemma run_op_step:
  "store_run evs (Running s) \<Longrightarrow> run_op c s = Some (r, s') \<Longrightarrow> store_run (evs @ [Did c r]) (Running s')"
  using run_step sys_step.do_op by blast

lemma run_open:
  assumes "store_run evs (Running s)" "usable s = None"
  obtains t g E where "tx_run evs (Open t {g})" "open_with s t g E"
proof -
  obtain a where a: "tx_run evs a" "sim (Running s) a" using run_simulated [OF assms(1)] by blast
  from a(2) show thesis
    by (cases rule: sim_running) (use a(1) that assms(2) in auto)
qed

lemma run_down:
  assumes "store_run evs (Down d)"
  obtains D where "tx_run evs (Stopped D)" "sim_stopped d D"
proof -
  obtain a where a: "tx_run evs a" "sim (Down d) a" using run_simulated [OF assms] by blast
  from sim_down [OF a(2)] show thesis using a(1) that by metis
qed

section \<open>Without faults\<close>

lemma StoreRead_known:
  assumes "open_with s t g E" "tpages t i = Some p"
  shows "StoreRead i s = (Inr q, s') \<Longrightarrow> q = p"
    "fault_free (pf s) \<Longrightarrow> StoreRead i s = (Inr p, s)"
proof -
  have i: "usable s = None" "owned i s = None" "agree (pf s) (unat i)" "live_page (pf s) i = p"
    using open_withD [OF assms(1)] assms(2) by (auto simp: knows_def)
  show "StoreRead i s = (Inr q, s') \<Longrightarrow> q = p"
    using i ReadPage_data [of "pf s" i q] by (auto simp: StoreRead_def split: prod.splits sum.splits)
  show "fault_free (pf s) \<Longrightarrow> StoreRead i s = (Inr p, s)"
    using i ReadPage_ok [of "pf s" i] by (simp add: StoreRead_def fault_free_def agree_def)
qed

lemma openFile_recovers:
  assumes "sim_stopped d D" "fault_free d"
  obtains s t where "OpenStore (Inr d) None = Some (Inr s)" "t \<in> D" "sim_open s t {t}" "fault_free (pf s)"
proof -
  have "\<exists>s. openFile d = Some (Inr s) \<and> fault_free (pf s)"
  proof (cases "nascent d \<and> D = {empty_tx}")
    case True
    then show ?thesis using openFile_nascent_ok [of d] assms(2) by (auto simp: fault_free_def)
  next
    case False
    then obtain C where "sound d C" using assms(1) unfolding sim_stopped_def by blast
    then show ?thesis using openFile_ok [of d C] assms(2) by (simp add: fault_free_def)
  qed
  then obtain s where s: "openFile d = Some (Inr s)" "fault_free (pf s)" by blast
  moreover have "OpenStore (Inr d) None = Some (Inr s)" using s(1) by (simp add: OpenStore_def)
  ultimately show thesis using that sim_openFile [OF assms(1)] by auto
qed

lemma fresh_store:
  obtains s where "CreateStore (Inr (emptyDev [])) None = Some (Inr s)"
    "store_run [Opened NoPage] (Running s)" "empty_store s" "fault_free (pf s)"
proof -
  let ?d = "emptyDev []"
  have d: "sched ?d = []" "\<not> dev_closed ?d" by (simp_all add: emptyDev_def)
  obtain s where s: "create ?d = Some (Inr s)" "fault_free (pf s)"
    using create_ok [OF d] by (auto simp: fault_free_def)
  have b: "isBlank ?d = (Inr True, ?d)"
    by (simp add: isBlank_def SizeFile_def emptyDev_def next_fault_def)
  have c: "CreateStore (Inr ?d) None = Some (Inr s)" using b s(1) by (simp add: CreateStore_def)
  have e: "empty_store s" using create_success [OF s(1)] by (simp add: empty_store_def)
  then have "sys_step (Down ?d) (Opened NoPage) (Running s)"
    using sys_step.create_opens [OF c] by (simp add: empty_store_def)
  then have "store_run [Opened NoPage] (Running s)"
    unfolding store_run_def by (intro exI [of _ "[]"]) simp
  then show thesis using that c e s(2) by blast
qed

section \<open>Operations succeed when nothing fails\<close>

lemma fault_free_file:
  "fault_free d \<Longrightarrow> SyncPages d = (e, d') \<Longrightarrow> e = None \<and> fault_free d'"
  "fault_free d \<Longrightarrow> Grow d f n = (e, d') \<Longrightarrow> e = None \<and> fault_free d'"
  "fault_free d \<Longrightarrow> is_page p \<Longrightarrow> WritePage d p = (e, d') \<Longrightarrow> e = None \<and> fault_free d'"
proof -
  show "fault_free d \<Longrightarrow> SyncPages d = (e, d') \<Longrightarrow> e = None \<and> fault_free d'"
    using SyncPages_ok [of d] by (auto simp: fault_free_def)
  show "fault_free d \<Longrightarrow> Grow d f n = (e, d') \<Longrightarrow> e = None \<and> fault_free d'"
    using Grow_ok [of d f n] by (auto simp: fault_free_def)
  show "fault_free d \<Longrightarrow> is_page p \<Longrightarrow> WritePage d p = (e, d') \<Longrightarrow> e = None \<and> fault_free d'"
    using WritePage_ok [of d p] by (auto simp: fault_free_def log_write_def)
qed

lemma write_lists_works:
  "write_lists d entries k ls = Some (e, d') \<Longrightarrow> fault_free d \<Longrightarrow> e = None \<and> fault_free d'"
proof (induction ls arbitrary: d k)
  case (Cons i ls)
  obtain p where p: "list_page entries k i ls = Some p" using Cons.prems(1) by (auto split: option.splits)
  have "k * 1019 \<le> length entries"
    using p by (auto simp: list_page_def Let_def slice_of_def split: if_splits option.splits)
  then have "is_page p" by (rule list_page_written [of k entries i ls]) (use p in \<open>auto simp: list_ok_def\<close>)
  moreover obtain e1 d1 where w: "WritePage d p = (e1, d1)" by fastforce
  ultimately have "e1 = None" "fault_free d1" using fault_free_file(3) Cons.prems(2) by blast+
  then show ?case using Cons.IH [of d1 "Suc k"] Cons.prems p w by simp
qed simp

text \<open>Page numbers run out only at the end of the 32-bit range.\<close>

lemma room_for_page:
  assumes "unat (i :: u32) + Suc n \<le> 4294967295"
  shows "\<not> MaxPages \<le> i" "unat (i + 1) = Suc (unat i)"
    "f \<le> i \<Longrightarrow> i \<le> f \<Longrightarrow> \<not> growTo f \<le> i"
proof -
  show m: "\<not> MaxPages \<le> i" using assms by (simp add: MaxPages_def page_le_iff)
  show "unat (i + 1) = Suc (unat i)" by (rule MaxPages_less [OF m])
  assume "f \<le> i" "i \<le> f"
  then have "f = i" by simp
  then show "\<not> growTo f \<le> i" using assms by (simp add: page_le_iff growTo_unat)
qed

lemma plan_lists_works:
  "plan_lists d fixed p = (r, d') \<Longrightarrow> fault_free d \<Longrightarrow> p_next p \<le> p_file p \<Longrightarrow>
   unat (p_next p) + (pagesFor (length (p_free p) + fixed) - length (p_lists p)) \<le> 4294967295 \<Longrightarrow>
   (\<exists>q. r = Inr q) \<and> fault_free d'"
proof (induction d fixed p arbitrary: r d' rule: plan_lists.induct)
  case (1 d fixed p)
  note eq = 1(4) [unfolded plan_lists.simps [of d fixed p]]
  let ?n = "pagesFor (length (p_free p) + fixed)" and ?i = "p_next p"
  show ?case
  proof (cases "length (p_lists p) < ?n")
    case more: True
    show ?thesis
    proof (cases "p_free p = []")
      case False
      let ?p = "p\<lparr>p_free := butlast (p_free p), p_lists := p_lists p @ [last (p_free p)]\<rparr>"
      have le: "pagesFor (length (butlast (p_free p)) + fixed) \<le> ?n" by (rule pagesFor_mono) simp
      then have "unat (p_next ?p) + (pagesFor (length (p_free ?p) + fixed) - length (p_lists ?p)) \<le> 4294967295"
        using 1(7) by simp
      then show ?thesis using 1(1) [OF more False, of r d'] 1(5,6) more eq False by simp
    next
      case True
      obtain n where n: "unat ?i + Suc n \<le> 4294967295" "?n - length (p_lists p) = Suc n"
        using 1(7) more by (metis Suc_diff_Suc)
      note room = room_for_page [OF n(1)]
      have le: "unat (?i + 1) + (pagesFor (length (p_free p) + fixed) - Suc (length (p_lists p))) \<le> 4294967295"
        using n room(2) by simp
      show ?thesis
      proof (cases "p_file p \<le> ?i")
        case full: True
        have g: "\<not> growTo (p_file p) \<le> ?i" using room(3) full 1(6) by blast
        obtain e d1 where gr: "Grow d (p_file p) (growTo (p_file p)) = (e, d1)" by fastforce
        then have e: "e = None" "fault_free d1" using fault_free_file(2) 1(5) by blast+
        let ?p = "p\<lparr>p_file := growTo (p_file p), p_grew := p_grew p + 1, p_next := ?i + 1, p_lists := p_lists p @ [?i]\<rparr>"
        have "plan_lists d1 fixed ?p = (r, d')" using eq more True full g room(1) gr e by (simp add: Let_def)
        moreover have "p_next ?p \<le> p_file ?p" using g room(2) by (simp add: page_le_iff)
        moreover have "unat (p_next ?p) + (pagesFor (length (p_free ?p) + fixed) - length (p_lists ?p)) \<le> 4294967295"
          using le by simp
        ultimately show ?thesis
          using 1(2) [OF more _ refl room(1) full refl g gr [symmetric] e(1), of r d'] True e by auto
      next
        case False
        let ?p = "p\<lparr>p_next := ?i + 1, p_lists := p_lists p @ [?i]\<rparr>"
        have "plan_lists d fixed ?p = (r, d')" using eq more True False room(1) by (simp add: Let_def)
        moreover have "p_next ?p \<le> p_file ?p" using False room(2) by (simp add: page_le_iff)
        moreover have "unat (p_next ?p) + (pagesFor (length (p_free ?p) + fixed) - length (p_lists ?p)) \<le> 4294967295"
          using le by simp
        ultimately show ?thesis
          using 1(3) [OF more _ refl room(1) False, of r d'] True 1(5) by auto
      qed
    qed
  qed (use eq 1(5) in auto)
qed

lemma checkpoint_works:
  assumes "fault_free (pf s)" "nextPage s \<le> filePages s"
    "unat (nextPage s) + pagesFor (length (free s) + fixed_of s) \<le> 4294967295"
  shows "\<exists>s'. checkpoint s = Some (None, s') \<and> fault_free (pf s')"
proof -
  obtain e0 d0 where s0: "SyncPages (pf s) = (e0, d0)" by fastforce
  have e0: "e0 = None" "fault_free d0" using fault_free_file(1) assms(1) s0 by blast+
  obtain r d1 where p: "plan_lists d0 (fixed_of s) (first_plan s) = (r, d1)" by fastforce
  have "(\<exists>q. r = Inr q) \<and> fault_free d1"
    by (rule plan_lists_works [OF p e0(2)]) (use assms in \<open>simp_all add: first_plan_def\<close>)
  then obtain q where q: "r = Inr q" "fault_free d1" by blast
  obtain e2 d2 where w: "write_lists d1 (new_entries q s) 0 (p_lists q) = Some (e2, d2)"
    using write_new_lists_total p q(1) by blast
  have e2: "e2 = None" "fault_free d2" using write_lists_works [OF w q(2)] by blast+
  obtain e3 d3 where s3: "(if p_lists q \<noteq> [] then SyncPages d2 else (None, d2)) = (e3, d3)" by fastforce
  have e3: "e3 = None" "fault_free d3"
    using s3 e2(2) fault_free_file(1) [of d2 e3 d3] by (auto split: if_splits)
  let ?m = "next_meta q (new_entries q s) s"
  obtain e4 d4 where w4: "WritePage d3 (encodeMeta ?m) = (e4, d4)" by fastforce
  have e4: "e4 = None" "fault_free d4" using fault_free_file(3) [OF e3(2) _ w4] by simp_all
  obtain e5 d5 where s5: "SyncPages d4 = (e5, d5)" by fastforce
  have e5: "e5 = None" "fault_free d5" using fault_free_file(1) [OF e4(2) s5] by blast+
  obtain s' where c: "commit q (new_entries q s) (s\<lparr>pf := d3\<rparr>) = (None, s')" "pf s' = d5"
    using w4 e4(1) s5 e5(1) unfolding commit_eq by simp
  have "checkpoint s = Some (None, s')"
    using s0 e0(1) p q(1) w e2(1) s3 e3(1) c(1) unfolding checkpoint_eq by simp
  then show ?thesis using c(2) e5(2) by blast
qed

lemma Checkpoint_works:
  assumes "store_ok s E" "usable s = None" "fault_free (pf s)"
    "unat (nextPage s) + pagesFor (length (free s) + fixed_of s) \<le> 4294967295"
  shows "\<exists>s'. Checkpoint s = Some (None, s') \<and> fault_free (pf s')"
proof -
  have "nextPage s \<le> filePages s" using assms(1) by (simp add: store_ok_def mem_ok_def)
  then show ?thesis using checkpoint_works [OF assms(3)] assms(2,4) by (force simp: Checkpoint_def)
qed

lemma pick_page_works:
  assumes "fault_free (pf s)" "mem_ok s" "unat (nextPage s) < 4294967295"
  shows "\<exists>i s'. pick_page s = (Inr i, s') \<and> fault_free (pf s')"
proof -
  have i: "\<not> MaxPages \<le> nextPage s" using room_for_page(1) [of "nextPage s" 0] assms(3) by simp
  have f: "nextPage s \<le> filePages s" using assms(2) by (simp add: mem_ok_def)
  have g: "\<not> growTo (filePages s) \<le> nextPage s" if "filePages s \<le> nextPage s"
    using room_for_page(3) [of "nextPage s" 0] assms(3) that f by simp
  obtain e d where "Grow (pf s) (filePages s) (growTo (filePages s)) = (e, d)" by fastforce
  moreover then have "e = None" "fault_free d" using fault_free_file(2) assms(1) by blast+
  ultimately show ?thesis
    using i g assms(1) by (simp add: pick_page_def Let_def)
qed

lemma Allocate_works:
  assumes "fault_free (pf s)" "mem_ok s" "usable s = None" "unat (nextPage s) < 4294967295"
  shows "\<exists>p s'. Allocate k s = (Inr p, s') \<and> fault_free (pf s')"
proof -
  obtain i s1 where p: "pick_page s = (Inr i, s1)" "fault_free (pf s1)"
    using pick_page_works [OF assms(1,2,4)] by blast
  obtain e d where w: "WritePage (pf s1) (NewPage i k) = (e, d)" by fastforce
  have "e = None" "fault_free d" using fault_free_file(3) [OF p(2) is_page_NewPage w] by simp_all
  then show ?thesis using p(1) w assms(3) by (simp add: Allocate_def Let_def)
qed

lemma StoreWrite_works:
  assumes "fault_free (pf s)" "usable s = None" "owned (ID p) s = None" "is_page p"
  shows "\<exists>s'. StoreWrite p s = Some (None, s') \<and> fault_free (pf s')"
proof -
  obtain e d where w: "WritePage (pf s) p = (e, d)" by fastforce
  have "e = None" "fault_free d" using fault_free_file(3) [OF assms(1,4) w] by simp_all
  then show ?thesis using assms w by (simp add: StoreWrite_def is_page_def)
qed

text \<open>A session on a new file: a page is allocated, made the root, and a checkpoint makes it durable.\<close>

lemma first_session:
  obtains s0 p s1 s2 s3 where "store_run [Opened NoPage] (Running s0)" "empty_store s0" "fault_free (pf s0)"
    "Allocate k s0 = (Inr p, s1)" "open_with s1 (put_page (ID p) (NewPage (ID p) k) empty_tx) empty_tx []"
    "SetRoot (ID p) s1 = (None, s2)"
    "open_with s2 ((put_page (ID p) (NewPage (ID p) k) empty_tx)\<lparr>troot := ID p\<rparr>) empty_tx []"
    "fault_free (pf s2)"
    "Checkpoint s2 = Some (None, s3)" "fault_free (pf s3)"
    "store_run [Opened NoPage, Did (OpAllocate k) (GotPage p), Did (OpSetRoot (ID p)) Done] (Running s2)"
    "store_run [Opened NoPage, Did (OpAllocate k) (GotPage p), Did (OpSetRoot (ID p)) Done,
       Did OpCheckpoint Done] (Running s3)"
proof -
  obtain s0 where s0: "store_run [Opened NoPage] (Running s0)" "empty_store s0" "fault_free (pf s0)"
    using fresh_store by blast
  have e: "store_ok s0 []" "mem_ok s0" "usable s0 = None" "nextPage s0 = 1"
    and z: "free s0 = []" "pending s0 = []" "listPage s0 = []"
    using s0(2) by (auto simp: empty_store_def store_ok_def)
  have o: "open_with s0 empty_tx empty_tx []" by (rule open_empty [OF s0(2)])
  obtain p s1 where a: "Allocate k s0 = (Inr p, s1)" "fault_free (pf s1)"
    using Allocate_works [OF s0(3) e(2,3), of k] e(4) by auto
  note A = Allocate_ok [OF e(1) a(1)]
  have o1: "open_with s1 (put_page (ID p) (NewPage (ID p) k) empty_tx) empty_tx []"
    using sim_allocate [OF o a(1), unfolded sum.case] by blast
  have r1: "store_run [Opened NoPage, Did (OpAllocate k) (GotPage p)] (Running s1)"
    using run_op_step [OF s0(1), of "OpAllocate k"] a(1) by (simp add: page_answer_def)
  have nx: "free s1 = [] \<and> nextPage s1 = 2"
    using a(1) e(3,4) z by (auto simp: Allocate_def pick_page_def Let_def split: if_splits prod.splits option.splits)
  have sr: "SetRoot (ID p) s1 = (None, s1\<lparr>root := ID p, dirty := True\<rparr>)"
    using A(6,11) by (simp add: SetRoot_def)
  let ?s2 = "s1\<lparr>root := ID p, dirty := True\<rparr>"
  have o2: "open_with ?s2 ((put_page (ID p) (NewPage (ID p) k) empty_tx)\<lparr>troot := ID p\<rparr>) empty_tx []"
    using sim_set_root(1) [OF o1 sr] by simp
  have r2: "store_run [Opened NoPage, Did (OpAllocate k) (GotPage p), Did (OpSetRoot (ID p)) Done] (Running ?s2)"
    using run_op_step [OF r1, of "OpSetRoot (ID p)"] sr by (simp add: answer_def)
  have "pagesFor 0 = 0" by (simp add: pagesFor_def)
  then have "\<exists>s'. Checkpoint ?s2 = Some (None, s') \<and> fault_free (pf s')"
    using Checkpoint_works [OF open_withD(1,8) [OF o2]] a(2) nx A(13,14) z by (simp add: fixed_of_def)
  then obtain s3 where c: "Checkpoint ?s2 = Some (None, s3)" "fault_free (pf s3)" by blast
  have "store_run [Opened NoPage, Did (OpAllocate k) (GotPage p), Did (OpSetRoot (ID p)) Done,
      Did OpCheckpoint Done] (Running s3)"
    using run_op_step [OF r2, of OpCheckpoint] c(1) by (simp add: answer_def)
  then show thesis using that s0 a o1 sr o2 c r2 by simp
qed

end
