(* ===== verification/StoreTheorems.thy ===== *)
theory StoreTheorems
  imports StoreRuns
begin

text \<open>
  The properties of the page store.
\<close>

section \<open>Transactions\<close>

text \<open>What a client finds in a store opened on contents \<open>t\<close>: the root, exactly the pages in use, every
  page whose contents are known, and nothing for \<open>Verify\<close> to complain about.\<close>

definition recovered :: "Store \<Rightarrow> Tx \<Rightarrow> bool" where
  "recovered s t \<longleftrightarrow>
     Verify s = (None, s) \<and> root s = troot t \<and> (\<forall>i. owned i s = None \<longleftrightarrow> i \<in> tused t)
     \<and> (\<forall>i p. tpages t i = Some p \<longrightarrow> StoreRead i s = (Inr p, s))"

lemma open_recovered:
  assumes "sim_open s t {g}" "fault_free (pf s)"
  shows "recovered s t"
proof -
  obtain E where o: "open_with s t g E" using assms(1) by (auto simp: sim_open_def)
  note D = open_withD [OF o]
  have "Verify s = (None, s)"
    using Verify_passes [OF D(1,8)] assms(2) by (simp add: fault_free_def)
  then show ?thesis
    using D(7,9) StoreRead_known(2) [OF o _ assms(2)] by (simp add: recovered_def)
qed

lemma reopened:
  assumes "sim_stopped d D" "fault_free d"
  shows "\<exists>s t. OpenStore (Inr d) None = Some (Inr s) \<and> t \<in> D \<and> recovered s t"
proof -
  obtain s t where s: "OpenStore (Inr d) None = Some (Inr s)" "t \<in> D" "sim_open s t {t}" "fault_free (pf s)"
    by (rule openFile_recovers [OF assms])
  then show ?thesis using open_recovered by blast
qed

lemma fault_free_power_loss: "fault_free (power_loss kept [] d)"
  by (simp add: fault_free_def power_loss_def Let_def)

text \<open>Claim C2. The page store is transactional.  Whatever a client calls in whatever order, whichever calls
  of the file fail, whenever the process dies or the power goes and whatever part of the unconfirmed
  writes the drive then keeps, the events it sees are those of a store of pages in which reads see the
  last write, pages are handed out to one owner at a time, what is opened is what was last committed,
  and a checkpoint that failed to say so left the old contents or the new.  As long as the client only
  writes to pages it was given since the last checkpoint, the durable contents change at a checkpoint
  (\<open>Close\<close> included) and nowhere else, and then to the live ones at once.  A write to an older page goes
  to the page in place: of the durable contents it leaves everything but that page.\<close>

theorem store_is_transactional:
  assumes "store_run evs x"
  shows "\<exists>a. tx_run evs a \<and> sim x a \<and> (copy_on_write evs \<longrightarrow> ct_run evs a)"
  using run_simulated [OF assms] copy_on_write_run by blast

lemma copy_on_write_session:
  "copy_on_write [Opened NoPage, Did (OpAllocate k) (GotPage p), Did (OpWrite q) r, Did (OpSetRoot i) Done,
      Did OpCheckpoint Done] \<longleftrightarrow> r \<in> {Done, FileFailed} \<longrightarrow> ID q = ID p"
  "copy_on_write [Opened NoPage, Did (OpAllocate k) (GotPage p), Did (OpSetRoot i) Done, Did OpCheckpoint Done]"
  "copy_on_write [Opened NoPage, Did (OpAllocate k) (GotPage p), Did (OpSetRoot i) Done]"
  by (simp_all add: copy_on_write_def)

theorem store_is_transactional_witness:
  "\<exists>p s. store_run [Opened NoPage, Did (OpAllocate 1) (GotPage p), Did (OpSetRoot (ID p)) Done, Did OpCheckpoint Done]
           (Running s)
     \<and> (\<exists>a. ct_run [Opened NoPage, Did (OpAllocate 1) (GotPage p), Did (OpSetRoot (ID p)) Done, Did OpCheckpoint Done] a
          \<and> sim (Running s) a)"
  using first_session [of 1] store_is_transactional copy_on_write_session(2) by metis

text \<open>The exception is the code's: a page of the last checkpoint, written in place and synced, comes back
  changed after a power loss although no checkpoint followed.\<close>

lemma in_place_stopped:
  assumes "open_with s t g E" "StoreWrite q s = Some (None, s1)" "SyncStore s1 = (None, s2)" "ID q \<in> tused g"
  shows "sim_stopped (pf s2) {put_page (ID q) q g}"
proof -
  let ?g = "put_page (ID q) q g"
  have o1: "open_with s1 (put_page (ID q) q t) (forget (ID q) g) E" using sim_write(1) [OF assms(1,2)] by simp
  have o2: "open_with s2 (put_page (ID q) q t) (forget (ID q) g) E" using sim_sync [OF o1 assms(3)] by simp
  have "agree (pf s1) (unat (ID q))" using open_withD(5) [OF o1] by (simp add: knows_def put_page_def)
  then have st: "PageFile.stable (pf s2) (unat (ID q))"
    using SyncStore_ok [OF open_withD(1) [OF o1] assms(3)] by auto
  have live: "live_page (pf s2) (ID q) = q" using open_withD(5) [OF o2] by (simp add: knows_def put_page_def)
  have "tpages (forget (ID q) g) i = Some b" if "tpages ?g i = Some b" "i \<noteq> ID q" for i b
    using that by (simp add: put_page_def forget_def)
  then have "keeps (pf s2) ?g"
    using open_withD(6) [OF o2] st live unfolding keeps_def
    by (metis (mono_tags, lifting) fun_upd_same option.inject put_page_def select_convs(3) surjective update_convs(3))
  moreover have "matches (durable s2, E, listPage s2) ?g"
    using open_withD(10) [OF o2] assms(4) by (auto simp: matches_def put_page_def forget_def split: if_splits)
  ultimately show ?thesis
    using disk_ok_sound [of s2 E] open_withD(1) [OF o2] unfolding sim_stopped_def store_ok_def
    by (intro disjI2 exI [of _ "{((durable s2, E, listPage s2), ?g)}"]) simp
qed

lemma write_in_place_survives:
  "\<exists>p q s s1 s2. store_run [Opened NoPage, Did (OpAllocate 1) (GotPage p), Did (OpSetRoot (ID p)) Done, Did OpCheckpoint Done]
           (Running s)
     \<and> ID q = ID p \<and> q \<noteq> p \<and> StoreWrite q s = Some (None, s1) \<and> SyncStore s1 = (None, s2)
     \<and> (\<forall>kept. \<exists>s3. OpenStore (Inr (power_loss kept [] (pf s2))) None = Some (Inr s3)
          \<and> StoreRead (ID p) s3 = (Inr q, s3))"
proof -
  obtain s0 p s1 s2 s where r: "empty_store s0" "Allocate 1 s0 = (Inr p, s1)"
    "open_with s2 ((put_page (ID p) (NewPage (ID p) 1) empty_tx)\<lparr>troot := ID p\<rparr>) empty_tx []"
    "Checkpoint s2 = Some (None, s)" "fault_free (pf s)"
    "store_run [Opened NoPage, Did (OpAllocate 1) (GotPage p), Did (OpSetRoot (ID p)) Done, Did OpCheckpoint Done]
       (Running s)"
    using first_session [of 1] by metis
  let ?t = "(put_page (ID p) (NewPage (ID p) 1) empty_tx)\<lparr>troot := ID p\<rparr>" and ?q = "NewPage (ID p) 2"
  obtain E where o: "open_with s ?t ?t E" using sim_checkpoint [OF r(3,4)] by auto
  have "store_ok s0 []" using r(1) by (simp add: empty_store_def)
  then have p: "p = NewPage (ID p) 1" using Allocate_ok(7) r(2) by blast
  have "KindOf p = 1" using arg_cong [OF p, of KindOf] by (simp add: page_simps)
  moreover have "KindOf ?q = 2" by (simp add: page_simps)
  ultimately have ne: "?q \<noteq> p" by force
  have q: "ID ?q = ID p" by (simp add: page_simps)
  have u: "ID p \<in> tused ?t" by (simp add: put_page_def)
  have own: "owned (ID ?q) s = None" using u open_withD(9) [OF o] q by simp
  obtain s4 where w: "StoreWrite ?q s = Some (None, s4)" "fault_free (pf s4)"
    using StoreWrite_works [OF r(5) open_withD(8) [OF o] own is_page_NewPage] by blast
  obtain e d where sy: "SyncPages (pf s4) = (e, d)" by fastforce
  have "usable s4 = None" using sim_write(1) [OF o w(1)] open_withD(8) by blast
  then have sy: "SyncStore s4 = (None, s4\<lparr>pf := d\<rparr>)"
    using sy fault_free_file(1) [OF w(2) sy] by (simp add: SyncStore_def)
  have u': "ID ?q \<in> tused ?t" using u q by simp
  have "\<exists>s3. OpenStore (Inr (power_loss kept [] d)) None = Some (Inr s3) \<and> StoreRead (ID p) s3 = (Inr ?q, s3)" for kept
  proof -
    have "sim_stopped (power_loss kept [] d) {put_page (ID ?q) ?q ?t}"
      using sim_stopped_power_loss [OF in_place_stopped [OF o w(1) sy u']] by simp
    then obtain s3 where "OpenStore (Inr (power_loss kept [] d)) None = Some (Inr s3)"
      "recovered s3 (put_page (ID ?q) ?q ?t)"
      using reopened [OF _ fault_free_power_loss] by blast
    then show ?thesis using q by (auto simp: recovered_def put_page_def)
  qed
  then have "\<forall>kept. \<exists>s3. OpenStore (Inr (power_loss kept [] (pf (s4\<lparr>pf := d\<rparr>)))) None = Some (Inr s3)
      \<and> StoreRead (ID p) s3 = (Inr ?q, s3)" by simp
  then show ?thesis using r(6) q ne w(1) sy by blast
qed

text \<open>Claim C3. Recovery: whatever happened before, once nothing fails any more the file opens, the store
  passes \<open>Verify\<close>, and it holds one of the contents the transactional store may be reopened with: the
  root, exactly the pages in use, and every page it knows the contents of reads back.\<close>

theorem always_recovers:
  assumes "store_run evs (Down d)" "fault_free d"
  shows "\<exists>D t s. tx_run evs (Stopped D) \<and> t \<in> D \<and> OpenStore (Inr d) None = Some (Inr s) \<and> recovered s t"
proof -
  obtain D where D: "tx_run evs (Stopped D)" "sim_stopped d D" using run_down [OF assms(1)] by blast
  then show ?thesis using reopened [OF D(2) assms(2)] by blast
qed

text \<open>The only contents the first session may be reopened with, after a power loss.\<close>

lemma first_session_spec:
  assumes "tx_run [Opened NoPage, Did (OpAllocate k) (GotPage p), Did (OpSetRoot (ID p)) Done,
      Did OpCheckpoint Done, PowerLoss] (Stopped D)"
  shows "D = {(put_page (ID p) p empty_tx)\<lparr>troot := ID p\<rparr>}"
  using assms by (auto simp: tx_run_def page_simps elim!: tx_step_open tx_step_stopped)

theorem always_recovers_witness:
  "\<exists>p d s. store_run [Opened NoPage, Did (OpAllocate 1) (GotPage p), Did (OpSetRoot (ID p)) Done,
        Did OpCheckpoint Done, PowerLoss] (Down d)
     \<and> OpenStore (Inr d) None = Some (Inr s) \<and> root s = ID p \<and> StoreRead (ID p) s = (Inr p, s)"
proof -
  obtain p s where r: "store_run [Opened NoPage, Did (OpAllocate 1) (GotPage p), Did (OpSetRoot (ID p)) Done,
      Did OpCheckpoint Done] (Running s)"
    using first_session [of 1] by metis
  let ?d = "power_loss (\<lambda>i k. False) [] (pf s)"
  have d: "store_run [Opened NoPage, Did (OpAllocate 1) (GotPage p), Did (OpSetRoot (ID p)) Done,
      Did OpCheckpoint Done, PowerLoss] (Down ?d)"
    using run_step [OF r sys_step.power_running [of s "\<lambda>i k. False" "[]"]] by simp
  obtain D t s' where o: "tx_run [Opened NoPage, Did (OpAllocate 1) (GotPage p), Did (OpSetRoot (ID p)) Done,
      Did OpCheckpoint Done, PowerLoss] (Stopped D)" "t \<in> D"
    "OpenStore (Inr ?d) None = Some (Inr s')" "recovered s' t"
    using always_recovers [OF d fault_free_power_loss] by blast
  have "t = (put_page (ID p) p empty_tx)\<lparr>troot := ID p\<rparr>" using first_session_spec [OF o(1)] o(2) by simp
  then have "root s' = ID p" "StoreRead (ID p) s' = (Inr p, s')"
    using o(4) by (simp_all add: recovered_def put_page_def)
  then show ?thesis using d o(3) by blast
qed

text \<open>Claim C4. A checkpoint is atomic.  Let the power go right after \<open>Checkpoint\<close> returned, with any part
  of the unconfirmed writes on the drive: the file opens and holds the old durable contents or the
  live ones, and the live ones when \<open>Checkpoint\<close> reported success: root, pages in use, and every page
  whose contents are known.  They are all known, in the old contents and in the live ones, when the
  client wrote only to pages it was given since the last checkpoint and no \<open>Write\<close> failed; and then the
  old contents are those of the last checkpoint.  A page of the last checkpoint that was written in
  place has no known old contents.\<close>

theorem checkpoint_is_atomic:
  assumes "store_run evs (Running s)" "usable s = None" "Checkpoint s = Some (r, s')"
  shows "\<exists>t g. tx_run evs (Open t {g})
    \<and> (\<forall>kept. \<exists>s2 c. OpenStore (Inr (power_loss kept [] (pf s'))) None = Some (Inr s2) \<and> recovered s2 c
         \<and> (if r = None then c = t else c \<in> {t, g}))
    \<and> (copy_on_write evs \<longrightarrow> ct_run evs (Open t {g})
         \<and> ((\<forall>p. Did (OpWrite p) FileFailed \<notin> set evs) \<longrightarrow> dom (tpages t) = tused t \<and> dom (tpages g) = tused g))"
proof -
  obtain t g E where o: "tx_run evs (Open t {g})" "open_with s t g E" using run_open [OF assms(1,2)] by blast
  have "\<exists>D. sim_stopped (pf s') D \<and> (if r = None then D = {t} else D \<subseteq> {t, g})"
    using sim_checkpoint [OF o(2) assms(3)]
  proof (elim disjE conjE exE)
    fix E' assume "r = None" "open_with s' t t E'"
    then show ?thesis using open_with_stopped by auto
  next
    fix e assume "r = Some e" "open_with s' t g E"
    then show ?thesis using open_with_stopped by (intro exI [of _ "{g}"]) simp
  qed auto
  then obtain D where D: "sim_stopped (pf s') D" "if r = None then D = {t} else D \<subseteq> {t, g}" by blast
  have "\<exists>s2 c. OpenStore (Inr (power_loss kept [] (pf s'))) None = Some (Inr s2) \<and> recovered s2 c
      \<and> (if r = None then c = t else c \<in> {t, g})" for kept
  proof -
    obtain c where c: "c \<in> D" "sim_stopped (power_loss kept [] (pf s')) {c}"
      using sim_stopped_power_loss [OF D(1)] by blast
    then show ?thesis using reopened [OF c(2) fault_free_power_loss] D(2) by (auto split: if_splits)
  qed
  moreover have "copy_on_write evs \<longrightarrow> ct_run evs (Open t {g})
      \<and> ((\<forall>p. Did (OpWrite p) FileFailed \<notin> set evs) \<longrightarrow> dom (tpages t) = tused t \<and> dom (tpages g) = tused g)"
    using copy_on_write_run [OF o(1)] ct_run_whole [of evs "Open t {g}"] by (auto simp: whole_def)
  ultimately show ?thesis using o(1) by blast
qed

lemma first_checkpoint:
  obtains p s s' where "store_run [Opened NoPage, Did (OpAllocate k) (GotPage p), Did (OpSetRoot (ID p)) Done] (Running s)"
    "usable s = None" "Checkpoint s = Some (None, s')"
  using first_session [of k] open_withD(8) by metis

theorem checkpoint_is_atomic_witness:
  "\<exists>p s s' t. store_run [Opened NoPage, Did (OpAllocate 1) (GotPage p), Did (OpSetRoot (ID p)) Done] (Running s)
     \<and> Checkpoint s = Some (None, s') \<and> dom (tpages t) = tused t
     \<and> (\<forall>kept. \<exists>s2. OpenStore (Inr (power_loss kept [] (pf s'))) None = Some (Inr s2) \<and> recovered s2 t)"
proof -
  obtain p s s' where r: "store_run [Opened NoPage, Did (OpAllocate 1) (GotPage p), Did (OpSetRoot (ID p)) Done] (Running s)"
    "usable s = None" "Checkpoint s = Some (None, s')"
    by (rule first_checkpoint)
  obtain t g where t: "dom (tpages t) = tused t"
    "\<forall>kept. \<exists>s2 c. OpenStore (Inr (power_loss kept [] (pf s'))) None = Some (Inr s2) \<and> recovered s2 c \<and> c = t"
    using checkpoint_is_atomic [OF r] copy_on_write_session(3) [of 1 p "ID p"] by auto
  then show ?thesis using r by blast
qed

text \<open>Claim C13. A \<open>Close\<close> that returns no error has made everything durable: whatever happens to the file's
  cache afterwards, it opens with the contents the store had.\<close>

theorem close_makes_durable:
  assumes "store_run evs (Running s)" "usable s = None" "CloseStore s = Some (None, s')"
  shows "\<exists>t g. tx_run evs (Open t {g})
    \<and> (\<forall>kept. \<exists>s2. OpenStore (Inr (power_loss kept [] (pf s'))) None = Some (Inr s2) \<and> recovered s2 t)"
proof -
  obtain t g E where o: "tx_run evs (Open t {g})" "open_with s t g E" using run_open [OF assms(1,2)] by blast
  have "sim_stopped (pf s') {t}" using sim_close(2) [OF o(2) assms(3)] by auto
  then have "\<exists>s2. OpenStore (Inr (power_loss kept [] (pf s'))) None = Some (Inr s2) \<and> recovered s2 t" for kept
    using sim_stopped_power_loss reopened [OF _ fault_free_power_loss] by (metis singletonD)
  then show ?thesis using o(1) by blast
qed

lemma ClosePages_works: "fault_free d \<Longrightarrow> \<exists>d'. ClosePages d = (None, d')"
  by (simp add: ClosePages_def CloseFile_def fault_free_def next_fault_def)

lemma first_close:
  assumes "open_with s t g E" "Checkpoint s = Some (None, s1)" "fault_free (pf s)" "fault_free (pf s1)"
  shows "\<exists>s'. CloseStore s = Some (None, s')"
proof -
  obtain d d1 where d: "ClosePages (pf s) = (None, d)" "ClosePages (pf s1) = (None, d1)"
    using ClosePages_works assms(3,4) by meson
  obtain E' where "open_with s1 t t E'" using sim_checkpoint [OF assms(1,2)] by auto
  then have "poisoned s1 = None" using open_withD(8) by (simp add: usable_None)
  then show ?thesis
    using assms(2) open_withD(8) [OF assms(1)] d by (auto simp: CloseStore_def usable_None)
qed

theorem close_makes_durable_witness:
  "\<exists>p s s' t. store_run [Opened NoPage, Did (OpAllocate 1) (GotPage p), Did (OpSetRoot (ID p)) Done] (Running s)
     \<and> CloseStore s = Some (None, s')
     \<and> (\<forall>kept. \<exists>s2. OpenStore (Inr (power_loss kept [] (pf s'))) None = Some (Inr s2) \<and> recovered s2 t)"
proof -
  obtain p s t g E s1 where r: "store_run [Opened NoPage, Did (OpAllocate 1) (GotPage p), Did (OpSetRoot (ID p)) Done] (Running s)"
    "open_with s t g E" "Checkpoint s = Some (None, s1)" "fault_free (pf s)" "fault_free (pf s1)"
    using first_session [of 1] by metis
  obtain s' where c: "CloseStore s = Some (None, s')"
    using first_close [OF r(2-5)] by blast
  then show ?thesis using close_makes_durable [OF r(1) open_withD(8) [OF r(2)] c] r(1) c by fastforce
qed

section \<open>The invariant of a running store\<close>

text \<open>Claim C11. In every store a run can reach, each page below \<open>nextPage\<close> is in use, free, pending or part of
  the free list, and only one of these; \<open>status\<close> says which; only pages the last checkpoint does not
  use are handed out again; the root is a page in use; the file holds every page; and the number of
  pages in use that \<open>Describe\<close> prints is the number of pages in use.\<close>

theorem pages_have_one_state:
  assumes "store_run evs (Running s)" "usable s = None"
  shows "distinct (free s @ pending s @ listPage s)
    \<and> (\<forall>i \<in> set (free s @ pending s @ listPage s). MetaPage < i \<and> i < nextPage s)
    \<and> (\<forall>i. status s i = (if i \<in> set (free s) then Some stFree
            else if i \<in> set (pending s) then Some stPending
            else if i \<in> set (listPage s) then Some stFreeList else None))
    \<and> (root s = NoPage \<or> owned (root s) s = None)
    \<and> nextPage s \<le> filePages s \<and> PageSize * unat (filePages s) \<le> length (live (pf s))
    \<and> used_pages s = int (card {i. owned i s = None})
    \<and> (\<exists>t g. tx_run evs (Open t {g}) \<and> tused t = {i. owned i s = None} \<and> set (free s) \<inter> tused g = {})"
proof -
  obtain t g E where o: "tx_run evs (Open t {g})" "open_with s t g E" using run_open [OF assms] by blast
  note D = open_withD [OF o(2)]
  have m: "mem_ok s" "file_ok s" "set (free s) \<subseteq> set E"
    using D(1) by (simp_all add: store_ok_def disk_ok_def)
  have "set (free s) \<inter> tused g = {}" using D(10) m(3) by (auto simp: matches_def)
  then have "\<exists>t g. tx_run evs (Open t {g}) \<and> tused t = {i. owned i s = None} \<and> set (free s) \<inter> tused g = {}"
    using o(1) D(9) by blast
  moreover have "root s = NoPage \<or> owned (root s) s = None"
    using m(1) by (auto simp: mem_ok_def owned_None)
  moreover have "PageSize * unat (filePages s) \<le> length (live (pf s))" using m(2) by (simp add: file_ok_def)
  moreover note used_pages_owned [OF m(1)]
  ultimately show ?thesis
    using m(1) by (auto simp: mem_ok_def state_of_def word_gt_0)
qed

theorem pages_have_one_state_witness:
  "\<exists>s. store_run [Opened NoPage] (Running s) \<and> distinct (free s @ pending s @ listPage s)"
proof -
  obtain s where s: "store_run [Opened NoPage] (Running s)" "empty_store s" using fresh_store by metis
  then have "usable s = None" by (simp add: empty_store_def)
  then show ?thesis using pages_have_one_state [OF s(1)] s(1) by blast
qed

text \<open>Claim C14. No call panics in any store a run can reach, provided the pages given to \<open>Write\<close> are at least
  long enough to hold an identifier; nor does opening or creating a store on any file left behind.\<close>

theorem no_panics:
  assumes "store_run evs x"
  shows "case x of
      Running s \<Rightarrow> \<forall>c. run_op c s \<noteq> None \<or> (\<exists>p. c = OpWrite p \<and> length p < 4)
    | Down d \<Rightarrow> \<forall>synced. OpenStore (Inr d) synced \<noteq> None \<and> CreateStore (Inr d) synced \<noteq> None"
proof (cases x)
  case (Running s)
  have "run_op c s \<noteq> None" if "\<not> (\<exists>p. c = OpWrite p \<and> length p < 4)" for c
  proof (cases c)
    case (OpWrite p)
    then show ?thesis using that by (auto simp: StoreWrite_def split: option.split prod.split)
  next
    case OpCheckpoint
    then show ?thesis using Checkpoint_total [of s] by auto
  next
    case OpClose
    then show ?thesis using Checkpoint_total [of s] by (auto simp: CloseStore_def split: prod.split)
  qed simp_all
  then show ?thesis using Running by auto
next
  case (Down d)
  obtain D where "sim_stopped d D" using run_down [of evs d] assms Down by blast
  then have "OpenStore (Inr d) synced \<noteq> None" for synced using opening_total by blast
  moreover have "CreateStore (Inr d) synced \<noteq> None" for synced
    using create_total
    by (auto simp: CreateStore_def Let_def split: option.split sum.split prod.split) (metis option.distinct(1))+
  ultimately show ?thesis using Down by simp
qed

theorem no_panics_witness:
  "store_run [PowerLoss] (Down (power_loss (\<lambda>i k. True) [] (emptyDev [])))
    \<and> OpenStore (Inr (power_loss (\<lambda>i k. True) [] (emptyDev []))) None \<noteq> None"
proof -
  have "store_run [PowerLoss] (Down (power_loss (\<lambda>i k. True) [] (emptyDev [])))"
    unfolding store_run_def by (intro exI [of _ "[]"]) (simp add: sys_step.power_down)
  from this no_panics [OF this] show ?thesis by simp
qed

text \<open>Claim C12. A checkpoint of a reachable store succeeds when no call of the file fails and the page
  numbers do not run out: it advances the checkpoint counter by one, leaves nothing pending, and keeps
  the root and the set of pages in use.\<close>

theorem checkpoint_succeeds:
  assumes "store_run evs (Running s)" "usable s = None" "fault_free (pf s)"
    "unat (nextPage s) + pagesFor (length (free s) + length (pending s) + length (listPage s)) \<le> unat MaxPages"
  shows "\<exists>s'. Checkpoint s = Some (None, s') \<and> fault_free (pf s') \<and> usable s' = None \<and> \<not> dirty s'
    \<and> mCheckpoint (durable s') = mCheckpoint (durable s) + 1 \<and> mRoot (durable s') = root s \<and> root s' = root s
    \<and> pending s' = [] \<and> (\<forall>i. owned i s' = None \<longleftrightarrow> owned i s = None)"
proof -
  obtain t g E where o: "open_with s t g E" using run_open [OF assms(1,2)] by blast
  note D = open_withD [OF o]
  have "unat (nextPage s) + pagesFor (length (free s) + fixed_of s) \<le> 4294967295"
    using assms(4) by (simp add: fixed_of_def MaxPages_def add.assoc)
  then obtain s' where c: "Checkpoint s = Some (None, s')" "fault_free (pf s')"
    using Checkpoint_works [OF D(1) assms(2,3)] by blast
  obtain E' where o': "open_with s' t t E'" using sim_checkpoint [OF o c(1)] by auto
  have "checkpoint s = Some (None, s')"
    using Checkpoint_unfold [OF assms(2) c(1)] by auto
  then have "checkpointed s E None s'" by (rule checkpoint_outcome [OF D(1)])
  then obtain p where "committed s p s'" by (auto simp: checkpointed_def)
  then have "mCheckpoint (durable s') = mCheckpoint (durable s) + 1" "mRoot (durable s') = root s"
    "root s' = root s" "pending s' = []" "\<not> dirty s'"
    by (simp_all add: committed_def next_meta_def)
  then show ?thesis using c D(9) open_withD(8,9) [OF o'] by auto
qed

theorem checkpoint_succeeds_witness:
  "\<exists>s s'. store_run [Opened NoPage] (Running s) \<and> Checkpoint s = Some (None, s')
     \<and> mCheckpoint (durable s') = mCheckpoint (durable s) + 1"
proof -
  obtain s where s: "store_run [Opened NoPage] (Running s)" "empty_store s" "fault_free (pf s)"
    using fresh_store by metis
  have e: "usable s = None"
    "unat (nextPage s) + pagesFor (length (free s) + length (pending s) + length (listPage s)) \<le> unat MaxPages"
    using s(2) by (simp_all add: empty_store_def pagesFor_def MaxPages_def)
  from checkpoint_succeeds [OF s(1) e(1) s(3) e(2)] show ?thesis using s(1) by blast
qed

text \<open>Claim C15. \<open>Allocate\<close> is all or nothing.  It picks the last page of the free list or, when that is empty,
  the first page never handed out.  Whether it fails or not, every other page the file is counted to
  hold is as it was: the meta page, the free-list pages, the pages in use, those pending, those the
  last checkpoint uses and the other free ones.  When it fails, after growing the file or not, the
  store is as it was; when it succeeds, the page was nobody's, nor the last checkpoint's, is zero but
  for its header, and is the one page that changed hands.\<close>

theorem allocate_all_or_nothing:
  assumes "store_run evs (Running s)" "usable s = None" "Allocate k s = (r, s')"
  shows "(\<forall>j < unat (filePages s). j \<noteq> unat (picked s) \<longrightarrow> same_page j (live (pf s)) (live (pf s')))
    \<and> picked s \<noteq> MetaPage \<and> owned (picked s) s \<noteq> None \<and> picked s \<notin> set (pending s) \<and> picked s \<notin> set (listPage s)
    \<and> (\<exists>t g. tx_run evs (Open t {g}) \<and> picked s \<notin> tused g)
    \<and> (case r of
         Inl e \<Rightarrow> s' = s\<lparr>pf := pf s'\<rparr>
       | Inr p \<Rightarrow> p = NewPage (picked s) k \<and> ID p = picked s
           \<and> (\<forall>j. owned j s' = None \<longleftrightarrow> j = picked s \<or> owned j s = None)
           \<and> page_of (live (pf s')) (unat (picked s)) = p \<and> root s' = root s
           \<and> pending s' = pending s \<and> listPage s' = listPage s \<and> durable s' = durable s)"
proof -
  obtain t g E where o: "tx_run evs (Open t {g})" "open_with s t g E" using run_open [OF assms(1,2)] by blast
  note D = open_withD [OF o(2)]
  let ?i = "picked s"
  note a = Allocate_touches [OF assms(3)]
  have own: "unat j \<in> busy s" if "owned j s = None" for j using owned_busy [OF D(1)] that by blast
  have "unat j \<in> busy s" if "j \<in> tused g" for j using D(14) that by blast
  then have "?i \<notin> tused g" "owned ?i s \<noteq> None" using picked_free(1) [OF D(2)] own [of ?i] by (rule_tac notI, simp)+
  then have b: "?i \<noteq> MetaPage" "owned ?i s \<noteq> None" "?i \<notin> set (pending s)" "?i \<notin> set (listPage s)" "?i \<notin> tused g"
    using picked_free(2-4) [OF D(2)] by simp_all
  have f: "\<forall>j < unat (filePages s). j \<noteq> unat ?i \<longrightarrow> same_page j (live (pf s)) (live (pf s'))"
    using a(1) by (auto simp: frame_def)
  have ex: "\<exists>t g. tx_run evs (Open t {g}) \<and> ?i \<notin> tused g" using o(1) b(5) by blast
  have c: "case r of
         Inl e \<Rightarrow> s' = s\<lparr>pf := pf s'\<rparr>
       | Inr p \<Rightarrow> p = NewPage ?i k \<and> ID p = ?i
           \<and> (\<forall>j. owned j s' = None \<longleftrightarrow> j = ?i \<or> owned j s = None)
           \<and> page_of (live (pf s')) (unat ?i) = p \<and> root s' = root s
           \<and> pending s' = pending s \<and> listPage s' = listPage s \<and> durable s' = durable s"
  proof (cases r)
    case (Inl e)
    then show ?thesis using Allocate_err [OF D(1) assms(3) [unfolded Inl]] by simp
  next
    case (Inr p)
    note p = Allocate_ok [OF D(1) assms(3) [unfolded Inr]] Allocate_owned [OF D(2) assms(3) [unfolded Inr]]
    show ?thesis using p(4,7,9,12-14,16) a(2) [OF Inr] Inr by simp
  qed
  from f b(1-4) ex c show ?thesis by (intro conjI)
qed

theorem allocate_all_or_nothing_witness:
  "\<exists>s p s'. store_run [Opened NoPage] (Running s) \<and> Allocate 3 s = (Inr p, s') \<and> p = NewPage 1 3
     \<and> same_page 0 (live (pf s)) (live (pf s'))"
proof -
  obtain s p s' where s: "store_run [Opened NoPage] (Running s)" "empty_store s" "Allocate 3 s = (Inr p, s')"
    using first_session [of 3] by metis
  have e: "usable s = None" "free s = []" "nextPage s = 1" and "mem_ok s"
    using s(2) by (auto simp: empty_store_def store_ok_def)
  then have "0 < unat (filePages s)" by (simp add: mem_ok_def page_le_iff)
  moreover have "picked s = 1" using e by (simp add: picked_def)
  ultimately show ?thesis using allocate_all_or_nothing [OF s(1) e(1) s(3)] s(1,3) by auto
qed

text \<open>Claim C16. After a failed fsync, or once closed, a store does nothing any more: the file is left as it is,
  the store stays unusable, and every call but \<open>Close\<close> and \<open>Discard\<close> leaves the store as it is and
  answers with the error that says why.  Those two return no error and do nothing on a store already
  closed; on a poisoned store still open they close the file, \<open>Close\<close> reporting the poisoning and
  \<open>Discard\<close> only what closing the file says.\<close>

theorem stopped_store_is_inert:
  assumes "usable s = Some e" "run_op c s = Some (r, s')"
  shows "same_file (pf s) (pf s') \<and> usable s' \<noteq> None
    \<and> (c \<notin> {OpClose, OpDiscard} \<longrightarrow> s' = s \<and> r = reply_of e \<and> r \<in> {Poisoned, Rejected})
    \<and> (c \<in> {OpClose, OpDiscard} \<and> closed s \<longrightarrow> s' = s \<and> r = Done)
    \<and> (c \<in> {OpClose, OpDiscard} \<and> \<not> closed s \<longrightarrow>
         s' = s\<lparr>closed := True, pf := snd (ClosePages (pf s))\<rparr>
         \<and> r = (if c = OpClose then Poisoned else if fst (ClosePages (pf s)) = None then Done else FileFailed))"
proof -
  have u: "usable s \<noteq> None" using assms(1) by simp
  have 1: "s' = s \<and> r = reply_of e" if "c \<notin> {OpClose, OpDiscard}"
    using that assms
    by (cases c) (auto simp: answer_def page_answer_def StoreRead_def StoreWrite_def Allocate_def
        FreePage_def SetRoot_def SyncStore_def Checkpoint_def Verify_def)
  have 2: "s' = s \<and> r = Done" if "c \<in> {OpClose, OpDiscard}" "closed s"
    using that assms(2) by (auto simp: answer_def CloseStore_def Discard_def)
  have 3: "s' = s\<lparr>closed := True, pf := snd (ClosePages (pf s))\<rparr>
         \<and> r = (if c = OpClose then Poisoned else if fst (ClosePages (pf s)) = None then Done else FileFailed)"
    if cs: "c \<in> {OpClose, OpDiscard}" "\<not> closed s"
  proof -
    obtain x where x: "poisoned s = Some x" using u cs(2) by (auto simp: usable_None)
    obtain q d where q: "ClosePages (pf s) = (q, d)" by fastforce
    show ?thesis
      using cs assms(2) x q by (cases q) (auto simp: answer_def CloseStore_def Discard_def Let_def)
  qed
  have "c \<notin> {OpClose, OpDiscard} \<longrightarrow> r \<in> {Poisoned, Rejected}" using unusable_op(3) [OF u assms(2)] by blast
  then show ?thesis using unusable_op(1,2) [OF u assms(2)] 1 2 3 by blast
qed

theorem stopped_store_is_inert_witness:
  "\<exists>s. closed s \<and> run_op (OpFree 1) s = Some (Rejected, s)"
proof -
  let ?s = "(initial (emptyDev []))\<lparr>closed := True\<rparr>"
  have u: "usable ?s = Some ErrClosed" by (simp add: usable_def)
  obtain r s' where r: "run_op (OpFree 1) ?s = Some (r, s')" by (cases "answer (FreePage 1 ?s)") simp
  have "s' = ?s" "r = Rejected" using stopped_store_is_inert [OF u r] by simp_all
  then show ?thesis using r by (intro exI [of _ ?s]) simp
qed

section \<open>Checking and opening\<close>

lemma count_back:
  "(k :: u32) \<le> word_of_nat (min (length img div 4096) 4294967295) \<Longrightarrow> 4096 * unat k \<le> length img"
proof -
  assume "k \<le> word_of_nat (min (length img div 4096) 4294967295)"
  then have "unat k \<le> length img div 4096" by (simp add: page_le_iff unat_of_nat)
  then show ?thesis using div_times_less_eq_dividend [of "length img" 4096] by linarith
qed

lemma chain_nonzero: "chain f i L \<Longrightarrow> l \<in> set L \<Longrightarrow> l \<noteq> 0"
  by (induction L arbitrary: i) auto

lemma checked_meta_ok:
  assumes "this_format m" "checkMeta m n = None" "checkFreeSet m E L = None" "distinct L"
    "\<forall>l \<in> set L. l \<noteq> 0 \<and> l < mNextPage m" "mFreeCount m = word_of_nat (length E)"
  shows "meta_ok (m, E, L)"
proof -
  have "i \<noteq> 0 \<and> i < mNextPage m \<and> i \<noteq> mRoot m" if "i \<in> set (E @ L)" for i
    using assms(3,5) that by (auto simp: checkFreeSet_None)
  then show ?thesis using assms by (auto simp: meta_ok_def checkMeta_None checkFreeSet_None)
qed

lemma readFreeList_back:
  assumes "meta_ok (m, E, L)" "chain (live_page d) (mFreeListPage m) L" "E = chain_items (live_page d) L"
    "4096 * unat (mFilePages m) \<le> length (live d)" "sched d = []" "\<not> dev_closed d"
  shows "readFreeList d m = (Inr (E, L), d)"
proof -
  have "l < mNextPage m \<and> has_page (live d) (unat l)" if "l \<in> set L" for l
  proof -
    have "l < mNextPage m" "mNextPage m \<le> mFilePages m" using assms(1) that by (auto simp: meta_ok_def)
    then show ?thesis using has_page_le [OF assms(4)] by (simp add: page_le_iff)
  qed
  moreover have "distinct L" "mFreeCount m = word_of_nat (length E)" using assms(1) by (auto simp: meta_ok_def)
  ultimately show ?thesis
    using read_lists_ok [OF assms(2), of "{}" m "[]" "[]"] assms(3,5,6) by (simp add: readFreeList_def)
qed

text \<open>Claim C17. \<open>Verify\<close> is exact: on a file whose calls do not fail it accepts a store if and only if the meta
  page is the last checkpoint's, the free list of the file is a well-formed chain that holds what the
  meta page says, the pages free in memory are free on the drive too, and the pages of the store are
  each in one state, with the file long enough for all of them.\<close>

theorem verify_exact:
  assumes "usable s = None" "fault_free (pf s)" "has_page (live (pf s)) 0"
  shows "Verify s = (None, s) \<longleftrightarrow>
    decodeMeta (page_of (live (pf s)) 0) = Inr (durable s)
    \<and> (\<exists>E. meta_ok (durable s, E, listPage s)
         \<and> chain (live_page (pf s)) (mFreeListPage (durable s)) (listPage s)
         \<and> E = chain_items (live_page (pf s)) (listPage s) \<and> set (free s) \<subseteq> set E)
    \<and> mem_ok s \<and> mNextPage (durable s) \<le> nextPage s
    \<and> PageSize * unat (mFilePages (durable s)) \<le> length (live (pf s))
    \<and> PageSize * unat (filePages s) \<le> length (live (pf s))"
  (is "?verify \<longleftrightarrow> ?sound")
proof -
  let ?d = "pf s" and ?m = "durable s"
  let ?n = "word_of_nat (min (length (live ?d) div 4096) 4294967295) :: u32"
  have d: "sched ?d = []" "\<not> dev_closed ?d" using assms(2) by (simp_all add: fault_free_def)
  have rd: "ReadPage ?d MetaPage = (Inr (page_of (live ?d) 0), ?d)"
    using ReadPage_ok [OF d, of MetaPage] assms(3) by simp
  note count = PageCount_ok [OF d]
  have fits: "k \<le> ?n \<longleftrightarrow> 4096 * unat k \<le> length (live ?d)" for k :: u32
    using count_ok [of k "live ?d"] count_back by blast
  show ?thesis
  proof
    assume v: ?verify
    then have dec: "decodeMeta (page_of (live ?d) 0) = Inr ?m"
      using assms(1) rd by (auto simp: Verify_def split: sum.splits if_splits)
    have cm: "checkMeta ?m ?n = None"
      using v assms(1) rd dec count by (auto simp: Verify_def split: option.splits)
    obtain q d2 where q: "readFreeList ?d ?m = (q, d2)" by fastforce
    obtain E ls where fl: "readFreeList ?d ?m = (Inr (E, ls), d2)"
      using v assms(1) rd dec count cm q by (cases q) (auto simp: Verify_def)
    have cf: "checkFreeSet ?m E ls = None" "verifyLive s ?n E ls = None"
      using v assms(1) rd dec count cm fl by (auto simp: Verify_def split: option.splits)
    have nz: "nextPage s \<noteq> 0"
      using cf(2) cm by (auto simp: verifyLive_def checkMeta_None not_less split: if_splits)
    have live: "mem_ok s" "mNextPage ?m \<le> nextPage s" "filePages s \<le> ?n" "listPage s = ls" "set (free s) \<subseteq> set E"
      using cf(2) verifyLive_None [OF nz] by blast+
    have ch: "chain (live_page ?d) (mFreeListPage ?m) ls" "E = chain_items (live_page ?d) ls" "distinct ls"
      "\<forall>l \<in> set ls. l < mNextPage ?m" "mFreeCount ?m = word_of_nat (length E)"
      using readFreeList_sound(2) [OF fl refl] by blast+
    have "meta_ok (?m, E, ls)"
      using checked_meta_ok [OF decodeMeta_format [OF dec] cm cf(1) ch(3) _ ch(5)] ch(1,4) chain_nonzero by blast
    then show ?sound using dec live ch cm fits by (auto simp: checkMeta_None)
  next
    assume s: ?sound
    then obtain E where E: "meta_ok (?m, E, listPage s)" "chain (live_page ?d) (mFreeListPage ?m) (listPage s)"
      "E = chain_items (live_page ?d) (listPage s)" "set (free s) \<subseteq> set E" by blast
    have m: "mem_ok s" "mNextPage ?m \<le> nextPage s" "mFilePages ?m \<le> ?n" "filePages s \<le> ?n"
      using s fits by simp_all
    have nz: "nextPage s \<noteq> 0" using m(1) by (simp add: mem_ok_def)
    have fl: "readFreeList ?d ?m = (Inr (E, listPage s), ?d)"
      using readFreeList_back [OF E(1-3) _ d] s by simp
    have "verifyLive s ?n E (listPage s) = None" using m E(4) verifyLive_None [OF nz] by simp
    then show ?verify
      using assms(1) rd s count checks_ok(1,2) [OF E(1) m(3)] fl by (simp add: Verify_def)
  qed
qed

theorem verify_exact_witness:
  "\<exists>s. store_run [Opened NoPage] (Running s) \<and> Verify s = (None, s)
     \<and> decodeMeta (page_of (live (pf s)) 0) = Inr (durable s) \<and> mem_ok s"
proof -
  obtain s where s: "store_run [Opened NoPage] (Running s)" "empty_store s" "fault_free (pf s)"
    using fresh_store by metis
  have ok: "store_ok s []" and u: "usable s = None" using s(2) by (simp_all add: empty_store_def)
  have h: "has_page (live (pf s)) 0" using ok by (simp add: store_ok_def disk_ok_def stable_def)
  have "Verify s = (None, s)" using Verify_passes [OF ok u] s(3) by (simp add: fault_free_def)
  from this verify_exact [OF u s(3) h] show ?thesis using s(1) by blast
qed

text \<open>Claim C18. Opening checks everything.  Whatever bytes the file holds, a store is returned only when the
  meta page decodes, its free list is a chain of well-formed list pages below \<open>NextPage\<close> that holds the
  recorded number of distinct pages, none of them the root, and the file is long enough; and then the
  store is what the file says: root, next page, file length and checkpoint are the meta page's, the
  free pages and the list pages those of the chain, each marked as such, and nothing is pending,
  changed or counted yet.  No page but the meta page may have been written, whether \<open>load\<close> fails or not.\<close>

theorem load_checks_everything:
  "case load d of
     Inr s \<Rightarrow>
       usable s = None \<and> mem_ok s \<and> pending s = [] \<and> root s = mRoot (durable s)
       \<and> nextPage s = mNextPage (durable s) \<and> filePages s = mFilePages (durable s)
       \<and> status s = (\<lambda>i. if i \<in> set (listPage s) then Some stFreeList
                        else if i \<in> set (free s) then Some stFree else None)
       \<and> \<not> dirty s \<and> stats s = \<lparr>Grown = 0, Allocated = 0, Reused = 0, Freed = 0, Checkpoints = 0\<rparr>
       \<and> decodeMeta (page_of (live d) 0) = Inr (durable s)
       \<and> chain (live_page d) (mFreeListPage (durable s)) (listPage s)
       \<and> free s = chain_items (live_page d) (listPage s)
       \<and> meta_ok (durable s, free s, listPage s)
       \<and> PageSize * unat (mFilePages (durable s)) \<le> length (live d)
       \<and> {i. \<not> same_page i (live d) (live (pf s))} \<subseteq> {unat MetaPage}
   | Inl (e, d') \<Rightarrow> {i. \<not> same_page i (live d) (live d')} \<subseteq> {unat MetaPage}"
proof (cases rule: load_cases [of d])
  case (rejected e d')
  then show ?thesis by (simp add: same_file_def)
next
  case (accepted m E L d')
  have fr: "same_page i (live d) (live d2)" if "frame (- {0}) d' d2" "i \<noteq> 0" for i d2
    using that accepted(2) by (simp add: frame_def same_file_def)
  have w: "frame (- {0}) d' d1" if "WritePage d' (encodeMeta m) = (e, d1)" for e d1
    using WriteMeta_frame [OF that] progress_frame by blast
  have s: "frame (- {0}) d' d2" if "WritePage d' (encodeMeta m) = (e, d1)" "SyncPages d1 = (e2, d2)" for e d1 e2 d2
    using frame_trans [OF w [OF that(1)] SyncPages_frame [OF that(2)]] .
  show ?thesis
  proof (cases "settle m E L d'")
    case (Inl x)
    obtain e d2 where x: "x = (e, d2)" by fastforce
    have "frame (- {0}) d' d2"
      using Inl x w s by (auto simp: settle_def split: prod.splits option.splits)
    then show ?thesis using accepted(1) Inl x fr by auto
  next
    case (Inr s)
    then obtain d1 d2 where l: "s = loaded m E L d2" "WritePage d' (encodeMeta m) = (None, d1)"
      "SyncPages d1 = (None, d2)"
      by (auto simp: settle_def split: prod.splits option.splits)
    have "{i. \<not> same_page i (live d) (live (pf s))} \<subseteq> {unat MetaPage}"
      using fr [OF s [OF l(2,3)]] l(1) by auto
    moreover have "status s = (\<lambda>i. if i \<in> set (listPage s) then Some stFreeList
                        else if i \<in> set (free s) then Some stFree else None)"
      "stats s = \<lparr>Grown = 0, Allocated = 0, Reused = 0, Freed = 0, Checkpoints = 0\<rparr>"
      unfolding l(1) by (simp_all add: loaded_def cong: if_cong)
    moreover have "usable s = None" "mem_ok s" using l(1) loaded_mem_ok [OF accepted(8)] by (simp_all add: usable_None)
    moreover have "load d = Inr s" using accepted(1) Inr by simp
    moreover have "durable s = m" "free s = E" "listPage s = L" "pending s = []" "root s = mRoot m"
      "nextPage s = mNextPage m" "filePages s = mFilePages m" "\<not> dirty s" using l(1) by simp_all
    ultimately show ?thesis using accepted(4-6,8,9) by simp
  qed
qed

text \<open>Claim C19. A file that is not a store's is left alone: when it holds anything but zeros and is too short
  for a page, or its first page does not decode as a meta page, opening it fails and writes nothing.\<close>

theorem open_leaves_foreign_files:
  assumes "length (live d) > unat ChunkPages * PageSize \<or> (\<exists>x \<in> set (live d). x \<noteq> 0)"
    and "length (live d) < PageSize \<or> (\<exists>e. decodeMeta (page_of (live d) 0) = Inl e)"
  shows "\<exists>e d'. openFile d = Some (Inl (e, d')) \<and> same_file d d'"
proof (cases rule: openFile_cases [of d])
  case (failed e d')
  then show ?thesis by blast
next
  case (blank d')
  then show ?thesis using assms(1) isBlank_data [OF blank(3)] by auto
next
  case (load d' d1)
  have l: "live d' = live d" using load(2) by (simp add: same_file_def)
  show ?thesis
  proof (cases rule: load_cases [of d'])
    case (rejected e d2)
    then show ?thesis using load(1,2) same_file_trans by fastforce
  next
    case (accepted m E L d2)
    then show ?thesis using assms(2) load(3) l by auto
  qed
qed

theorem open_leaves_foreign_files_witness:
  "\<exists>e d'. openFile (restart [] \<lparr>live = [1, 2, 3], disk = [], wlog = [], sched = [], dev_closed = False\<rparr>)
      = Some (Inl (e, d')) \<and> live d' = [1, 2, 3]"
proof -
  let ?d = "restart [] \<lparr>live = [1, 2, 3], disk = [], wlog = [], sched = [], dev_closed = False\<rparr>"
  have "\<exists>e d'. openFile ?d = Some (Inl (e, d')) \<and> same_file ?d d'"
    by (rule open_leaves_foreign_files) (simp_all add: restart_def)
  then show ?thesis by (auto simp: same_file_def restart_def)
qed

section \<open>The format on the drive\<close>

text \<open>Claim C20. A meta page round trips, and its commit is atomic on a drive that writes whole sectors: a write
  of a new meta page over an old one that was cut short, with any of its sectors missing, decodes as
  the new one or as the old one.\<close>

theorem meta_page_commits_atomically:
  assumes "this_format m" "this_format m'"
  shows "decodeMeta (encodeMeta m) = Inr m
    \<and> decodeMeta (apply_write keep (0, take (512 * k) (encodeMeta m')) (encodeMeta m)) \<in> {Inr m, Inr m'}"
proof -
  let ?img = "apply_write keep (0, take (512 * k) (encodeMeta m')) (encodeMeta m)"
  have page: "page_of img 0 = img" if "length img = 4096" for img
    using that by (simp add: page_of_def subslice_def)
  have "meta_at {m, m'} (encodeMeta m)" using page by (simp add: meta_at_def has_page_def)
  moreover have "meta_write {m, m'} (0, take (512 * k) (encodeMeta m'))" by (auto simp: meta_write_def)
  ultimately have "meta_at {m, m'} ?img" by (rule meta_at_masked)
  moreover have "length ?img = 4096" by (simp add: length_write_into)
  ultimately have "?img = encodeMeta m \<or> ?img = encodeMeta m'" using page by (auto simp: meta_at_def)
  moreover have "decodeMeta x \<in> {Inr m, Inr m'}" if "x = encodeMeta m \<or> x = encodeMeta m'" for x
    using that assms decode_encode by auto
  ultimately have "decodeMeta ?img \<in> {Inr m, Inr m'}" by blast
  then show ?thesis using decode_encode [OF assms(1)] by blast
qed

theorem meta_page_commits_atomically_witness:
  "decodeMeta (apply_write (\<lambda>i. i = 3) (0, take (512 * 2) (encodeMeta (first_meta\<lparr>mRoot := 7\<rparr>))) (encodeMeta first_meta))
     \<in> {Inr first_meta, Inr (first_meta\<lparr>mRoot := 7\<rparr>)}"
  by (rule meta_page_commits_atomically [THEN conjunct2]) (simp_all add: this_format_def first_meta_def)

text \<open>Claim C21. The free list round trips: entries spread over any pages of the right number, in a chain of list
  pages, are read back in order, with the pages that hold them.\<close>

theorem free_list_roundtrip:
  assumes "write_lists d entries 0 ls = Some (None, d')" "fault_free d'"
    and "distinct ls" "NoPage \<notin> set ls" "length entries \<le> length ls * FreeListCapacity"
    and "mFreeListPage m = (case ls of [] \<Rightarrow> NoPage | i # _ \<Rightarrow> i)" "mFreeCount m = word_of_nat (length entries)"
    "\<forall>l \<in> set ls. l < mNextPage m"
  shows "readFreeList d' m = (Inr (entries, ls), d')"
proof -
  have "0 \<notin> set ls" "length entries \<le> (0 + length ls) * 1019" using assms(4,5) by simp_all
  note w = write_lists_done [OF assms(1,3) this]
  have "\<forall>l \<in> set ls. l < mNextPage m \<and> has_page (live d') (unat l)"
    using w assms(8) by (simp add: agree_def)
  then show ?thesis
    using read_lists_ok [of d' "head_of ls" ls "{}" m "[]" "[]"] w assms(2,3,6,7)
    by (simp add: readFreeList_def fault_free_def head_of_def)
qed

theorem free_list_roundtrip_witness:
  "\<exists>d'. write_lists (emptyDev []) [9, 4] 0 [5] = Some (None, d')
     \<and> readFreeList d' (first_meta\<lparr>mFreeListPage := 5, mFreeCount := 2, mNextPage := 10\<rparr>) = (Inr ([9, 4], [5]), d')"
proof -
  let ?m = "first_meta\<lparr>mFreeListPage := 5, mFreeCount := 2, mNextPage := 10\<rparr>"
  have f: "fault_free (emptyDev [])" by (simp add: fault_free_def emptyDev_def)
  obtain e d' where w: "write_lists (emptyDev []) [9, 4] 0 [5] = Some (e, d')"
    using write_lists_total [of "[5]" 0 "[9, 4]" "emptyDev []"] by auto
  have d': "e = None" "fault_free d'" using write_lists_works [OF w f] by simp_all
  have "readFreeList d' ?m = (Inr ([9, 4], [5]), d')"
    by (rule free_list_roundtrip [OF w [unfolded d'(1)] d'(2)]) simp_all
  then show ?thesis using w d'(1) by blast
qed

section \<open>The page file\<close>

text \<open>Claim C22. A page written and then synced without error is on the drive: after any power loss it reads back.\<close>

theorem synced_page_survives:
  assumes "WritePage d p = (None, d1)" "SyncPages d1 = (None, d2)"
  shows "ReadPage (power_loss kept [] d2) (ID p) = (Inr p, power_loss kept [] d2)"
proof -
  note w = WritePage_done(4,5) [OF assms(1)]
  have "PageFile.stable d2 (unat (ID p))" by (rule SyncPages_done(5) [OF assms(2) w(1)])
  from stable_survives [OF this, of kept "[]"] show ?thesis
    using ReadPage_ok [of "power_loss kept [] d2" "ID p"] w(2) SyncPages_done(1) [OF assms(2)]
      fault_free_power_loss [of kept d2] by (simp add: fault_free_def)
qed

theorem synced_page_survives_witness:
  "\<exists>d1 d2. WritePage (emptyDev []) (NewPage 2 1) = (None, d1) \<and> SyncPages d1 = (None, d2)
     \<and> ReadPage (power_loss (\<lambda>i k. False) [] d2) 2 = (Inr (NewPage 2 1), power_loss (\<lambda>i k. False) [] d2)"
proof -
  have f: "fault_free (emptyDev [])" by (simp add: fault_free_def emptyDev_def)
  obtain e d1 where w: "WritePage (emptyDev []) (NewPage 2 1) = (e, d1)" by fastforce
  have d1: "e = None" "fault_free d1" using fault_free_file(3) [OF f is_page_NewPage w] by simp_all
  obtain e2 d2 where s: "SyncPages d1 = (e2, d2)" by fastforce
  have "e2 = None" using fault_free_file(1) [OF d1(2) s] by simp
  with synced_page_survives [of "emptyDev []" "NewPage 2 1" d1 d2 "\<lambda>i k. False"] w s d1(1)
  show ?thesis by (simp add: page_simps)
qed

text \<open>Claim C23. \<open>Grow\<close> writes zeros into exactly the pages asked for, in pieces, and ends: when it succeeds they
  are all zero; whether it succeeds or not, no byte below the first of them or past the last is
  changed, a byte past the end of the file counting as zero, and the file does not grow past them.\<close>

theorem grow_zero_fills:
  assumes "Grow d f n = (e, d')"
  shows "(\<forall>j. j < PageSize * unat f \<or> PageSize * unat n \<le> j \<longrightarrow> byte_at (live d') j = byte_at (live d) j)
    \<and> length (live d) \<le> length (live d') \<and> length (live d') \<le> max (length (live d)) (PageSize * unat n)
    \<and> (\<forall>i. i < unat f \<or> unat n \<le> i \<longrightarrow> same_page i (live d) (live d'))
    \<and> (e = None \<longrightarrow> (\<forall>j. unat f \<le> j \<and> j < unat n \<longrightarrow> has_page (live d') j \<and> page_of (live d') j = replicate PageSize 0))"
proof -
  have w: "within (4096 * unat f) (4096 * unat n) d d'" by (rule Grow_within [OF assms])
  then have "same_page i (live d) (live d')" if "i < unat f \<or> unat n \<le> i" for i
    by (rule within_same_page) (use that in auto)
  then show ?thesis using w Grow_done assms by (auto simp: agree_def within_def)
qed

theorem grow_zero_fills_witness:
  "\<exists>d'. Grow (emptyDev []) 0 2 = (None, d') \<and> has_page (live d') 1 \<and> page_of (live d') 1 = replicate PageSize 0
     \<and> length (live d') \<le> 8192"
proof -
  have f: "fault_free (emptyDev [])" by (simp add: fault_free_def emptyDev_def)
  obtain e d' where g: "Grow (emptyDev []) 0 2 = (e, d')" by fastforce
  have "e = None" using fault_free_file(2) [OF f g] by simp
  with grow_zero_fills [OF g] g show ?thesis by (simp add: emptyDev_def)
qed

end
