(* ===== verification/NodePage.thy ===== *)
theory NodePage
  imports Pages "HOL-Library.Multiset"
begin

text \<open>
  Package \<open>nodepage\<close>: a B+Tree node laid out on a page.  Behind the page header come a link (the next
  leaf, or the first child), the level and two bytes of padding; then the slot array, which grows up
  with the free start; and from the end of the page, growing down, the cells the slots point to, each
  a key followed by a row identifier or a child.

  A \<open>Node\<close> is the page; a method that writes returns it updated.  A panic is \<open>None\<close>: slots and cells
  of a damaged page may point anywhere, so whatever goes through a slot is checked.  The header fields
  are read from pages of full size, as \<open>Load\<close> and the constructors make them.
\<close>

section \<open>Layout\<close>

definition NodeHeaderSize :: nat where "NodeHeaderSize = 8"
definition SlotSize :: nat where "SlotSize = 4"
definition SlotArrayStart :: nat where "SlotArrayStart = HeaderSize + NodeHeaderSize"
definition EntryArea :: nat where "EntryArea = PageSize - SlotArrayStart"
definition LeafSuffix :: nat where "LeafSuffix = 6"
definition InternalSuffix :: nat where "InternalSuffix = 4"
definition offLink :: nat where "offLink = HeaderSize"
definition offLevel :: nat where "offLevel = HeaderSize + 4"
definition offPad :: nat where "offPad = HeaderSize + 6"

lemma layout [simp]:
  "NodeHeaderSize = 8" "SlotSize = 4" "SlotArrayStart = 24" "EntryArea = 4072" "LeafSuffix = 6"
  "InternalSuffix = 4" "offLink = 16" "offLevel = 20" "offPad = 22"
  by (simp_all add: NodeHeaderSize_def SlotSize_def SlotArrayStart_def EntryArea_def LeafSuffix_def
      InternalSuffix_def offLink_def offLevel_def offPad_def)

type_synonym Node = Page

datatype violation =
    Padding u16
  | FreeStartWrong u16 nat
  | FreeEndOutside u16 u16
  | EmptyFreeEnd u16
  | SlotOutside nat nat nat
  | SlotTooShort nat nat
  | LowestCell nat u16
  | NotAdjacent "nat \<times> nat" "nat \<times> nat"
  | HighestCell nat
  | KeysNotAscending nat

datatype node_error =
    ErrNodeNoFit nat int
  | ErrBadKind Kind
  | ErrBadLevel u16
  | ErrNodeShortPage
  | ErrInvariant violation

section \<open>Header\<close>

definition NodeLeaf :: "Node \<Rightarrow> bool" where
  "NodeLeaf n \<longleftrightarrow> KindOf n = KindBTreeLeaf"

definition KeyCount :: "Node \<Rightarrow> nat" where
  "KeyCount n = unat (ItemCount n)"

definition Level :: "Node \<Rightarrow> u16" where
  "Level n = get16 n offLevel"

definition ChildCount :: "Node \<Rightarrow> nat" where
  "ChildCount n = (if NodeLeaf n then 0 else KeyCount n + 1)"

definition setLevel :: "Node \<Rightarrow> u16 \<Rightarrow> Node" where
  "setLevel n l = put16 n offLevel l"

definition link :: "Node \<Rightarrow> PageID" where
  "link n = get32 n offLink"

definition setLink :: "Node \<Rightarrow> PageID \<Rightarrow> Node" where
  "setLink n i = put32 n offLink i"

definition NodeNext :: "Node \<Rightarrow> PageID" where "NodeNext n = link n"
definition SetNext :: "Node \<Rightarrow> PageID \<Rightarrow> Node" where "SetNext n i = setLink n i"
definition FirstChild :: "Node \<Rightarrow> PageID" where "FirstChild n = link n"
definition SetFirstChild :: "Node \<Rightarrow> PageID \<Rightarrow> Node" where "SetFirstChild n i = setLink n i"

definition NewLeaf :: "PageID \<Rightarrow> Node" where
  "NewLeaf i =
     (let p = NewPage i KindBTreeLeaf;
          p = SetFreeStart p (word_of_nat SlotArrayStart)
      in p)"

definition NewInternal :: "PageID \<Rightarrow> u16 \<Rightarrow> node_error + Node" where
  "NewInternal i level =
     (if level = 0 then Inl (ErrBadLevel level)
      else
        (let p = NewPage i KindBTreeInternal;
             p = SetFreeStart p (word_of_nat SlotArrayStart)
         in Inr (setLevel p level)))"

definition LoadNode :: "Page \<Rightarrow> node_error + Node" where
  "LoadNode p =
     (if length p \<noteq> PageSize then Inl ErrNodeShortPage
      else
        (let k = KindOf p in
         if k \<noteq> KindBTreeLeaf \<and> k \<noteq> KindBTreeInternal then Inl (ErrBadKind k) else Inr p))"

definition suffixLen :: "Node \<Rightarrow> nat" where
  "suffixLen n = (if NodeLeaf n then LeafSuffix else InternalSuffix)"

section \<open>Cells\<close>

definition slotOffset :: "nat \<Rightarrow> nat" where
  "slotOffset i = SlotArrayStart + i * SlotSize"

definition cellBounds :: "Node \<Rightarrow> nat \<Rightarrow> (nat \<times> nat) option" where
  "cellBounds n i =
     (let s = slotOffset i in
      if s + 4 \<le> length n then
        (let off = unat (get16 n s); len = unat (get16 n (s + 2)) in Some (off, off + len))
      else None)"

definition cell :: "Node \<Rightarrow> nat \<Rightarrow> bytes option" where
  "cell n i = (case cellBounds n i of None \<Rightarrow> None | Some (lo, hi) \<Rightarrow> slice_of n lo hi)"

definition KeyRef :: "Node \<Rightarrow> nat \<Rightarrow> bytes option" where
  "KeyRef n i =
     (case cell n i of
        None \<Rightarrow> None
      | Some c \<Rightarrow> if suffixLen n \<le> length c then Some (take (length c - suffixLen n) c) else None)"

text \<open>\<open>Key\<close> returns a copy.\<close>

definition Key :: "Node \<Rightarrow> nat \<Rightarrow> bytes option" where
  "Key n i = map_option (\<lambda>k. [] @ k) (KeyRef n i)"

definition Row :: "Node \<Rightarrow> nat \<Rightarrow> RowID option" where
  "Row n i =
     (case cell n i of
        None \<Rightarrow> None
      | Some c \<Rightarrow>
          if LeafSuffix \<le> length c then
            (let tail = drop (length c - LeafSuffix) c
             in Some \<lparr>Page = get32 tail 0, Slot = get16 tail 4\<rparr>)
          else None)"

definition Child :: "Node \<Rightarrow> nat \<Rightarrow> PageID option" where
  "Child n i =
     (if i = 0 then Some (FirstChild n)
      else
        (case cell n (i - 1) of
           None \<Rightarrow> None
         | Some c \<Rightarrow>
             if InternalSuffix \<le> length c then Some (get32 (drop (length c - InternalSuffix) c) 0) else None))"

definition EntrySize :: "Node \<Rightarrow> nat \<Rightarrow> nat" where
  "EntrySize n keyLen = SlotSize + keyLen + suffixLen n"

definition Fits :: "Node \<Rightarrow> nat \<Rightarrow> bool" where
  "Fits n keyLen \<longleftrightarrow> int (EntrySize n keyLen) \<le> FreeSpace n"

section \<open>Appending\<close>

definition put_slot :: "Node \<Rightarrow> nat \<Rightarrow> u16 \<Rightarrow> u16 \<Rightarrow> Node option" where
  "put_slot n s off len = (if s + 4 \<le> length n then Some (put16 (put16 n s off) (s + 2) len) else None)"

definition appendCell :: "Node \<Rightarrow> bytes \<Rightarrow> bytes \<Rightarrow> (node_error option \<times> Node) option" where
  "appendCell n key tail =
     (let need = SlotSize + length key + length tail in
      if int need > FreeSpace n then Some (Some (ErrNodeNoFit need (FreeSpace n)), n)
      else if unat (FreeEnd n) < length key + length tail then None
      else
        (let start = unat (FreeEnd n) - length key - length tail in
         case copy_at n start key of
           None \<Rightarrow> None
         | Some n \<Rightarrow>
             (case copy_at n (start + length key) tail of
                None \<Rightarrow> None
              | Some n \<Rightarrow>
                  (let s = slotOffset (KeyCount n) in
                   case put_slot n s (word_of_nat start) (word_of_nat (length key + length tail)) of
                     None \<Rightarrow> None
                   | Some n \<Rightarrow>
                       (let n = SetFreeEnd n (word_of_nat start);
                            n = SetFreeStart n (word_of_nat (s + SlotSize));
                            n = SetItemCount n (ItemCount n + 1)
                        in Some (None, n))))))"

definition row_bytes :: "RowID \<Rightarrow> bytes" where
  "row_bytes rid = put16 (put32 (replicate LeafSuffix 0) 0 (RowID.Page rid)) 4 (RowID.Slot rid)"

definition child_bytes :: "PageID \<Rightarrow> bytes" where
  "child_bytes child = put32 (replicate InternalSuffix 0) 0 child"

definition AppendLeaf :: "Node \<Rightarrow> bytes \<Rightarrow> RowID \<Rightarrow> (node_error option \<times> Node) option" where
  "AppendLeaf n key rid =
     (if \<not> NodeLeaf n then Some (Some (ErrBadKind (KindOf n)), n) else appendCell n key (row_bytes rid))"

definition AppendInternal :: "Node \<Rightarrow> bytes \<Rightarrow> PageID \<Rightarrow> (node_error option \<times> Node) option" where
  "AppendInternal n key child =
     (if NodeLeaf n then Some (Some (ErrBadKind (KindOf n)), n) else appendCell n key (child_bytes child))"

section \<open>Searching\<close>

definition NodeSearch :: "Node \<Rightarrow> bytes \<Rightarrow> (nat \<times> bool) option" where
  "NodeSearch n key =
     (let count = KeyCount n in
      case sort_search_opt count (\<lambda>i. map_option (\<lambda>k. bytes_compare k key \<ge> 0) (KeyRef n i)) of
        None \<Rightarrow> None
      | Some i \<Rightarrow>
          if i < count then map_option (\<lambda>k. (i, k = key)) (KeyRef n i) else Some (i, False))"

definition ChildFor :: "Node \<Rightarrow> bytes \<Rightarrow> PageID option" where
  "ChildFor n key =
     (case sort_search_opt (KeyCount n) (\<lambda>i. map_option (\<lambda>k. bytes_compare key k < 0) (KeyRef n i)) of
        None \<Rightarrow> None
      | Some i \<Rightarrow> Child n i)"

text \<open>Key lengths are \<open>int\<close> in the code; a length so negative that an entry would take no room is
  answered before the division.\<close>

definition MaxKeys :: "Kind \<Rightarrow> int \<Rightarrow> int" where
  "MaxKeys kind keyLen =
     (let suffix = (if kind = KindBTreeLeaf then LeafSuffix else InternalSuffix);
          per = int SlotSize + keyLen + int suffix
      in if per \<le> 0 then 0 else int EntryArea div per)"

definition Fanout :: "int \<Rightarrow> int" where
  "Fanout keyLen = MaxKeys KindBTreeInternal keyLen + 1"

section \<open>\<open>Validate\<close>\<close>

text \<open>The loop over the slots.\<close>

fun collect_spans :: "Node \<Rightarrow> nat \<Rightarrow> nat \<Rightarrow> (node_error + (nat \<times> nat) list) option" where
  "collect_spans n i 0 = Some (Inr [])"
| "collect_spans n i (Suc m) =
     (case cellBounds n i of
        None \<Rightarrow> None
      | Some (lo, hi) \<Rightarrow>
          if lo < unat (FreeStart n) \<or> hi > PageSize \<or> hi \<le> lo then Some (Inl (ErrInvariant (SlotOutside i lo hi)))
          else if hi - lo < suffixLen n + 1 then Some (Inl (ErrInvariant (SlotTooShort i (hi - lo))))
          else
            (case collect_spans n (Suc i) m of
               Some (Inr spans) \<Rightarrow> Some (Inr ((lo, hi) # spans))
             | r \<Rightarrow> r))"

text \<open>The loop over the sorted spans; \<open>sort.Slice\<close> may leave spans that start alike in any order, but
  then they overlap, and the loop refuses them in any order.\<close>

fun check_adjacent :: "nat \<times> nat \<Rightarrow> (nat \<times> nat) list \<Rightarrow> node_error option" where
  "check_adjacent a [] = (if snd a \<noteq> PageSize then Some (ErrInvariant (HighestCell (snd a))) else None)"
| "check_adjacent a (b # bs) =
     (if snd a \<noteq> fst b then Some (ErrInvariant (NotAdjacent a b)) else check_adjacent b bs)"

text \<open>The loop over the keys, \<open>i\<close> the index of the first of each pair.\<close>

fun check_ascending :: "Node \<Rightarrow> nat \<Rightarrow> nat \<Rightarrow> node_error option option" where
  "check_ascending n i 0 = Some None"
| "check_ascending n i (Suc m) =
     (case (KeyRef n i, KeyRef n (Suc i)) of
        (Some a, Some b) \<Rightarrow>
          if bytes_compare a b \<ge> 0 then Some (Some (ErrInvariant (KeysNotAscending (Suc i))))
          else check_ascending n (Suc i) m
      | _ \<Rightarrow> None)"

definition NodeValidate :: "Node \<Rightarrow> node_error option option" where
  "NodeValidate n =
     (let k = KindOf n in
      if k \<noteq> KindBTreeLeaf \<and> k \<noteq> KindBTreeInternal then Some (Some (ErrBadKind k))
      else if NodeLeaf n \<noteq> (Level n = 0) then Some (Some (ErrBadLevel (Level n)))
      else if get16 n offPad \<noteq> 0 then Some (Some (ErrInvariant (Padding (get16 n offPad))))
      else
        (let count = KeyCount n; wantStart = SlotArrayStart + count * SlotSize in
         if unat (FreeStart n) \<noteq> wantStart then Some (Some (ErrInvariant (FreeStartWrong (FreeStart n) wantStart)))
         else if unat (FreeEnd n) > PageSize \<or> FreeEnd n < FreeStart n then
           Some (Some (ErrInvariant (FreeEndOutside (FreeEnd n) (FreeStart n))))
         else if count = 0 then
           (if unat (FreeEnd n) \<noteq> PageSize then Some (Some (ErrInvariant (EmptyFreeEnd (FreeEnd n)))) else Some None)
         else
           (case collect_spans n 0 count of
              None \<Rightarrow> None
            | Some (Inl e) \<Rightarrow> Some (Some e)
            | Some (Inr spans) \<Rightarrow>
                (case sort_key fst spans of
                   [] \<Rightarrow> None
                 | s # ss \<Rightarrow>
                     if fst s \<noteq> unat (FreeEnd n) then Some (Some (ErrInvariant (LowestCell (fst s) (FreeEnd n))))
                     else
                       (case check_adjacent s ss of
                          Some e \<Rightarrow> Some (Some e)
                        | None \<Rightarrow> check_ascending n 0 (count - 1))))))"

section \<open>What a node holds\<close>

definition bnd :: "Node \<Rightarrow> nat \<Rightarrow> nat \<times> nat" where
  "bnd n i = (unat (get16 n (24 + 4 * i)), unat (get16 n (24 + 4 * i)) + unat (get16 n (26 + 4 * i)))"

definition cell_spans :: "Node \<Rightarrow> (nat \<times> nat) list" where
  "cell_spans n = map (bnd n) [0..<KeyCount n]"

definition cell_at :: "Node \<Rightarrow> nat \<Rightarrow> bytes" where
  "cell_at n i = subslice (fst (bnd n i)) (snd (bnd n i) - fst (bnd n i)) n"

definition key_at :: "Node \<Rightarrow> nat \<Rightarrow> bytes" where
  "key_at n i = take (length (cell_at n i) - suffixLen n) (cell_at n i)"

definition node_keys :: "Node \<Rightarrow> bytes list" where
  "node_keys n = map (key_at n) [0..<KeyCount n]"

text \<open>How many spans a byte lies in; spans tile an area when each of its bytes lies in one.\<close>

definition covering :: "(nat \<times> nat) list \<Rightarrow> nat \<Rightarrow> nat" where
  "covering sp j = length (filter (\<lambda>s. fst s \<le> j \<and> j < snd s) sp)"

definition tiles :: "(nat \<times> nat) list \<Rightarrow> nat \<Rightarrow> nat \<Rightarrow> bool" where
  "tiles sp a b \<longleftrightarrow> (\<forall>j. covering sp j = (if a \<le> j \<and> j < b then 1 else 0))"

definition node_ok :: "Node \<Rightarrow> bool" where
  "node_ok n \<longleftrightarrow>
     is_page n \<and> KindOf n \<in> {KindBTreeLeaf, KindBTreeInternal} \<and> (NodeLeaf n \<longleftrightarrow> Level n = 0)
     \<and> get16 n offPad = 0
     \<and> unat (FreeStart n) = 24 + 4 * KeyCount n \<and> unat (FreeStart n) \<le> unat (FreeEnd n) \<and> unat (FreeEnd n) \<le> PageSize
     \<and> (\<forall>i < KeyCount n. fst (bnd n i) + suffixLen n < snd (bnd n i))
     \<and> tiles (cell_spans n) (unat (FreeEnd n)) PageSize
     \<and> sorted_wrt (<) (node_keys n)"

lemma covering_simps [simp]:
  "covering [] j = 0"
  "covering (s # sp) j = (if fst s \<le> j \<and> j < snd s then Suc (covering sp j) else covering sp j)"
  by (simp_all add: covering_def)

lemma covering_append [simp]: "covering (sp @ sp') j = covering sp j + covering sp' j"
  by (simp add: covering_def)

lemma covering_mset: "covering sp j = size (filter_mset (\<lambda>s. fst s \<le> j \<and> j < snd s) (mset sp))"
  unfolding covering_def size_mset [symmetric] mset_filter ..

lemma covering_sort [simp]: "covering (sort_key f sp) j = covering sp j"
  by (simp add: covering_mset)

lemma covering_pos: "0 < covering sp j \<longleftrightarrow> (\<exists>s \<in> set sp. fst s \<le> j \<and> j < snd s)"
  by (induction sp) auto

lemma tiles_inside:
  assumes "tiles sp a b" "s \<in> set sp" "fst s < snd s"
  shows "a \<le> fst s" "snd s \<le> b"
proof -
  have "0 < covering sp (fst s)" using assms(2,3) unfolding covering_pos by force
  then show "a \<le> fst s" using assms(1) by (simp add: tiles_def split: if_splits)
  have "0 < covering sp (snd s - 1)" using assms(2,3) unfolding covering_pos by force
  then show "snd s \<le> b" using assms(1,3) by (simp add: tiles_def split: if_splits)
qed

text \<open>The loop over the sorted spans accepts exactly the spans that tile the area.\<close>

fun contiguous :: "nat \<Rightarrow> (nat \<times> nat) list \<Rightarrow> nat \<Rightarrow> bool" where
  "contiguous a [] b \<longleftrightarrow> a = b"
| "contiguous a (s # sp) b \<longleftrightarrow> fst s = a \<and> contiguous (snd s) sp b"

lemma check_adjacent_None: "check_adjacent s sp = None \<longleftrightarrow> contiguous (snd s) sp PageSize"
  by (induction s sp rule: check_adjacent.induct) auto

lemma contiguous_le: "contiguous a sp b \<Longrightarrow> \<forall>s \<in> set sp. fst s < snd s \<Longrightarrow> a \<le> b"
  by (induction sp arbitrary: a) (auto intro: less_imp_le less_le_trans)

lemma contiguous_tiles: "contiguous a sp b \<Longrightarrow> \<forall>s \<in> set sp. fst s < snd s \<Longrightarrow> tiles sp a b"
proof (induction sp arbitrary: a)
  case (Cons s sp)
  then have "tiles sp (snd s) b" "fst s = a" "snd s \<le> b" "fst s < snd s" using contiguous_le by auto
  then show ?case by (auto simp: tiles_def)
qed (simp add: tiles_def)

lemma tiles_contiguous:
  "tiles sp a b \<Longrightarrow> a \<le> b \<Longrightarrow> sorted (map fst sp) \<Longrightarrow> \<forall>s \<in> set sp. fst s < snd s \<Longrightarrow> contiguous a sp b"
proof (induction sp arbitrary: a)
  case Nil
  then show ?case by (auto simp: tiles_def split: if_splits)
next
  case (Cons s sp)
  have s: "fst s < snd s" "a \<le> fst s" "snd s \<le> b"
    using Cons.prems(4) tiles_inside [OF Cons.prems(1), of s] by auto
  have "a < b" using s by linarith
  then have "covering (s # sp) a = 1" using Cons.prems(1) unfolding tiles_def by (simp del: covering_simps)
  then have "0 < covering (s # sp) a" by linarith
  then obtain u where "u \<in> set (s # sp)" "fst u \<le> a" unfolding covering_pos by blast
  then have a: "fst s = a" using Cons.prems(3) s(2) by (fastforce intro: antisym)
  have "tiles sp (snd s) b"
    unfolding tiles_def
  proof
    fix j
    have c: "covering (s # sp) j = (if a \<le> j \<and> j < b then 1 else 0)"
      using Cons.prems(1) by (simp only: tiles_def)
    show "covering sp j = (if snd s \<le> j \<and> j < b then 1 else 0)"
      using c a s by (auto split: if_splits)
  qed
  then show ?case using Cons.IH [of "snd s"] Cons.prems(3,4) s a by simp
qed

lemma sorted_contiguous:
  assumes "\<forall>s \<in> set sp. fst s < snd s" "a \<le> b"
  shows "contiguous a (sort_key fst sp) b \<longleftrightarrow> tiles sp a b"
proof -
  have "tiles (sort_key fst sp) a b \<longleftrightarrow> tiles sp a b" by (simp add: tiles_def)
  then show ?thesis
    using contiguous_tiles [of a "sort_key fst sp" b] tiles_contiguous [of "sort_key fst sp" a b] assms by auto
qed

text \<open>So whatever order \<open>sort.Slice\<close> leaves equal starts in, the verdict is the same.\<close>

lemma any_sort_same_verdict:
  assumes "mset sp' = mset sp" "sorted (map fst sp')" "\<forall>s \<in> set sp. fst s < snd s" "a \<le> b"
  shows "contiguous a sp' b \<longleftrightarrow> contiguous a (sort_key fst sp) b"
proof -
  have "covering sp' j = covering sp j" for j
    using assms(1) by (simp add: covering_mset)
  then have "tiles sp' a b \<longleftrightarrow> tiles sp a b" by (simp add: tiles_def)
  moreover have "\<forall>s \<in> set sp'. fst s < snd s" using assms(1,3) mset_eq_setD by blast
  ultimately show ?thesis
    using sorted_contiguous [OF assms(3,4)] contiguous_tiles [of a sp' b] tiles_contiguous [of sp' a b] assms(2,4) by blast
qed

section \<open>\<open>Validate\<close> decides \<open>node_ok\<close>\<close>

lemma slotOffset_eq: "slotOffset i = 24 + 4 * i"
  by (simp add: slotOffset_def)

lemma cellBounds_in:
  "is_page n \<Longrightarrow> 28 + 4 * i \<le> 4096 \<Longrightarrow> cellBounds n i = Some (bnd n i)"
  by (simp add: cellBounds_def slotOffset_eq bnd_def is_page_length Let_def add.commute)

lemma length_cell_at: "is_page n \<Longrightarrow> snd (bnd n i) \<le> 4096 \<Longrightarrow> length (cell_at n i) = snd (bnd n i) - fst (bnd n i)"
  unfolding cell_at_def by (rule length_subslice) (simp add: is_page_length bnd_def)

lemma cell_in:
  assumes "is_page n" "28 + 4 * i \<le> 4096" "snd (bnd n i) \<le> 4096"
  shows "cell n i = Some (cell_at n i)"
proof -
  have "fst (bnd n i) \<le> snd (bnd n i)" by (simp add: bnd_def)
  then show ?thesis
    using assms by (simp add: cell_def cellBounds_in slice_of_def cell_at_def subslice_def is_page_length case_prod_beta)
qed

lemma KeyRef_in:
  assumes "is_page n" "28 + 4 * i \<le> 4096" "snd (bnd n i) \<le> 4096" "fst (bnd n i) + suffixLen n \<le> snd (bnd n i)"
  shows "KeyRef n i = Some (key_at n i)"
  using assms by (simp add: KeyRef_def cell_in length_cell_at key_at_def)

lemma collect_spans_in:
  assumes "is_page n" "28 + 4 * (i + m) \<le> 4100"
  shows "\<exists>r. collect_spans n i m = Some r
    \<and> (\<forall>sp. r = Inr sp \<longleftrightarrow>
         sp = map (bnd n) [i..<i + m]
         \<and> (\<forall>j \<in> {i..<i + m}. unat (FreeStart n) \<le> fst (bnd n j) \<and> snd (bnd n j) \<le> 4096
              \<and> fst (bnd n j) + suffixLen n < snd (bnd n j)))"
  using assms(2)
proof (induction m arbitrary: i)
  case (Suc m)
  obtain r where r: "collect_spans n (Suc i) m = Some r"
    "\<And>sp. r = Inr sp \<longleftrightarrow>
         sp = map (bnd n) [Suc i..<Suc i + m]
         \<and> (\<forall>j \<in> {Suc i..<Suc i + m}. unat (FreeStart n) \<le> fst (bnd n j) \<and> snd (bnd n j) \<le> 4096
              \<and> fst (bnd n j) + suffixLen n < snd (bnd n j))"
    using Suc.IH [of "Suc i"] Suc.prems by auto
  have b: "cellBounds n i = Some (bnd n i)" using cellBounds_in [OF assms(1)] Suc.prems by simp
  have range: "[i..<i + Suc m] = i # [Suc i..<Suc i + m]" "{i..<i + Suc m} = insert i {Suc i..<Suc i + m}"
    by (auto simp: upt_conv_Cons)
  let ?good = "unat (FreeStart n) \<le> fst (bnd n i) \<and> snd (bnd n i) \<le> 4096 \<and> fst (bnd n i) + suffixLen n < snd (bnd n i)"
  show ?case
  proof (cases ?good)
    case True
    then have c: "collect_spans n i (Suc m) =
        (case r of Inr sp \<Rightarrow> Some (Inr (bnd n i # sp)) | _ \<Rightarrow> Some r)"
      using r(1) b by (auto simp: split: prod.split sum.split)
    show ?thesis
    proof (cases r)
      case (Inl e)
      then show ?thesis using c r(2) True unfolding range by auto
    next
      case (Inr sp)
      then show ?thesis using c r(2) [of sp] True unfolding range by auto
    qed
  next
    case False
    then have "\<exists>e. collect_spans n i (Suc m) = Some (Inl e)"
      using b by (cases "bnd n i") (auto split: if_splits)
    then show ?thesis using False unfolding range by auto
  qed
qed auto

lemma check_ascending_in:
  assumes "\<And>j. j \<le> i + m \<Longrightarrow> KeyRef n j = Some (key_at n j)"
  shows "\<exists>r. check_ascending n i m = Some r \<and> (r = None \<longleftrightarrow> (\<forall>j \<in> {i..<i + m}. key_at n j < key_at n (Suc j)))"
  using assms
proof (induction m arbitrary: i)
  case (Suc m)
  obtain r where r: "check_ascending n (Suc i) m = Some r"
    "r = None \<longleftrightarrow> (\<forall>j \<in> {Suc i..<Suc i + m}. key_at n j < key_at n (Suc j))"
    using Suc.IH [of "Suc i"] Suc.prems by auto
  have range: "{i..<i + Suc m} = insert i {Suc i..<Suc i + m}" by auto
  have k: "KeyRef n i = Some (key_at n i)" "KeyRef n (Suc i) = Some (key_at n (Suc i))"
    using Suc.prems by simp_all
  show ?case using r k unfolding range by (auto simp: not_less)
qed simp

lemma sorted_keys_iff:
  "sorted_wrt (<) (node_keys n) \<longleftrightarrow> (\<forall>j \<in> {0..<KeyCount n - 1}. key_at n j < key_at n (Suc j))"
proof -
  have t: "transp ((<) :: bytes \<Rightarrow> bytes \<Rightarrow> bool)" by (rule transp_on_less)
  show ?thesis
    by (auto simp: sorted_wrt_iff_nth_Suc_transp [OF t] node_keys_def)
qed

definition header_ok :: "Node \<Rightarrow> bool" where
  "header_ok n \<longleftrightarrow>
     KindOf n \<in> {KindBTreeLeaf, KindBTreeInternal} \<and> (NodeLeaf n \<longleftrightarrow> Level n = 0) \<and> get16 n offPad = 0
     \<and> unat (FreeStart n) = 24 + 4 * KeyCount n \<and> unat (FreeStart n) \<le> unat (FreeEnd n) \<and> unat (FreeEnd n) \<le> PageSize"

lemma header_refused: "\<not> header_ok n \<Longrightarrow> \<exists>e. NodeValidate n = Some (Some e)"
  by (auto simp: NodeValidate_def header_ok_def Let_def word_less_nat_alt mult.commute)

lemma set_cell_spans: "set (cell_spans n) = bnd n ` {0..<KeyCount n}"
  by (auto simp: cell_spans_def)

lemma cells_inside:
  assumes "tiles (cell_spans n) a b" "i < KeyCount n" "fst (bnd n i) < snd (bnd n i)"
  shows "a \<le> fst (bnd n i)" "snd (bnd n i) \<le> b"
  using tiles_inside [OF assms(1), of "bnd n i"] assms(2,3) by (auto simp: set_cell_spans)

lemma Validate_decides:
  assumes "is_page n"
  shows "\<exists>r. NodeValidate n = Some r \<and> (r = None \<longleftrightarrow> node_ok n)"
proof (cases "header_ok n")
  case False
  then show ?thesis using header_refused [of n] by (auto simp: node_ok_def header_ok_def)
next
  case header: True
  let ?fe = "unat (FreeEnd n)" and ?c = "KeyCount n"
  have ok: "node_ok n \<longleftrightarrow> (\<forall>i < ?c. fst (bnd n i) + suffixLen n < snd (bnd n i))
      \<and> tiles (cell_spans n) ?fe 4096 \<and> sorted_wrt (<) (node_keys n)"
    using header assms by (auto simp: node_ok_def header_ok_def)
  have room: "24 + 4 * ?c \<le> ?fe" "?fe \<le> 4096" "unat (FreeStart n) = 24 + 4 * ?c"
    using header by (simp_all add: header_ok_def)
  show ?thesis
  proof (cases "?c = 0")
    case True
    have "NodeValidate n = Some (if ?fe \<noteq> 4096 then Some (ErrInvariant (EmptyFreeEnd (FreeEnd n))) else None)"
      using header True by (auto simp: NodeValidate_def header_ok_def Let_def word_less_nat_alt)
    moreover have "tiles [] ?fe 4096 \<longleftrightarrow> ?fe = 4096"
      using room(2) sorted_contiguous [of "[]" ?fe 4096] by simp
    ultimately show ?thesis using True unfolding ok by (simp add: cell_spans_def node_keys_def)
  next
    case False
    obtain r where r: "collect_spans n 0 ?c = Some r"
      "\<And>sp. r = Inr sp \<longleftrightarrow> sp = cell_spans n
         \<and> (\<forall>j \<in> {0..<?c}. unat (FreeStart n) \<le> fst (bnd n j) \<and> snd (bnd n j) \<le> 4096
              \<and> fst (bnd n j) + suffixLen n < snd (bnd n j))"
      using collect_spans_in [OF assms, of 0 ?c] room by (auto simp: cell_spans_def)
    have v: "NodeValidate n = (case r of Inl e \<Rightarrow> Some (Some e)
        | Inr sp \<Rightarrow> (case sort_key fst sp of [] \<Rightarrow> None
            | s # ss \<Rightarrow> if fst s \<noteq> ?fe then Some (Some (ErrInvariant (LowestCell (fst s) (FreeEnd n))))
                else (case check_adjacent s ss of Some e \<Rightarrow> Some (Some e) | None \<Rightarrow> check_ascending n 0 (?c - 1))))"
      using header False r(1) by (auto simp: NodeValidate_def header_ok_def Let_def word_less_nat_alt)
    show ?thesis
    proof (cases r)
      case (Inl e)
      then have "\<not> (\<forall>j \<in> {0..<?c}. 24 + 4 * ?c \<le> fst (bnd n j) \<and> snd (bnd n j) \<le> 4096
              \<and> fst (bnd n j) + suffixLen n < snd (bnd n j))"
        using r(2) [of "cell_spans n"] room(3) by simp
      moreover have "24 + 4 * ?c \<le> fst (bnd n j) \<and> snd (bnd n j) \<le> 4096 \<and> fst (bnd n j) + suffixLen n < snd (bnd n j)"
        if "node_ok n" "j < ?c" for j
      proof -
        have "fst (bnd n j) + suffixLen n < snd (bnd n j)" "tiles (cell_spans n) ?fe 4096" using that ok by simp_all
        then show ?thesis using cells_inside [of n ?fe 4096 j] that(2) room(1) by force
      qed
      ultimately have "\<not> node_ok n" by auto
      then show ?thesis using v Inl by simp
    next
      case (Inr sp)
      then have sp: "sp = cell_spans n" and cells: "\<forall>j < ?c. snd (bnd n j) \<le> 4096 \<and> fst (bnd n j) + suffixLen n < snd (bnd n j)"
        using r(2) by auto
      have pos: "\<forall>s \<in> set sp. fst s < snd s" using cells unfolding sp set_cell_spans by (auto dest: add_lessD1)
      obtain s ss where s: "sort_key fst sp = s # ss"
        using False by (cases "sort_key fst sp") (auto simp: sp cell_spans_def dest: arg_cong [of _ _ length])
      have tile: "fst s = ?fe \<and> check_adjacent s ss = None \<longleftrightarrow> tiles (cell_spans n) ?fe 4096"
        using sorted_contiguous [OF pos room(2)] by (simp add: check_adjacent_None s flip: sp)
      have "KeyRef n j = Some (key_at n j)" if "j \<le> 0 + (?c - 1)" for j
      proof -
        have j: "j < ?c" using that False by simp
        then show ?thesis using KeyRef_in [OF assms, of j] cells room(1,2) by force
      qed
      then obtain k where k: "check_ascending n 0 (?c - 1) = Some k" "k = None \<longleftrightarrow> sorted_wrt (<) (node_keys n)"
        using check_ascending_in [of 0 "?c - 1" n] unfolding sorted_keys_iff by auto
      show ?thesis
        using v Inr s tile k cells ok by (auto split: option.splits)
    qed
  qed
qed

end
