(* ===== verification/NodeText.thy ===== *)
theory NodeText
  imports NodePage Text
begin

text \<open>
  \<open>nodepage/describe.go\<close>: the text that shows a node byte by byte.  \<open>Describe\<close> slices the page where
  its header and its slots say, so on a damaged page it can panic.
\<close>

definition linkMeaning :: "Node \<Rightarrow> string" where
  "linkMeaning n = (if NodeLeaf n then ''next leaf'' else ''first child'')"

definition region :: "string \<Rightarrow> string \<Rightarrow> string \<Rightarrow> string" where
  "region a b c = pad_right 14 a @ '' '' @ pad_right 13 b @ '' '' @ c @ nl"

definition span_text :: "int \<Rightarrow> int \<Rightarrow> string" where
  "span_text a b = dec_int a @ ''..'' @ dec_int b"

definition NodeMap :: "Node \<Rightarrow> string" where
  "NodeMap n =
     (let count = KeyCount n; fs = int (unat (FreeStart n)); fe = int (unat (FreeEnd n)) in
      region ''region'' ''bytes'' ''holds''
      @ replicate 62 CHR 0x2D @ nl
      @ region ''page header'' (span_text 0 (int HeaderSize - 1)) ''id, kind, item count, free start, free end''
      @ region ''node header'' (span_text (int HeaderSize) (int SlotArrayStart - 1)) (linkMeaning n @ '', level, 2 pad'')
      @ region ''slot array'' (span_text (int SlotArrayStart) (fs - 1))
          (dec count @ '' slots x '' @ dec SlotSize @ '' bytes, in key order'')
      @ region ''free space'' (span_text fs (fe - 1)) (dec_int (FreeSpace n) @ '' bytes, grows shut from both ends'')
      @ region ''cells'' (span_text fe (int PageSize - 1)) (dec count @ '' cells, packed from the end, insertion order''))"

definition describe_row :: "Node \<Rightarrow> nat \<Rightarrow> nat \<Rightarrow> string \<Rightarrow> string" where
  "describe_row n off len meaning =
     pad_right 9 (span_text (int off) (int (off + len) - 1)) @ '' ''
     @ pad_right 14 (hex_bytes (subslice off len n)) @ '' '' @ meaning @ nl"

definition describe_header :: "Node \<Rightarrow> string" where
  "describe_header n =
     describe_row n 0 4 (''page id = '' @ dec (unat (ID n)))
     @ describe_row n 4 1 (''kind = '' @ dec (unat (n ! 4)) @ '' ('' @ KindString (KindOf n) @ '')'')
     @ describe_row n 5 1 (''flags = '' @ bin8 (Flags n))
     @ describe_row n 6 2 (''key count = '' @ dec (KeyCount n))
     @ describe_row n 8 2 (''free start = '' @ dec (unat (FreeStart n)) @ '' (slot array ends here)'')
     @ describe_row n 10 2 (''free end = '' @ dec (unat (FreeEnd n)) @ '' (lowest cell starts here)'')
     @ describe_row n 12 4 ''reserved for the checksum in 0x13''
     @ describe_row n offLink 4 (linkMeaning n @ '' = page '' @ dec (unat (link n)))
     @ describe_row n offLevel 2 (''level = '' @ dec (unat (Level n)) @ '' (0 means leaf)'')
     @ describe_row n offPad 2 ''padding, keeps the slot array 4-byte aligned''"

text \<open>The three loops over the entries.\<close>

fun describe_slots :: "Node \<Rightarrow> nat \<Rightarrow> nat \<Rightarrow> string option" where
  "describe_slots n i 0 = Some []"
| "describe_slots n i (Suc m) =
     do { (lo, hi) \<leftarrow> cellBounds n i;
          raw \<leftarrow> slice_of n (slotOffset i) (slotOffset i + SlotSize);
          rest \<leftarrow> describe_slots n (Suc i) m;
          Some (pad_right 6 (dec i) @ '' '' @ pad_right 9 (dec (slotOffset i)) @ '' ''
            @ pad_right 12 (hex_bytes raw) @ '' '' @ pad_right 9 (dec lo) @ '' '' @ dec (hi - lo) @ nl @ rest) }"

fun describe_cells :: "Node \<Rightarrow> nat \<Rightarrow> nat \<Rightarrow> string option" where
  "describe_cells n i 0 = Some []"
| "describe_cells n i (Suc m) =
     do { (lo, hi) \<leftarrow> cellBounds n i;
          key \<leftarrow> KeyRef n i;
          tail \<leftarrow> (if NodeLeaf n then
                     do { r \<leftarrow> Row n i;
                          Some (''row id -> page '' @ dec (unat (RowID.Page r)) @ '' slot '' @ dec (unat (RowID.Slot r))) }
                   else do { c \<leftarrow> Child n (i + 1); Some (''child -> page '' @ dec (unat c)) });
          rest \<leftarrow> describe_cells n (Suc i) m;
          Some (pad_right 6 (dec i) @ '' '' @ pad_right 9 (dec lo) @ '' '' @ pad_right 22 (hex_bytes key) @ '' ''
            @ tail @ nl @ rest) }"

fun describe_children :: "Node \<Rightarrow> nat \<Rightarrow> nat \<Rightarrow> string option" where
  "describe_children n i 0 = Some []"
| "describe_children n i (Suc m) =
     do { c \<leftarrow> Child n i;
          key \<leftarrow> KeyRef n (i - 1);
          rest \<leftarrow> describe_children n (Suc i) m;
          Some (''  child '' @ dec i @ '' = page '' @ dec (unat c) @ ''  (from slot '' @ dec (i - 1)
            @ '', keys >= '' @ hex_bytes key @ '')'' @ nl @ rest) }"

definition NodeDescribe :: "Node \<Rightarrow> string option" where
  "NodeDescribe n =
     (let count = KeyCount n;
          intro =
            ''page '' @ dec (unat (ID n)) @ ''  '' @ KindString (KindOf n) @ ''  level '' @ dec (unat (Level n))
            @ ''  '' @ dec count @ '' keys'' @ nl @ nl
            @ NodeMap n
            @ nl @ ''headers, byte for byte'' @ nl @ nl
            @ Hexdump (subslice 0 SlotArrayStart n) 0
            @ nl @ pad_right 9 ''offset'' @ '' '' @ pad_right 14 ''bytes'' @ '' meaning'' @ nl
            @ replicate 62 CHR 0x2D @ nl
            @ describe_header n
      in if count = 0 then Some (intro @ nl @ ''no entries'' @ nl)
         else
           do { array \<leftarrow> slice_of n SlotArrayStart (unat (FreeStart n));
                slots \<leftarrow> describe_slots n 0 count;
                area \<leftarrow> slice_of n (unat (FreeEnd n)) (length n);
                cells \<leftarrow> describe_cells n 0 count;
                kids \<leftarrow> (if NodeLeaf n then Some []
                         else
                           do { c \<leftarrow> Child n 0;
                                rest \<leftarrow> describe_children n 1 count;
                                Some (nl @ dec count @ '' keys, '' @ dec (ChildCount n) @ '' children'' @ nl
                                  @ ''  child 0 = page '' @ dec (unat c)
                                  @ ''  (from the node header, keys below key 0)'' @ nl @ rest) });
                Some (intro
                  @ nl @ ''slot array at '' @ dec SlotArrayStart @ '', '' @ dec count @ '' slots of '' @ dec SlotSize
                  @ '' bytes'' @ nl @ nl
                  @ Hexdump array SlotArrayStart
                  @ nl @ pad_right 6 ''slot'' @ '' '' @ pad_right 9 ''at'' @ '' '' @ pad_right 12 ''bytes'' @ '' ''
                  @ pad_right 9 ''cell at'' @ '' length'' @ nl
                  @ replicate 62 CHR 0x2D @ nl
                  @ slots
                  @ nl @ ''cells from '' @ dec (unat (FreeEnd n)) @ '' to '' @ dec (PageSize - 1)
                  @ '', packed downward'' @ nl @ nl
                  @ Hexdump area (unat (FreeEnd n))
                  @ nl @ pad_right 6 ''slot'' @ '' '' @ pad_right 9 ''cell at'' @ '' '' @ pad_right 22 ''key bytes''
                  @ '' then'' @ nl
                  @ replicate 68 CHR 0x2D @ nl
                  @ cells @ kids) })"

end
