(* ===== verification/NodeStore.thy ===== *)
theory NodeStore
  imports NodeText
begin

text \<open>
  What the stores and the searches of package \<open>nodepage\<close> do to a sound node: \<open>appendCell\<close> writes one
  cell, one slot and three header fields (\<open>with_cell\<close>) and leaves every other cell where it was; the
  contract of \<open>AppendLeaf\<close> and \<open>AppendInternal\<close> is the locale \<open>entry_node\<close>, from which the lemmas on
  appending a list of entries follow once for both; the constructors, the link stores, the binary
  searches over the slots, and the space the entries of a node take.
\<close>

section \<open>Appending a cell\<close>

lemma overwrite_append:
  assumes "off + length a + length b \<le> length xs"
  shows "overwrite (off + length a) b (overwrite off a xs) = overwrite off (a @ b) xs"
proof -
  have "min off (length xs) = off" using assms by simp
  then show ?thesis by (simp add: overwrite_def min.commute add.commute add.left_commute)
qed

lemma get_header [page_simps]:
  "is_page p \<Longrightarrow> HeaderSize \<le> off \<Longrightarrow> get16 (SetItemCount p v) off = get16 p off"
  "is_page p \<Longrightarrow> HeaderSize \<le> off \<Longrightarrow> get16 (SetFreeStart p v) off = get16 p off"
  "is_page p \<Longrightarrow> HeaderSize \<le> off \<Longrightarrow> get16 (SetFreeEnd p v) off = get16 p off"
  by (simp_all add: get16_def page_simps)

lemma put16_header [page_simps]:
  assumes "is_page p" "HeaderSize \<le> off" "off + 2 \<le> 4096"
  shows "is_page (put16 p off v)" "ID (put16 p off v) = ID p" "KindOf (put16 p off v) = KindOf p"
    "ItemCount (put16 p off v) = ItemCount p" "FreeStart (put16 p off v) = FreeStart p"
    "FreeEnd (put16 p off v) = FreeEnd p"
  using assms by (simp_all add: put16_def page_simps)

text \<open>What \<open>appendCell\<close> stores: the bytes, the slot and the three header fields.\<close>

definition with_cell :: "Node \<Rightarrow> nat \<Rightarrow> bytes \<Rightarrow> Node" where
  "with_cell n start b =
     (let s = 24 + 4 * KeyCount n in
      SetItemCount
        (SetFreeStart
          (SetFreeEnd (put16 (put16 (overwrite start b n) s (word_of_nat start)) (s + 2) (word_of_nat (length b)))
             (word_of_nat start))
          (word_of_nat (s + 4)))
        (ItemCount n + 1))"

lemma with_cell_subslice:
  assumes "is_page n" "28 + 4 * KeyCount n \<le> start" "start + length b \<le> 4096"
    "HeaderSize \<le> off" "off + k \<le> start \<or> start + length b \<le> off"
    "off + k \<le> 24 + 4 * KeyCount n \<or> 28 + 4 * KeyCount n \<le> off"
  shows "subslice off k (with_cell n start b) = subslice off k n"
proof -
  have l: "length n = 4096" using assms(1) by (simp add: is_page_length)
  have "subslice off k (overwrite start b n) = subslice off k n"
    using assms(5) l assms(3) by (auto simp: slice_simps)
  moreover have "off + k \<le> 24 + 4 * KeyCount n \<or> 24 + 4 * KeyCount n + 2 \<le> off"
    "off + k \<le> 26 + 4 * KeyCount n \<or> 26 + 4 * KeyCount n + 2 \<le> off" using assms(6) by auto
  ultimately show ?thesis using assms(1-4) l
    by (simp add: with_cell_def Let_def page_simps slice_simps add.commute)
qed

lemma with_cell_bytes:
  assumes "is_page n" "28 + 4 * KeyCount n \<le> start" "start + length b \<le> 4096"
  shows "subslice start (length b) (with_cell n start b) = b"
  using assms by (simp add: with_cell_def Let_def page_simps slice_simps is_page_length)

lemma with_cell_slot:
  assumes "is_page n" "28 + 4 * KeyCount n \<le> start" "start + length b \<le> 4096"
  shows "get16 (with_cell n start b) (24 + 4 * KeyCount n) = word_of_nat start"
    "get16 (with_cell n start b) (26 + 4 * KeyCount n) = word_of_nat (length b)"
  using assms by (simp_all add: with_cell_def Let_def page_simps slice_simps is_page_length add.commute)

lemma with_cell_header:
  assumes "is_page n" "28 + 4 * KeyCount n \<le> start" "start + length b \<le> 4096"
  shows "is_page (with_cell n start b)" "KindOf (with_cell n start b) = KindOf n" "ID (with_cell n start b) = ID n"
    "KeyCount (with_cell n start b) = Suc (KeyCount n)"
    "unat (FreeStart (with_cell n start b)) = 28 + 4 * KeyCount n" "unat (FreeEnd (with_cell n start b)) = start"
proof -
  have c: "unat (ItemCount n + 1) = Suc (unat (ItemCount n))"
    using assms by (simp add: KeyCount_def unat_word_ariths)
  have f: "unat (word_of_nat (24 + 4 * KeyCount n + 4) :: u16) = 28 + 4 * KeyCount n"
    using assms by (simp add: unat_of_nat del: of_nat_add of_nat_mult)
  show "is_page (with_cell n start b)" "KindOf (with_cell n start b) = KindOf n" "ID (with_cell n start b) = ID n"
    "KeyCount (with_cell n start b) = Suc (KeyCount n)"
    using assms c by (simp_all add: with_cell_def Let_def page_simps KeyCount_def)
  show "unat (FreeEnd (with_cell n start b)) = start"
    using assms by (simp add: with_cell_def Let_def page_simps unat_of_nat)
  show "unat (FreeStart (with_cell n start b)) = 28 + 4 * KeyCount n"
    using assms f by (simp add: with_cell_def Let_def page_simps del: of_nat_add of_nat_mult)
qed

lemma appendCell_refuses:
  "FreeSpace n < int (4 + length key + length tail) \<Longrightarrow>
   appendCell n key tail = Some (Some (ErrNodeNoFit (4 + length key + length tail) (FreeSpace n)), n)"
  by (simp add: appendCell_def Let_def)

lemma appendCell_stores:
  assumes "is_page n" "unat (FreeStart n) = 24 + 4 * KeyCount n" "unat (FreeEnd n) \<le> 4096"
    "int (4 + length key + length tail) \<le> FreeSpace n"
  obtains start where "appendCell n key tail = Some (None, with_cell n start (key @ tail))"
    "28 + 4 * KeyCount n \<le> start" "start + length (key @ tail) = unat (FreeEnd n)"
proof -
  have room: "24 + 4 * KeyCount n + (4 + length key + length tail) \<le> unat (FreeEnd n)"
    using assms(2,4) unfolding FreeSpace_fits by simp
  moreover define start where "start = unat (FreeEnd n) - length key - length tail"
  ultimately have start: "unat (FreeEnd n) = start + length key + length tail" "28 + 4 * KeyCount n \<le> start"
    by simp_all
  have l: "length n = 4096" using assms(1) by (simp add: is_page_length)
  have sub: "unat (FreeEnd n) - length key - length tail = start" "\<not> unat (FreeEnd n) < length key + length tail"
    using start by simp_all
  have c: "copy_at n start key = Some (overwrite start key n)"
    "copy_at (overwrite start key n) (start + length key) tail = Some (overwrite start (key @ tail) n)"
    using start(1) assms(3) l by (simp_all add: copy_at_fits overwrite_append)
  have k: "KeyCount (overwrite start (key @ tail) n) = KeyCount n"
    using assms(1,3) start by (simp add: KeyCount_def page_simps)
  let ?s = "24 + 4 * KeyCount n"
  have p: "put_slot (overwrite start (key @ tail) n) ?s v w
      = Some (put16 (put16 (overwrite start (key @ tail) n) ?s v) (?s + 2) w)" for v w
    using start assms(3) l by (simp add: put_slot_def)
  have i: "ItemCount (SetFreeStart (SetFreeEnd
      (put16 (put16 (overwrite start (key @ tail) n) ?s v) (?s + 2) w) x) y) = ItemCount n" for v w x y
    using assms(1,3) start by (simp add: page_simps)
  have "\<not> FreeSpace n < int (SlotSize + length key + length tail)" using assms(4) by simp
  then have "appendCell n key tail = Some (None, with_cell n start (key @ tail))"
    unfolding appendCell_def Let_def sub(1) using sub(2) c(1)
    by (simp only: if_False c option.case slotOffset_eq k p i with_cell_def Let_def length_append layout)
  then show thesis using that start by simp
qed

lemma suffixLen_KindOf: "KindOf m = KindOf n \<Longrightarrow> suffixLen m = suffixLen n"
  by (simp add: suffixLen_def NodeLeaf_def)

lemma tiles_snoc: "tiles sp e z \<Longrightarrow> a \<le> e \<Longrightarrow> e \<le> z \<Longrightarrow> tiles (sp @ [(a, e)]) a z"
  by (auto simp: tiles_def)

text \<open>Everything a sound node holds is where it was, and the cell comes last.\<close>

lemma with_cell_bnd:
  assumes "is_page n" "28 + 4 * KeyCount n \<le> start" "start + length b \<le> 4096"
  shows "i < KeyCount n \<Longrightarrow> bnd (with_cell n start b) i = bnd n i"
    "bnd (with_cell n start b) (KeyCount n) = (start, start + length b)"
proof -
  show "bnd (with_cell n start b) (KeyCount n) = (start, start + length b)"
    using assms by (simp add: bnd_def with_cell_slot unat_of_nat)
  assume i: "i < KeyCount n"
  have "get16 (with_cell n start b) off = get16 n off" if "off = 24 + 4 * i \<or> off = 26 + 4 * i" for off
    by (rule get_cong_subslice(1), rule with_cell_subslice) (use assms i that in auto)
  then show "bnd (with_cell n start b) i = bnd n i" by (simp add: bnd_def)
qed

lemma with_cell_cells:
  assumes "is_page n" "28 + 4 * KeyCount n \<le> start" "start + length b \<le> 4096"
  shows "i < KeyCount n \<Longrightarrow> start + length b \<le> fst (bnd n i) \<Longrightarrow> cell_at (with_cell n start b) i = cell_at n i"
    "cell_at (with_cell n start b) (KeyCount n) = b"
  using assms by (simp_all add: cell_at_def with_cell_bnd with_cell_bytes with_cell_subslice)

lemma with_cell_fields:
  assumes "is_page n" "28 + 4 * KeyCount n \<le> start" "start + length b \<le> 4096"
  shows "Level (with_cell n start b) = Level n" "link (with_cell n start b) = link n"
    "get16 (with_cell n start b) offPad = get16 n offPad"
  using assms by (auto simp: Level_def link_def intro!: get_cong_subslice with_cell_subslice)

lemma node_okD:
  assumes "node_ok n"
  shows "is_page n" "KindOf n \<in> {KindBTreeLeaf, KindBTreeInternal}" "unat (FreeStart n) = 24 + 4 * KeyCount n"
    "24 + 4 * KeyCount n \<le> unat (FreeEnd n)" "unat (FreeEnd n) \<le> 4096" "sorted_wrt (<) (node_keys n)"
    "tiles (cell_spans n) (unat (FreeEnd n)) 4096"
    "NodeLeaf n \<longleftrightarrow> Level n = 0" "get16 n offPad = 0"
  using assms by (simp_all add: node_ok_def)

lemma node_ok_cell:
  assumes "node_ok n" "i < KeyCount n"
  shows "unat (FreeEnd n) \<le> fst (bnd n i)" "fst (bnd n i) + suffixLen n < snd (bnd n i)" "snd (bnd n i) \<le> 4096"
    "28 + 4 * i \<le> 4096"
proof -
  show s: "fst (bnd n i) + suffixLen n < snd (bnd n i)" using assms by (simp add: node_ok_def)
  show "28 + 4 * i \<le> 4096" using node_okD(4,5) [OF assms(1)] assms(2) by linarith
  show "unat (FreeEnd n) \<le> fst (bnd n i)" "snd (bnd n i) \<le> 4096"
    using cells_inside [OF node_okD(7) [OF assms(1)] assms(2)] s by simp_all
qed

lemma node_ok_reads:
  assumes "node_ok n" "i < KeyCount n"
  shows "cell n i = Some (cell_at n i)" "KeyRef n i = Some (key_at n i)" "Key n i = Some (key_at n i)"
    "length (cell_at n i) = length (key_at n i) + suffixLen n" "key_at n i \<noteq> []"
proof -
  note c = node_ok_cell [OF assms] and p = node_okD(1) [OF assms(1)]
  show "cell n i = Some (cell_at n i)" using cell_in [OF p c(4,3)] .
  show k: "KeyRef n i = Some (key_at n i)" using KeyRef_in [OF p c(4,3)] c(2) by simp
  then show "Key n i = Some (key_at n i)" by (simp add: Key_def)
  have l: "length (cell_at n i) = snd (bnd n i) - fst (bnd n i)" using length_cell_at [OF p c(3)] .
  then show "length (cell_at n i) = length (key_at n i) + suffixLen n" "key_at n i \<noteq> []"
    using c(2) by (auto simp: key_at_def)
qed

lemma with_cell_ok:
  assumes n: "node_ok n" and key: "key \<noteq> []" "length tail = suffixLen n" "\<forall>k \<in> set (node_keys n). k < key"
    and room: "28 + 4 * KeyCount n \<le> start" "start + length (key @ tail) = unat (FreeEnd n)"
  shows "node_ok (with_cell n start (key @ tail))"
    "node_keys (with_cell n start (key @ tail)) = node_keys n @ [key]"
proof -
  let ?m = "with_cell n start (key @ tail)" and ?c = "KeyCount n"
  note ok = node_okD [OF n]
  have w: "is_page n" "28 + 4 * KeyCount n \<le> start" "start + length (key @ tail) \<le> 4096" using ok room by simp_all
  note header = with_cell_header [OF w] and bnds = with_cell_bnd [OF w] and fields = with_cell_fields [OF w]
  have suffix: "suffixLen ?m = suffixLen n" "NodeLeaf ?m = NodeLeaf n"
    using suffixLen_KindOf [of ?m n] header(2) by (simp_all add: NodeLeaf_def)
  have cells: "cell_at ?m i = cell_at n i" if "i < ?c" for i
    using with_cell_cells(1) [OF w that] node_ok_cell(1) [OF n that] room(2) by simp
  have keys: "key_at ?m i = (if i < ?c then key_at n i else key)" if "i \<le> ?c" for i
    using that cells with_cell_cells(2) [OF w] key(2) by (cases "i < ?c") (auto simp: key_at_def suffix)
  have upt: "[0..<Suc ?c] = [0..<?c] @ [?c]" by simp
  show nk: "node_keys ?m = node_keys n @ [key]"
    using keys unfolding node_keys_def header(4) upt by simp
  have spans: "cell_spans ?m = cell_spans n @ [(start, unat (FreeEnd n))]"
    using bnds room(2) unfolding cell_spans_def header(4) upt by simp
  have "tiles (cell_spans ?m) start 4096"
    unfolding spans using tiles_snoc [OF ok(7)] room(2) ok(5) by simp
  moreover have "fst (bnd ?m i) + suffixLen n < snd (bnd ?m i)" if "i < Suc ?c" for i
    using that bnds node_ok_cell(2) [OF n] key(1,2) by (cases "i < ?c") (auto simp: less_Suc_eq)
  ultimately show "node_ok ?m"
    using header room ok key(3) nk w(3) unfolding node_ok_def suffix fields
    by (simp add: sorted_wrt_append)
qed

section \<open>The contract of the two append operations\<close>

lemma row_bytes_read:
  "length (row_bytes rid) = 6" "get32 (row_bytes rid) 0 = RowID.Page rid" "get16 (row_bytes rid) 4 = RowID.Slot rid"
  by (simp_all add: row_bytes_def slice_simps)

lemma child_bytes_read: "length (child_bytes c) = 4" "get32 (child_bytes c) 0 = c"
  by (simp_all add: child_bytes_def slice_simps)

text \<open>The value beside a key: the row of a leaf, the child to its right of an internal node.\<close>

definition row_at :: "Node \<Rightarrow> nat \<Rightarrow> RowID option" where "row_at n i = Row n i"
definition child_at :: "Node \<Rightarrow> nat \<Rightarrow> PageID option" where "child_at n i = Child n (Suc i)"

lemma appendCell_grows:
  assumes n: "node_ok n" and key: "key \<noteq> []" "\<forall>k \<in> set (node_keys n). k < key"
    and tail: "length tail = suffixLen n" and fits: "Fits n (length key)"
  obtains m where "appendCell n key tail = Some (None, m)" "node_ok m" "node_keys m = node_keys n @ [key]"
    "KeyCount m = Suc (KeyCount n)" "KindOf m = KindOf n" "ID m = ID n" "link m = link n" "Level m = Level n"
    "FreeSpace m = FreeSpace n - int (EntrySize n (length key))"
    "cell m (KeyCount n) = Some (key @ tail)" "\<And>i. i < KeyCount n \<Longrightarrow> cell m i = cell n i"
proof -
  note ok = node_okD [OF n]
  have "int (4 + length key + length tail) \<le> FreeSpace n" using fits tail by (simp add: Fits_def EntrySize_def)
  then obtain start where a: "appendCell n key tail = Some (None, with_cell n start (key @ tail))"
    and start: "28 + 4 * KeyCount n \<le> start" "start + length (key @ tail) = unat (FreeEnd n)"
    using appendCell_stores [OF ok(1,3,5)] by metis
  let ?m = "with_cell n start (key @ tail)"
  have w: "is_page n" "28 + 4 * KeyCount n \<le> start" "start + length (key @ tail) \<le> 4096" using ok(1,5) start by simp_all
  note m = with_cell_ok [OF n key(1) tail key(2) start] and header = with_cell_header [OF w] and fields = with_cell_fields [OF w]
  have s: "FreeSpace ?m = FreeSpace n - int (EntrySize n (length key))"
    unfolding FreeSpace_def header ok(3) using start tail by (simp add: EntrySize_def flip: start(2))
  have "cell ?m i = cell n i" if "i < KeyCount n" for i
    using that node_ok_reads(1) [OF m(1)] node_ok_reads(1) [OF n] header(4) with_cell_cells(1) [OF w that]
      node_ok_cell(1) [OF n that] start(2) by simp
  moreover have "cell ?m (KeyCount n) = Some (key @ tail)"
    using node_ok_reads(1) [OF m(1)] header(4) with_cell_cells(2) [OF w] by simp
  ultimately show thesis using that [OF a m header(4,2,3) fields(2,1) s] by simp
qed

lemma key_fits_iff: "length tail = suffixLen n \<Longrightarrow>
  Fits n (length key) \<longleftrightarrow> int (4 + length key + length tail) \<le> FreeSpace n"
  by (simp add: Fits_def EntrySize_def)

text \<open>What a client may rely on when it appends entries of one kind to nodes of that kind.\<close>

locale entry_node =
  fixes append :: "Node \<Rightarrow> bytes \<Rightarrow> 'v \<Rightarrow> (node_error option \<times> Node) option"
    and val :: "Node \<Rightarrow> nat \<Rightarrow> 'v option"
    and mine :: "Node \<Rightarrow> bool"
  assumes append_fits:
      "node_ok n \<Longrightarrow> mine n \<Longrightarrow> key \<noteq> [] \<Longrightarrow> \<forall>k \<in> set (node_keys n). k < key \<Longrightarrow> Fits n (length key) \<Longrightarrow>
       \<exists>m. append n key v = Some (None, m) \<and> node_ok m \<and> mine m \<and> node_keys m = node_keys n @ [key]
         \<and> KeyCount m = Suc (KeyCount n) \<and> KindOf m = KindOf n \<and> ID m = ID n \<and> link m = link n \<and> Level m = Level n
         \<and> FreeSpace m = FreeSpace n - int (EntrySize n (length key))
         \<and> val m (KeyCount n) = Some v \<and> (\<forall>i < KeyCount n. val m i = val n i)"
    and append_full:
      "mine n \<Longrightarrow> \<not> Fits n (length key) \<Longrightarrow>
       append n key v = Some (Some (ErrNodeNoFit (EntrySize n (length key)) (FreeSpace n)), n)"
    and append_wrong_kind: "\<not> mine n \<Longrightarrow> append n key v = Some (Some (ErrBadKind (KindOf n)), n)"

interpretation leaf_node: entry_node AppendLeaf row_at NodeLeaf
proof unfold_locales
  fix n :: Node and key :: bytes and v :: RowID
  assume n: "node_ok n" "NodeLeaf n" "key \<noteq> []" "\<forall>k \<in> set (node_keys n). k < key" "Fits n (length key)"
  have t: "length (row_bytes v) = suffixLen n" using n(2) by (simp add: row_bytes_read suffixLen_def)
  show "\<exists>m. AppendLeaf n key v = Some (None, m) \<and> node_ok m \<and> NodeLeaf m \<and> node_keys m = node_keys n @ [key]
         \<and> KeyCount m = Suc (KeyCount n) \<and> KindOf m = KindOf n \<and> ID m = ID n \<and> link m = link n \<and> Level m = Level n
         \<and> FreeSpace m = FreeSpace n - int (EntrySize n (length key))
         \<and> row_at m (KeyCount n) = Some v \<and> (\<forall>i < KeyCount n. row_at m i = row_at n i)"
    by (rule appendCell_grows [OF n(1,3,4) t n(5)])
      (use n(2) in \<open>simp add: AppendLeaf_def NodeLeaf_def row_at_def Row_def row_bytes_read\<close>)
next
  fix n :: Node and key :: bytes and v :: RowID
  assume "NodeLeaf n" "\<not> Fits n (length key)"
  then show "AppendLeaf n key v = Some (Some (ErrNodeNoFit (EntrySize n (length key)) (FreeSpace n)), n)"
    by (simp add: AppendLeaf_def appendCell_refuses row_bytes_read Fits_def EntrySize_def suffixLen_def)
qed (simp add: AppendLeaf_def)

interpretation internal_node: entry_node AppendInternal child_at "\<lambda>n. \<not> NodeLeaf n"
proof unfold_locales
  fix n :: Node and key :: bytes and v :: PageID
  assume n: "node_ok n" "\<not> NodeLeaf n" "key \<noteq> []" "\<forall>k \<in> set (node_keys n). k < key" "Fits n (length key)"
  have t: "length (child_bytes v) = suffixLen n" using n(2) by (simp add: child_bytes_read suffixLen_def)
  show "\<exists>m. AppendInternal n key v = Some (None, m) \<and> node_ok m \<and> \<not> NodeLeaf m \<and> node_keys m = node_keys n @ [key]
         \<and> KeyCount m = Suc (KeyCount n) \<and> KindOf m = KindOf n \<and> ID m = ID n \<and> link m = link n \<and> Level m = Level n
         \<and> FreeSpace m = FreeSpace n - int (EntrySize n (length key))
         \<and> child_at m (KeyCount n) = Some v \<and> (\<forall>i < KeyCount n. child_at m i = child_at n i)"
    by (rule appendCell_grows [OF n(1,3,4) t n(5)])
      (use n(2) in \<open>simp add: AppendInternal_def NodeLeaf_def child_at_def Child_def child_bytes_read\<close>)
next
  fix n :: Node and key :: bytes and v :: PageID
  assume "\<not> NodeLeaf n" "\<not> Fits n (length key)"
  then show "AppendInternal n key v = Some (Some (ErrNodeNoFit (EntrySize n (length key)) (FreeSpace n)), n)"
    by (simp add: AppendInternal_def appendCell_refuses child_bytes_read Fits_def EntrySize_def suffixLen_def)
qed (simp add: AppendInternal_def)

text \<open>Appending entries one by one, up to the first that is refused.\<close>

fun append_all :: "(Node \<Rightarrow> bytes \<Rightarrow> 'v \<Rightarrow> (node_error option \<times> Node) option) \<Rightarrow> Node \<Rightarrow> (bytes \<times> 'v) list
    \<Rightarrow> (node_error option \<times> Node) option" where
  "append_all f n [] = Some (None, n)"
| "append_all f n ((k, v) # es) =
     (case f n k v of Some (None, m) \<Rightarrow> append_all f m es | r \<Rightarrow> r)"

definition entry_bytes :: "Node \<Rightarrow> (bytes \<times> 'v) list \<Rightarrow> nat" where
  "entry_bytes n es = sum_list (map (EntrySize n \<circ> length \<circ> fst) es)"

lemma EntrySize_KindOf: "KindOf m = KindOf n \<Longrightarrow> EntrySize m = EntrySize n"
  using suffixLen_KindOf [of m n] by (auto simp: EntrySize_def)

lemma entry_bytes_simps [simp]:
  "entry_bytes n [] = 0" "entry_bytes n ((k, v) # es) = EntrySize n (length k) + entry_bytes n es"
  by (simp_all add: entry_bytes_def)

lemma entry_bytes_KindOf: "KindOf m = KindOf n \<Longrightarrow> entry_bytes m es = entry_bytes n es"
  using EntrySize_KindOf [of m n] by (simp add: entry_bytes_def)

context entry_node begin

lemma append_all_holds:
  assumes "node_ok n" "mine n" "sorted_wrt (<) (node_keys n @ map fst es)" "[] \<notin> fst ` set es"
  shows "\<exists>j r m. append_all append n es = Some (r, m) \<and> j \<le> length es
    \<and> (if j = length es then r = None
       else \<not> Fits m (length (fst (es ! j)))
         \<and> r = Some (ErrNodeNoFit (EntrySize n (length (fst (es ! j)))) (FreeSpace m)))
    \<and> node_ok m \<and> mine m \<and> node_keys m = node_keys n @ map fst (take j es) \<and> KeyCount m = KeyCount n + j
    \<and> KindOf m = KindOf n \<and> ID m = ID n \<and> link m = link n \<and> Level m = Level n
    \<and> FreeSpace m = FreeSpace n - int (entry_bytes n (take j es))
    \<and> (\<forall>i < KeyCount n. val m i = val n i)
    \<and> (\<forall>i < j. val m (KeyCount n + i) = Some (snd (es ! i)))"
  using assms
proof (induction es arbitrary: n)
  case (Cons e es)
  obtain k v where e: "e = (k, v)" by (cases e)
  have prems: "k \<noteq> []" "\<forall>x \<in> set (node_keys n). x < k"
    using Cons.prems(3-4) by (auto simp: e sorted_wrt_append)
  show ?case
  proof (cases "Fits n (length k)")
    case False
    then show ?thesis
      using append_full [OF Cons.prems(2) False, of v] Cons.prems(1,2) by (intro exI [of _ 0]) (simp add: e)
  next
    case True
    obtain a where a: "append n k v = Some (None, a)" "node_ok a" "mine a" "node_keys a = node_keys n @ [k]"
        "KeyCount a = Suc (KeyCount n)" "KindOf a = KindOf n" "ID a = ID n" "link a = link n" "Level a = Level n"
        "FreeSpace a = FreeSpace n - int (EntrySize n (length k))" "val a (KeyCount n) = Some v"
        "\<forall>i < KeyCount n. val a i = val n i"
      using append_fits [OF Cons.prems(1,2) prems True] by blast
    have "sorted_wrt (<) (node_keys a @ map fst es)" using Cons.prems(3) a(4) by (simp add: e)
    from Cons.IH [OF a(2,3) this] Cons.prems(4)
    obtain j r m where m: "append_all append a es = Some (r, m)" "j \<le> length es"
        "if j = length es then r = None
         else \<not> Fits m (length (fst (es ! j)))
           \<and> r = Some (ErrNodeNoFit (EntrySize n (length (fst (es ! j)))) (FreeSpace m))"
        "node_ok m" "mine m" "node_keys m = node_keys a @ map fst (take j es)" "KeyCount m = KeyCount a + j"
        "KindOf m = KindOf a" "ID m = ID a" "link m = link a" "Level m = Level a"
        "FreeSpace m = FreeSpace a - int (entry_bytes n (take j es))" "\<forall>i < KeyCount a. val m i = val a i"
        "\<forall>i < j. val m (KeyCount a + i) = Some (snd (es ! i))"
      unfolding entry_bytes_KindOf [OF a(6)] EntrySize_KindOf [OF a(6)] by auto
    have "val m (KeyCount n + i) = Some (snd (((k, v) # es) ! i))" if "i < Suc j" for i
      using that m(13,14) a(5,11) by (cases i) auto
    then show ?thesis
      using a m by (intro exI [of _ "Suc j"] exI [of _ r] exI [of _ m]) (simp add: e)
  qed
qed simp

lemma append_all_fits:
  assumes "node_ok n" "mine n" "sorted_wrt (<) (node_keys n @ map fst es)" "[] \<notin> fst ` set es"
    "int (entry_bytes n es) \<le> FreeSpace n"
  shows "\<exists>m. append_all append n es = Some (None, m) \<and> node_keys m = node_keys n @ map fst es"
proof -
  from append_all_holds [OF assms(1-4)]
  obtain j r m where m: "append_all append n es = Some (r, m)" "j \<le> length es" "KindOf m = KindOf n"
      "if j = length es then r = None else \<not> Fits m (length (fst (es ! j)))"
      "node_keys m = node_keys n @ map fst (take j es)"
      "FreeSpace m = FreeSpace n - int (entry_bytes n (take j es))"
    by metis
  have "j = length es"
  proof (rule ccontr)
    assume "j \<noteq> length es"
    then have j: "j < length es" using m(2) by simp
    have "entry_bytes n es = entry_bytes n (take j es @ es ! j # drop (Suc j) es)"
      using id_take_nth_drop [OF j] by simp
    then have "entry_bytes n (take j es) + EntrySize n (length (fst (es ! j))) \<le> entry_bytes n es"
      by (simp add: entry_bytes_def)
    then have "Fits m (length (fst (es ! j)))"
      using assms(5) m(6) unfolding Fits_def EntrySize_KindOf [OF m(3)] by simp
    then show False using m(4) j by simp
  qed
  then show ?thesis using m by auto
qed

end

section \<open>The empty nodes\<close>

lemma get16_NewPage: "HeaderSize \<le> off \<Longrightarrow> off + 2 \<le> PageSize \<Longrightarrow> get16 (NewPage i k) off = 0"
  using get_cong_subslice(1) [OF subslice_NewPage, of off i k] by simp

lemma get32_NewPage: "HeaderSize \<le> off \<Longrightarrow> off + 4 \<le> PageSize \<Longrightarrow> get32 (NewPage i k) off = 0"
  using get_cong_subslice(2) [OF subslice_NewPage, of off i k] by simp

lemma kinds_distinct [simp]: "KindBTreeLeaf \<noteq> KindBTreeInternal" "KindBTreeInternal \<noteq> KindBTreeLeaf"
  by (simp_all add: kind_defs)

lemma no_tiles [simp]: "tiles [] a a"
  by (simp add: tiles_def)

lemma NewLeaf_sound:
  "node_ok (NewLeaf i)" "NodeLeaf (NewLeaf i)" "node_keys (NewLeaf i) = []" "KeyCount (NewLeaf i) = 0"
  "FreeSpace (NewLeaf i) = 4072" "ID (NewLeaf i) = i" "NodeNext (NewLeaf i) = 0"
proof -
  note d = NewLeaf_def Let_def page_simps KeyCount_def NodeLeaf_def Level_def link_def
  have g: "get16 (NewLeaf i) off = get16 (NewPage i KindBTreeLeaf) off" "get32 (NewLeaf i) off = get32 (NewPage i KindBTreeLeaf) off"
    if "16 \<le> off" for off
    using that by (simp_all add: NewLeaf_def Let_def page_simps get16_def get32_def)
  show c: "KeyCount (NewLeaf i) = 0" "NodeLeaf (NewLeaf i)" "FreeSpace (NewLeaf i) = 4072" "ID (NewLeaf i) = i"
    by (simp_all add: d FreeSpace_def)
  show k: "node_keys (NewLeaf i) = []" by (simp add: node_keys_def c)
  have s: "cell_spans (NewLeaf i) = []" by (simp add: cell_spans_def c)
  show "NodeNext (NewLeaf i) = 0" by (simp add: NodeNext_def link_def g get32_NewPage)
  have "Level (NewLeaf i) = 0" "get16 (NewLeaf i) 22 = 0" by (simp_all add: Level_def g get16_NewPage)
  then show "node_ok (NewLeaf i)"
    unfolding node_ok_def by (simp add: c k s) (simp add: d)
qed

lemma setLevel_header [page_simps]:
  "is_page p \<Longrightarrow> is_page (setLevel p l)" "is_page p \<Longrightarrow> KindOf (setLevel p l) = KindOf p"
  "is_page p \<Longrightarrow> ItemCount (setLevel p l) = ItemCount p" "is_page p \<Longrightarrow> FreeStart (setLevel p l) = FreeStart p"
  "is_page p \<Longrightarrow> FreeEnd (setLevel p l) = FreeEnd p" "is_page p \<Longrightarrow> ID (setLevel p l) = ID p"
  by (simp_all add: setLevel_def page_simps)

lemma NewInternal_sound:
  assumes "l \<noteq> 0"
  obtains n where "NewInternal i l = Inr n" "node_ok n" "\<not> NodeLeaf n" "node_keys n = []" "KeyCount n = 0"
    "FreeSpace n = 4072" "ID n = i" "Level n = l" "FirstChild n = 0"
proof -
  define n where "n = setLevel (SetFreeStart (NewPage i KindBTreeInternal) (word_of_nat SlotArrayStart)) l"
  note d = n_def page_simps KeyCount_def NodeLeaf_def
  have 1: "NewInternal i l = Inr n" using assms by (simp add: NewInternal_def n_def Let_def)
  have c: "KeyCount n = 0" "\<not> NodeLeaf n" "FreeSpace n = 4072" "ID n = i" "is_page n"
    by (simp_all add: d FreeSpace_def)
  have s: "cell_spans n = []" "node_keys n = []" by (simp_all add: node_keys_def cell_spans_def c)
  have p: "length (SetFreeStart (NewPage i KindBTreeInternal) w) = 4096" for w
    by (intro is_page_length page_simps)
  have z: "subslice off k n = subslice off k (replicate 4096 0)" if "16 \<le> off" "off + k \<le> 20 \<or> 22 \<le> off" for off k
    using that by (simp add: n_def setLevel_def slice_simps p page_simps)
  have "Level n = l" by (simp add: n_def setLevel_def Level_def slice_simps p)
  moreover have "get16 n 22 = 0" using get_cong_subslice(1) [OF z, of 22] by simp
  moreover have "FirstChild n = 0" using get_cong_subslice(2) [OF z, of 16] by (simp add: FirstChild_def link_def)
  ultimately have f: "Level n = l" "get16 n 22 = 0" "FirstChild n = 0" by blast+
  then have "node_ok n"
    unfolding node_ok_def using assms by (simp add: c s) (simp add: d)
  then show thesis using that 1 c s f by blast
qed

section \<open>Searching\<close>

lemma sort_search_sorted:
  assumes "sorted_wrt (<) ks" "\<And>x y. x < y \<Longrightarrow> P x \<Longrightarrow> P y"
    and "\<And>i. i < length ks \<Longrightarrow> f i = P (ks ! i)" and "n = length ks"
  shows "sort_search n f = length (takeWhile (\<lambda>k. \<not> P k) ks)"
proof (rule sort_search_partition [where f' = P and ys = "dropWhile (\<lambda>k. \<not> P k) ks"])
  fix y assume y: "y \<in> set (dropWhile (\<lambda>k. \<not> P k) ks)"
  then obtain d ds where d: "dropWhile (\<lambda>k. \<not> P k) ks = d # ds" by (cases "dropWhile (\<lambda>k. \<not> P k) ks") auto
  then have "P d" using hd_dropWhile [of "\<lambda>k. \<not> P k" ks] by simp
  moreover have "\<forall>z \<in> set ds. d < z"
    using assms(1) d sorted_wrt_append [of "(<)" "takeWhile (\<lambda>k. \<not> P k) ks" "dropWhile (\<lambda>k. \<not> P k) ks"]
    unfolding takeWhile_dropWhile_id by simp
  ultimately show "P y" using y d assms(2) by auto
next
  show "n = length (takeWhile (\<lambda>k. \<not> P k) ks) + length (dropWhile (\<lambda>k. \<not> P k) ks)"
    using assms(4) by (metis length_append takeWhile_dropWhile_id)
qed (use assms(3,4) in \<open>auto dest: set_takeWhileD\<close>)

lemma length_node_keys [simp]: "length (node_keys n) = KeyCount n"
  by (simp add: node_keys_def)

lemma nth_node_keys [simp]: "i < KeyCount n \<Longrightarrow> node_keys n ! i = key_at n i"
  by (simp add: node_keys_def)

definition keys_below :: "Node \<Rightarrow> bytes \<Rightarrow> nat" where
  "keys_below n key = length (takeWhile (\<lambda>k. k < key) (node_keys n))"

definition keys_upto :: "Node \<Rightarrow> bytes \<Rightarrow> nat" where
  "keys_upto n key = length (takeWhile (\<lambda>k. k \<le> key) (node_keys n))"

lemma node_search:
  assumes "node_ok n"
  shows "sort_search_opt (KeyCount n) (\<lambda>i. map_option (\<lambda>k. bytes_compare k key \<ge> 0) (KeyRef n i)) = Some (keys_below n key)"
    "sort_search_opt (KeyCount n) (\<lambda>i. map_option (\<lambda>k. bytes_compare key k < 0) (KeyRef n i)) = Some (keys_upto n key)"
proof -
  note r = node_ok_reads(2) [OF assms] and s = node_okD(6) [OF assms]
  have "sort_search_opt (KeyCount n) (\<lambda>i. map_option (\<lambda>k. bytes_compare k key \<ge> 0) (KeyRef n i))
      = Some (sort_search (KeyCount n) (\<lambda>i. key \<le> key_at n i))"
    by (rule sort_search_opt_total) (simp add: r)
  also have "sort_search (KeyCount n) (\<lambda>i. key \<le> key_at n i) = keys_below n key"
    unfolding keys_below_def not_le [symmetric]
    by (rule sort_search_sorted [OF s]) auto
  finally show "sort_search_opt (KeyCount n) (\<lambda>i. map_option (\<lambda>k. bytes_compare k key \<ge> 0) (KeyRef n i)) = Some (keys_below n key)" .
  have "sort_search_opt (KeyCount n) (\<lambda>i. map_option (\<lambda>k. bytes_compare key k < 0) (KeyRef n i))
      = Some (sort_search (KeyCount n) (\<lambda>i. key < key_at n i))"
    by (rule sort_search_opt_total) (simp add: r)
  also have "sort_search (KeyCount n) (\<lambda>i. key < key_at n i) = keys_upto n key"
    unfolding keys_upto_def not_less [symmetric]
    by (rule sort_search_sorted [OF s]) auto
  finally show "sort_search_opt (KeyCount n) (\<lambda>i. map_option (\<lambda>k. bytes_compare key k < 0) (KeyRef n i)) = Some (keys_upto n key)" .
qed

lemma keys_below_le: "keys_below n key \<le> KeyCount n" "keys_upto n key \<le> KeyCount n"
  using length_takeWhile_le [of _ "node_keys n"] by (auto simp: keys_below_def keys_upto_def)

lemma keys_below_found:
  assumes "node_ok n"
  shows "keys_below n key < KeyCount n \<and> key_at n (keys_below n key) = key \<longleftrightarrow> key \<in> set (node_keys n)"
proof -
  let ?ks = "node_keys n" and ?b = "keys_below n key"
  have "\<exists>i < KeyCount n. ?ks ! i = key" if "key \<in> set ?ks" using that by (metis in_set_conv_nth length_node_keys)
  moreover have "?b = i" if i: "i < KeyCount n" "?ks ! i = key" for i
  proof (rule antisym)
    show "i \<le> ?b"
      unfolding keys_below_def
      by (rule length_takeWhile_less_P_nth) (use i sorted_wrt_nth_less [OF node_okD(6) [OF assms]] in auto)
    show "?b \<le> i"
    proof (rule ccontr)
      assume "\<not> ?b \<le> i"
      then have "i < length (takeWhile (\<lambda>k. k < key) ?ks)" by (simp add: keys_below_def)
      then show False using nth_length_takeWhile takeWhile_nth [of i "\<lambda>k. k < key" ?ks]
          set_takeWhileD [OF nth_mem [of i "takeWhile (\<lambda>k. k < key) ?ks"]] i(2) by auto
    qed
  qed
  ultimately show ?thesis by (metis in_set_conv_nth length_node_keys nth_node_keys)
qed

section \<open>Capacity\<close>

lemma contiguous_sum:
  "contiguous a sp b \<Longrightarrow> \<forall>s \<in> set sp. fst s < snd s \<Longrightarrow> a + sum_list (map (\<lambda>s. snd s - fst s) sp) = b"
proof (induction sp arbitrary: a)
  case (Cons s sp)
  then have "snd s + sum_list (map (\<lambda>s. snd s - fst s) sp) = b" "fst s = a" "a \<le> snd s" by auto
  then show ?case by simp
qed simp

lemma tiles_sum:
  assumes "tiles sp a b" "a \<le> b" "\<forall>s \<in> set sp. fst s < snd s"
  shows "a + sum_list (map (\<lambda>s. snd s - fst s) sp) = b"
proof -
  have "contiguous a (sort_key fst sp) b" using sorted_contiguous [OF assms(3,2)] assms(1) by simp
  moreover have "sum_list (map (\<lambda>s. snd s - fst s) (sort_key fst sp)) = sum_list (map (\<lambda>s. snd s - fst s) sp)"
    unfolding sum_mset_sum_list [symmetric] mset_map mset_sort ..
  ultimately show ?thesis using contiguous_sum [of a "sort_key fst sp" b] assms(3) by simp
qed

lemma sum_EntrySize:
  "sum_list (map (EntrySize n \<circ> length) ks) = 4 * length ks + sum_list (map (\<lambda>k. length k + suffixLen n) ks)"
  by (induction ks) (auto simp: EntrySize_def)

text \<open>What the entries of a node take, with their slots, is what its free space lacks.\<close>

lemma node_space:
  assumes "node_ok n"
  shows "FreeSpace n = 4072 - int (sum_list (map (EntrySize n \<circ> length) (node_keys n)))"
proof -
  note ok = node_okD [OF assms]
  have "\<forall>s \<in> set (cell_spans n). fst s < snd s"
    unfolding set_cell_spans using node_ok_cell(2) [OF assms] by (fastforce dest: add_lessD1)
  then have "unat (FreeEnd n) + sum_list (map (\<lambda>s. snd s - fst s) (cell_spans n)) = 4096"
    by (rule tiles_sum [OF ok(7,5)])
  moreover have "map (\<lambda>s. snd s - fst s) (cell_spans n) = map (\<lambda>k. length k + suffixLen n) (node_keys n)"
    using node_ok_reads(4) [OF assms] length_cell_at [OF ok(1)] node_ok_cell(3) [OF assms]
    by (auto simp: cell_spans_def node_keys_def)
  moreover have "sum_list (map (EntrySize n \<circ> length) (node_keys n))
      = 4 * KeyCount n + sum_list (map (\<lambda>k. length k + suffixLen n) (node_keys n))"
    using sum_EntrySize [of n "node_keys n"] by simp
  ultimately have "unat (FreeEnd n) + sum_list (map (EntrySize n \<circ> length) (node_keys n)) = 4096 + 4 * KeyCount n" by simp
  then show ?thesis unfolding FreeSpace_def ok(3) by linarith
qed

section \<open>Links\<close>

lemma setLink_keeps:
  assumes "node_ok n"
  shows "node_ok (setLink n i)" "node_keys (setLink n i) = node_keys n" "link (setLink n i) = i"
    "KeyCount (setLink n i) = KeyCount n" "NodeLeaf (setLink n i) = NodeLeaf n" "Level (setLink n i) = Level n"
    "\<And>j. j < KeyCount n \<Longrightarrow> cell (setLink n i) j = cell n j"
proof -
  let ?m = "setLink n i"
  note ok = node_okD [OF assms]
  have l: "length n = 4096" using ok(1) by (simp add: is_page_length)
  have p: "is_page ?m" using l by (simp add: setLink_def is_page_def)
  have h: "KindOf ?m = KindOf n" "ItemCount ?m = ItemCount n" "FreeStart ?m = FreeStart n" "FreeEnd ?m = FreeEnd n"
    using ok(1) by (simp_all add: setLink_def put32_def page_simps)
  show k: "KeyCount ?m = KeyCount n" and leaf: "NodeLeaf ?m = NodeLeaf n"
    by (simp_all add: KeyCount_def NodeLeaf_def h)
  have s: "subslice off k ?m = subslice off k n" if "20 \<le> off" for off k
    using that l by (simp add: setLink_def slice_simps)
  have g: "get16 ?m off = get16 n off" if "20 \<le> off" for off
    by (rule get_cong_subslice(1) [OF s [OF that]])
  show "link ?m = i" using l by (simp add: setLink_def link_def slice_simps)
  show "Level ?m = Level n" by (simp add: Level_def g)
  have b: "bnd ?m j = bnd n j" for j by (simp add: bnd_def g)
  have c: "cell_at ?m j = cell_at n j" if "j < KeyCount n" for j
    using node_ok_cell(1) [OF assms that] ok(4) by (simp add: cell_at_def b s)
  have spans: "cell_spans ?m = cell_spans n" by (simp add: cell_spans_def k b)
  have suffix: "suffixLen ?m = suffixLen n" by (rule suffixLen_KindOf [OF h(1)])
  show keys: "node_keys ?m = node_keys n" by (simp add: node_keys_def key_at_def k c suffix)
  show sound: "node_ok ?m"
    using assms unfolding node_ok_def h leaf k b suffix keys spans by (simp add: p Level_def g)
  show "cell ?m j = cell n j" if "j < KeyCount n" for j
    using node_ok_reads(1) [OF sound] node_ok_reads(1) [OF assms] that c k by simp
qed

end
