(* ===== verification/NodeTheorems.thy ===== *)
theory NodeTheorems
  imports NodeStore
begin

text \<open>
  The properties of package \<open>nodepage\<close>: the nodes a client can make, what the check accepts, that what
  is appended reads back, that the searches find it, and that the advertised capacity is exact.
\<close>

section \<open>Nodes as a client makes them\<close>

text \<open>Any node that comes out of the package's constructors and stores, when its client appends
  non-empty keys in ascending order, each greater than those the node already gives back.\<close>

inductive made :: "Node \<Rightarrow> bool" where
  new_leaf: "made (NewLeaf i)"
| new_internal: "NewInternal i l = Inr n \<Longrightarrow> made n"
| set_next: "made n \<Longrightarrow> made (SetNext n i)"
| set_first_child: "made n \<Longrightarrow> made (SetFirstChild n i)"
| append_leaf: "made n \<Longrightarrow> key \<noteq> [] \<Longrightarrow> (\<And>j. j < KeyCount n \<Longrightarrow> \<exists>k. Key n j = Some k \<and> k < key) \<Longrightarrow>
    AppendLeaf n key rid = Some (e, m) \<Longrightarrow> made m"
| append_internal: "made n \<Longrightarrow> key \<noteq> [] \<Longrightarrow> (\<And>j. j < KeyCount n \<Longrightarrow> \<exists>k. Key n j = Some k \<and> k < key) \<Longrightarrow>
    AppendInternal n key child = Some (e, m) \<Longrightarrow> made m"

lemma NewInternal_zero: "NewInternal i 0 = Inl (ErrBadLevel 0)"
  by (simp add: NewInternal_def)

lemma all_keys_below:
  assumes "node_ok n" "\<And>j. j < KeyCount n \<Longrightarrow> \<exists>k. Key n j = Some k \<and> k < key"
  shows "\<forall>k \<in> set (node_keys n). k < key"
  using assms(2) node_ok_reads(3) [OF assms(1)] by (fastforce simp: node_keys_def)

context entry_node begin

lemma append_keeps_ok:
  assumes "node_ok n" "key \<noteq> []" "\<And>j. j < KeyCount n \<Longrightarrow> \<exists>k. Key n j = Some k \<and> k < key"
    "append n key v = Some (e, m)"
  shows "node_ok m"
proof (cases "mine n \<and> Fits n (length key)")
  case True
  then show ?thesis
    using append_fits [OF assms(1) _ assms(2) all_keys_below [OF assms(1,3)], of v] assms(4) by auto
next
  case False
  then have "m = n" using append_full [of n key v] append_wrong_kind [of n key v] assms(4) by (cases "mine n") auto
  then show ?thesis using assms(1) by simp
qed

end

lemma made_ok: "made n \<Longrightarrow> node_ok n"
proof (induction rule: made.induct)
  case (new_internal i l n)
  then have "l \<noteq> 0" by (auto simp: NewInternal_def)
  from NewInternal_sound [OF this, of i] show ?case using new_internal by auto
next
  case (append_leaf n key rid e m)
  then show ?case using leaf_node.append_keeps_ok by blast
next
  case (append_internal n key child e m)
  then show ?case using internal_node.append_keeps_ok by blast
qed (simp_all add: NewLeaf_sound SetNext_def SetFirstChild_def setLink_keeps)

lemma appendCell_returns: "node_ok n \<Longrightarrow> appendCell n key tail \<noteq> None"
  by (cases "FreeSpace n < int (4 + length key + length tail)", simp add: appendCell_refuses)
    (rule appendCell_stores [of n key tail], auto simp: node_okD not_less)

lemma Row_returns: "node_ok n \<Longrightarrow> NodeLeaf n \<Longrightarrow> j < KeyCount n \<Longrightarrow> Row n j \<noteq> None"
  by (simp add: Row_def node_ok_reads suffixLen_def Let_def)

lemma Child_returns: "node_ok n \<Longrightarrow> j \<le> KeyCount n \<Longrightarrow> Child n j \<noteq> None"
  by (cases j) (auto simp: Child_def node_ok_reads suffixLen_def)

lemma describe_slots_returns:
  "node_ok n \<Longrightarrow> i + m \<le> KeyCount n \<Longrightarrow> \<exists>s. describe_slots n i m = Some s"
proof (induction m arbitrary: i)
  case (Suc m)
  then have "28 + 4 * i \<le> 4096" using node_ok_cell(4) [OF Suc.prems(1), of i] by simp
  then show ?case
    using Suc.IH [of "Suc i"] Suc.prems node_okD(1) [OF Suc.prems(1)]
    by (auto simp: cellBounds_in slice_of_def slotOffset_eq is_page_length split: prod.split)
qed simp

lemma describe_cells_returns:
  "node_ok n \<Longrightarrow> i + m \<le> KeyCount n \<Longrightarrow> \<exists>s. describe_cells n i m = Some s"
proof (induction m arbitrary: i)
  case (Suc m)
  then have i: "i < KeyCount n" by simp
  obtain s where "describe_cells n (Suc i) m = Some s" using Suc.IH [of "Suc i"] Suc.prems by auto
  then show ?case
    using cellBounds_in [OF node_okD(1) node_ok_cell(4), OF Suc.prems(1) Suc.prems(1) i] node_ok_reads(2) [OF Suc.prems(1) i]
      Row_returns [OF Suc.prems(1) _ i] Child_returns [OF Suc.prems(1), of "Suc i"] i
    by (auto split: prod.split)
qed simp

lemma describe_children_returns:
  "node_ok n \<Longrightarrow> 0 < i \<Longrightarrow> i + m \<le> Suc (KeyCount n) \<Longrightarrow> \<exists>s. describe_children n i m = Some s"
proof (induction m arbitrary: i)
  case (Suc m)
  obtain s where "describe_children n (Suc i) m = Some s" using Suc.IH [of "Suc i"] Suc.prems by auto
  then show ?case
    using node_ok_reads(2) [OF Suc.prems(1), of "i - 1"] Child_returns [OF Suc.prems(1), of i] Suc.prems(2,3) by auto
qed simp

lemma Describe_returns: "node_ok n \<Longrightarrow> NodeDescribe n \<noteq> None"
  using describe_slots_returns [of n 0 "KeyCount n"] describe_cells_returns [of n 0 "KeyCount n"]
    describe_children_returns [of n 1 "KeyCount n"] Child_returns [of n 0] node_okD(1,3,4,5) [of n]
  by (auto simp: NodeDescribe_def Let_def slice_of_def is_page_length)

lemma Load_ok: "node_ok n \<Longrightarrow> LoadNode n = Inr n"
  by (auto simp: LoadNode_def node_ok_def is_page_length Let_def)

lemma Search_ok: "node_ok n \<Longrightarrow> NodeSearch n key = Some (keys_below n key, key \<in> set (node_keys n))"
  using keys_below_found [of n key] node_search(1) [of n key] keys_below_le(1) [of n key] node_ok_reads(2) [of n]
  by (auto simp: NodeSearch_def Let_def)

lemma ChildFor_ok: "node_ok n \<Longrightarrow> ChildFor n key = Child n (keys_upto n key)"
  using node_search(2) [of n key] by (simp add: ChildFor_def)

lemma takeWhile_filter_sorted:
  assumes "sorted_wrt (<) ks" "\<And>x y. x < y \<Longrightarrow> P y \<Longrightarrow> P x"
  shows "takeWhile P ks = filter P ks"
  using assms(1)
proof (induction ks)
  case (Cons k ks)
  then show ?case using assms(2) [of k] by (auto simp: eq_commute [of "[]"] filter_empty_conv)
qed simp

lemma node_ok_Keys: "node_ok n \<Longrightarrow> map (Key n) [0..<KeyCount n] = map Some (node_keys n)"
  by (simp add: node_keys_def node_ok_reads)

text \<open>Entries put one by one into an empty node.\<close>

context entry_node begin

lemma loaded:
  assumes "node_ok n" "mine n" "KeyCount n = 0" "FreeSpace n = 4072" "\<And>k. EntrySize n k = c + k"
    "sorted_wrt (<) (map fst es)" "[] \<notin> fst ` set es"
  obtains j r m where "append_all append n es = Some (r, m)" "j \<le> length es"
    "if j = length es then r = None
     else FreeSpace m < int (c + length (fst (es ! j)))
       \<and> r = Some (ErrNodeNoFit (c + length (fst (es ! j))) (FreeSpace m))"
    "NodeValidate m = Some None" "ID m = ID n" "link m = link n" "Level m = Level n" "KeyCount m = j"
    "map (Key m) [0..<j] = map (Some \<circ> fst) (take j es)" "map (val m) [0..<j] = map (Some \<circ> snd) (take j es)"
    "FreeSpace m = 4072 - int (\<Sum>e\<leftarrow>take j es. c + length (fst e))"
proof -
  have none: "node_keys n = []" using assms(3) by (simp add: node_keys_def)
  from append_all_holds [OF assms(1,2), of es]
  obtain j r m where m: "append_all append n es = Some (r, m)" "j \<le> length es"
      "if j = length es then r = None
       else \<not> Fits m (length (fst (es ! j)))
         \<and> r = Some (ErrNodeNoFit (EntrySize n (length (fst (es ! j)))) (FreeSpace m))"
      "node_ok m" "node_keys m = map fst (take j es)" "KeyCount m = j" "KindOf m = KindOf n"
      "ID m = ID n" "link m = link n" "Level m = Level n" "FreeSpace m = 4072 - int (entry_bytes n (take j es))"
      "\<forall>p < j. val m p = Some (snd (es ! p))"
    using assms none by auto
  have "Fits m k \<longleftrightarrow> int (c + k) \<le> FreeSpace m" for k
    unfolding Fits_def EntrySize_KindOf [OF m(7)] assms(5) ..
  then have "if j = length es then r = None
     else FreeSpace m < int (c + length (fst (es ! j)))
       \<and> r = Some (ErrNodeNoFit (c + length (fst (es ! j))) (FreeSpace m))"
    using m(3) by (cases "j = length es") (simp_all add: assms(5) not_le)
  moreover have "NodeValidate m = Some None" using Validate_decides [OF node_okD(1) [OF m(4)]] m(4) by auto
  moreover have "map (Key m) [0..<j] = map (Some \<circ> fst) (take j es)" using node_ok_Keys [OF m(4)] m(5,6) by simp
  moreover have "map (val m) [0..<j] = map (Some \<circ> snd) (take j es)"
    using m(2,12) by (auto intro!: nth_equalityI)
  moreover have "FreeSpace m = 4072 - int (\<Sum>e\<leftarrow>take j es. c + length (fst e))"
    using m(11) by (simp add: entry_bytes_def comp_def assms(5))
  ultimately show thesis using that m(1,2,6,8-10) by blast
qed

end

text \<open>\<open>AppendLeaf\<close> takes an empty key, and the node it leaves is one the node check refuses.\<close>

lemma empty_key_breaks_node:
  "\<exists>m e. AppendLeaf (NewLeaf i) [] rid = Some (None, m) \<and> NodeValidate m = Some (Some e)"
proof -
  let ?n = "NewLeaf i"
  note l = NewLeaf_sound [of i] and ok = node_okD [OF NewLeaf_sound(1) [of i]]
  have "int (4 + length ([] :: bytes) + length (row_bytes rid)) \<le> FreeSpace ?n" by (simp add: l row_bytes_read)
  from appendCell_stores [OF ok(1,3,5) this]
  obtain start where a: "appendCell ?n [] (row_bytes rid) = Some (None, with_cell ?n start (row_bytes rid))"
    and start: "28 + 4 * KeyCount ?n \<le> start" "start + length (row_bytes rid) = unat (FreeEnd ?n)" by auto
  let ?m = "with_cell ?n start (row_bytes rid)"
  have w: "start + length (row_bytes rid) \<le> 4096" using start(2) ok(5) by simp
  have "bnd ?m 0 = (start, start + 6)"
    using with_cell_bnd(2) [OF ok(1) start(1) w] by (simp add: l row_bytes_read)
  moreover have "suffixLen ?m = 6"
    using with_cell_header(2) [OF ok(1) start(1) w] l(2) by (simp add: suffixLen_def NodeLeaf_def)
  moreover have "KeyCount ?m = 1" using with_cell_header(4) [OF ok(1) start(1) w] by (simp add: l)
  ultimately have "\<not> node_ok ?m" using node_ok_cell(2) [of ?m 0] by auto
  then have "\<exists>e. NodeValidate ?m = Some (Some e)"
    using Validate_decides [OF with_cell_header(1) [OF ok(1) start(1) w]] by auto
  then show ?thesis using a l(2) by (auto simp: AppendLeaf_def)
qed

section \<open>Properties\<close>

text \<open>Claim C32.  On any page of full size, whatever its bytes, the node check returns, and it accepts
  exactly the sound nodes: a B+Tree page whose level fits its kind, its padding zero, the slot array
  ending where free space starts, the cells covering every byte from the free end to the end of the
  page once and no other byte, each cell with a key, and the keys strictly ascending.\<close>

theorem node_validate_exact:
  assumes "is_page n"
  shows "\<exists>r. NodeValidate n = Some r \<and> (r = None \<longleftrightarrow> node_ok n)"
  by (rule Validate_decides [OF assms])

theorem node_validate_exact_witness:
  "NodeValidate (NewPage 9 KindHeap) \<noteq> Some None"
proof -
  have "\<not> node_ok (NewPage 9 KindHeap)" by (simp add: node_ok_def page_simps kind_defs)
  then show ?thesis using node_validate_exact [OF is_page_NewPage [of 9 KindHeap]] by auto
qed

text \<open>Claim C30.  A node made with the constructors, the link stores and appends of ascending
  non-empty keys always passes the node check and loads again from its page; on it no operation
  panics: not an append of any key, not a lookup of any key, not its description, and no read of a key
  or child it counts, nor of a row it counts when it is a leaf (\<open>Row\<close> on an internal node reads past the
  cell and may panic).\<close>

theorem made_nodes_are_sound:
  assumes "made n"
  shows "NodeValidate n = Some None \<and> LoadNode n = Inr n
    \<and> AppendLeaf n key rid \<noteq> None \<and> AppendInternal n key child \<noteq> None
    \<and> NodeSearch n key \<noteq> None \<and> ChildFor n key \<noteq> None \<and> NodeDescribe n \<noteq> None
    \<and> {j. Key n j = None} \<subseteq> {KeyCount n..} \<and> {j. NodeLeaf n \<and> Row n j = None} \<subseteq> {KeyCount n..}
    \<and> {j. Child n j = None} \<subseteq> {KeyCount n<..}"
proof -
  note ok = made_ok [OF assms]
  have "NodeValidate n = Some None" using Validate_decides [OF node_okD(1) [OF ok]] ok by auto
  moreover have "ChildFor n key \<noteq> None" using ChildFor_ok [OF ok] Child_returns [OF ok keys_below_le(2)] by simp
  moreover have "AppendLeaf n key rid \<noteq> None" "AppendInternal n key child \<noteq> None"
    using appendCell_returns [OF ok] by (auto simp: AppendLeaf_def AppendInternal_def)
  moreover have "{j. Key n j = None} \<subseteq> {KeyCount n..}" "{j. NodeLeaf n \<and> Row n j = None} \<subseteq> {KeyCount n..}"
    "{j. Child n j = None} \<subseteq> {KeyCount n<..}"
    using node_ok_reads(3) [OF ok] Row_returns [OF ok] Child_returns [OF ok] by (force simp: not_less [symmetric])+
  ultimately show ?thesis using Load_ok [OF ok] Search_ok [OF ok, of key] Describe_returns [OF ok] by simp
qed

theorem made_nodes_are_sound_witness:
  "\<exists>m. AppendLeaf (NewLeaf 5) [1, 2] \<lparr>Page = 3, Slot = 4\<rparr> = Some (None, m) \<and> NodeValidate (SetNext m 8) = Some None"
proof -
  note l = NewLeaf_sound [of 5]
  have "Fits (NewLeaf 5) (length [1, 2 :: u8])" by (simp add: Fits_def EntrySize_def suffixLen_def l)
  then obtain m where m: "AppendLeaf (NewLeaf 5) [1, 2] \<lparr>Page = 3, Slot = 4\<rparr> = Some (None, m)"
    using leaf_node.append_fits [OF l(1,2), of "[1, 2]"] l(3) by auto
  have "made (SetNext m 8)"
    by (rule made.set_next [OF made.append_leaf [OF made.new_leaf _ _ m]]) (simp_all add: l)
  from made_nodes_are_sound [OF this] show ?thesis using m by auto
qed


text \<open>Claim C31.  Entries with ascending non-empty keys, put one by one into a new leaf or a new internal
  node, go in up to the first that does not fit, and that one is refused with its size and the room
  left; the node passes the check and gives back, at each position, exactly the key and the row or
  child that were put in, and what they took is accounted for to the byte.\<close>

theorem node_load_roundtrip:
  assumes "sorted_wrt (<) (map fst es)" "[] \<notin> fst ` set es"
  shows "(\<exists>j r m. append_all AppendLeaf (NewLeaf i) es = Some (r, m) \<and> j \<le> length es
      \<and> (if j = length es then r = None
         else FreeSpace m < int (10 + length (fst (es ! j)))
           \<and> r = Some (ErrNodeNoFit (10 + length (fst (es ! j))) (FreeSpace m)))
      \<and> NodeValidate m = Some None \<and> ID m = i \<and> NodeNext m = 0 \<and> KeyCount m = j
      \<and> map (Key m) [0..<j] = map (Some \<circ> fst) (take j es)
      \<and> map (Row m) [0..<j] = map (Some \<circ> snd) (take j es)
      \<and> FreeSpace m = 4072 - int (\<Sum>e\<leftarrow>take j es. 10 + length (fst e)))
    \<and> (\<exists>n. NewInternal i 1 = Inr n
      \<and> (\<exists>j r m. append_all AppendInternal n (map (apsnd RowID.Page) es) = Some (r, m) \<and> j \<le> length es
        \<and> (if j = length es then r = None
           else FreeSpace m < int (8 + length (fst (es ! j)))
             \<and> r = Some (ErrNodeNoFit (8 + length (fst (es ! j))) (FreeSpace m)))
        \<and> NodeValidate m = Some None \<and> ID m = i \<and> FirstChild m = 0 \<and> KeyCount m = j \<and> Level m = 1
        \<and> map (Key m) [0..<j] = map (Some \<circ> fst) (take j es)
        \<and> map (Child m) [1..<Suc j] = map (Some \<circ> RowID.Page \<circ> snd) (take j es)
        \<and> FreeSpace m = 4072 - int (\<Sum>e\<leftarrow>take j es. 8 + length (fst e))))"
  (is "?leaf \<and> ?internal")
proof
  note l = NewLeaf_sound [of i]
  have e: "EntrySize (NewLeaf i) k = 10 + k" for k by (simp add: EntrySize_def suffixLen_def l)
  show ?leaf
    by (rule leaf_node.loaded [OF l(1,2,4,5) e assms])
      (use l(6,7) in \<open>auto simp: NodeNext_def row_at_def [abs_def] intro!: exI\<close>)
next
  obtain n where n: "NewInternal i 1 = Inr n" "node_ok n" "\<not> NodeLeaf n" "KeyCount n = 0"
    "FreeSpace n = 4072" "ID n = i" "Level n = 1" "FirstChild n = 0"
    using NewInternal_sound [of 1 i] by auto
  let ?es = "map (apsnd RowID.Page) es"
  have e: "EntrySize n k = 8 + k" for k using n(3) by (simp add: EntrySize_def suffixLen_def)
  have s: "sorted_wrt (<) (map fst ?es)" "[] \<notin> fst ` set ?es" using assms by (auto simp: image_image)
  have c: "map (child_at m) [0..<j] = map (Child m) [1..<Suc j]" for m j
    by (auto simp: child_at_def intro: nth_equalityI simp del: upt_Suc)
  show ?internal
    by (rule internal_node.loaded [OF n(2-5) e s])
      (use n in \<open>auto simp: FirstChild_def take_map comp_def c intro!: exI simp del: upt_Suc\<close>)
qed

theorem node_load_roundtrip_witness:
  "\<exists>m. append_all AppendLeaf (NewLeaf 5) [([1], \<lparr>Page = 3, Slot = 4\<rparr>), ([1, 7], \<lparr>Page = 6, Slot = 0\<rparr>)] = Some (None, m)
     \<and> Key m 1 = Some [1, 7] \<and> Row m 0 = Some \<lparr>Page = 3, Slot = 4\<rparr> \<and> FreeSpace m = 4049"
proof -
  let ?es = "[([1], \<lparr>Page = 3, Slot = 4\<rparr>), ([1, 7], \<lparr>Page = 6, Slot = 0\<rparr>)] :: (bytes \<times> RowID) list"
  have s: "sorted_wrt (<) (map fst ?es)" "[] \<notin> fst ` set ?es" by simp_all
  from conjunct1 [OF node_load_roundtrip [OF s, of 5]]
  obtain j r m where m: "append_all AppendLeaf (NewLeaf 5) ?es = Some (r, m)" "j \<le> length ?es"
    "if j = length ?es then r = None
     else FreeSpace m < int (10 + length (fst (?es ! j)))
       \<and> r = Some (ErrNodeNoFit (10 + length (fst (?es ! j))) (FreeSpace m))"
    "map (Key m) [0..<j] = map (Some \<circ> fst) (take j ?es)" "map (Row m) [0..<j] = map (Some \<circ> snd) (take j ?es)"
    "FreeSpace m = 4072 - int (\<Sum>e\<leftarrow>take j ?es. 10 + length (fst e))"
    by blast
  have "j = 0 \<or> j = 1 \<or> j = 2" using m(2) by auto
  then have "j = 2" using m(3,6) by auto
  with m show ?thesis by (simp add: upt_rec)
qed

text \<open>Claim C33.  On a sound node \<open>Search\<close> returns the number of keys below the one looked for, and whether
  it is there, and \<open>ChildFor\<close> returns the child that many places in as there are keys not above it;
  both see the keys that \<open>Key\<close> gives back.\<close>

theorem node_search_exact:
  assumes "NodeValidate n = Some None" "is_page n" "map (Key n) [0..<KeyCount n] = map Some ks"
  shows "NodeSearch n key = Some (length (filter (\<lambda>k. k < key) ks), key \<in> set ks)
    \<and> ChildFor n key = Child n (length (filter (\<lambda>k. k \<le> key) ks)) \<and> ChildFor n key \<noteq> None"
proof -
  have ok: "node_ok n" using Validate_decides [OF assms(2)] assms(1) by auto
  then have ks: "ks = node_keys n" using assms(3) node_ok_Keys [OF ok] by (simp add: inj_map_eq_map)
  have "takeWhile P ks = filter P ks" if "\<And>x y. x < y \<Longrightarrow> P y \<Longrightarrow> P x" for P
    using node_okD(6) [OF ok] that unfolding ks by (rule takeWhile_filter_sorted)
  then have "length (filter (\<lambda>k. k < key) ks) = keys_below n key" "length (filter (\<lambda>k. k \<le> key) ks) = keys_upto n key"
    by (auto simp: keys_below_def keys_upto_def simp flip: ks intro!: arg_cong [of _ _ length] dest: order.strict_trans)
  then show ?thesis
    using Search_ok [OF ok, of key] ChildFor_ok [OF ok, of key] Child_returns [OF ok keys_below_le(2)] ks by simp
qed

theorem node_search_exact_witness:
  "\<exists>n. NodeValidate n = Some None \<and> KeyCount n = 2 \<and> NodeSearch n [1, 7] = Some (1, True) \<and> NodeSearch n [4] = Some (2, False)"
proof -
  note l = NewLeaf_sound [of 5]
  let ?es = "[([1], \<lparr>Page = 3, Slot = 4\<rparr>), ([1, 7], \<lparr>Page = 6, Slot = 0\<rparr>)] :: (bytes \<times> RowID) list"
  have "int (entry_bytes (NewLeaf 5) ?es) \<le> FreeSpace (NewLeaf 5)" by (simp add: l EntrySize_def suffixLen_def)
  from leaf_node.append_all_holds [OF l(1,2), of ?es] leaf_node.append_all_fits [OF l(1,2) _ _ this]
  obtain m where m: "node_ok m" "node_keys m = [[1], [1, 7]]" by (auto simp: l)
  have c: "KeyCount m = 2" using length_node_keys [of m] m(2) by simp
  have v: "NodeValidate m = Some None" using Validate_decides [OF node_okD(1) [OF m(1)]] m(1) by auto
  have k: "map (Key m) [0..<KeyCount m] = map Some [[1], [1, 7]]" using node_ok_Keys [OF m(1)] m(2) by simp
  show ?thesis
    using node_search_exact [OF v node_okD(1) [OF m(1)] k, of "[1, 7]"]
      node_search_exact [OF v node_okD(1) [OF m(1)] k, of "[4]"] v c by (intro exI [of _ m]) simp
qed

text \<open>Claim C34.  \<open>MaxKeys\<close> is exact: a sound node whose keys all have one length has room for another
  key of that length exactly while it holds fewer than \<open>MaxKeys\<close>, it never holds more, and an
  internal node has at most \<open>Fanout\<close> children.\<close>

theorem max_keys_exact:
  assumes "node_ok n" "\<forall>k \<in> set (node_keys n). length k = len"
  shows "(Fits n len \<longleftrightarrow> int (KeyCount n) < MaxKeys (KindOf n) (int len))
    \<and> int (KeyCount n) \<le> MaxKeys (KindOf n) (int len)
    \<and> (NodeLeaf n \<or> int (ChildCount n) \<le> Fanout (int len))"
proof -
  let ?E = "EntrySize n len" and ?c = "KeyCount n"
  have m: "MaxKeys (KindOf n) (int len) = int (4072 div ?E)"
    by (simp add: MaxKeys_def EntrySize_def suffixLen_def NodeLeaf_def Let_def zdiv_int)
  have f: "MaxKeys KindBTreeInternal (int len) = MaxKeys (KindOf n) (int len)" if "\<not> NodeLeaf n"
    using that node_okD(2) [OF assms(1)] by (auto simp: NodeLeaf_def)
  have "map (EntrySize n \<circ> length) (node_keys n) = replicate ?c ?E"
    using assms(2) by (intro replicate_eqI) auto
  then have s: "FreeSpace n = 4072 - int (?c * ?E)" using node_space [OF assms(1)] by (simp add: sum_list_replicate)
  have E: "0 < ?E" by (simp add: EntrySize_def)
  have "0 \<le> FreeSpace n" unfolding FreeSpace_def using node_okD(3,4) [OF assms(1)] by linarith
  then have "?c * ?E \<le> 4072" using s by linarith
  then have "?c \<le> 4072 div ?E" using E by (simp add: less_eq_div_iff_mult_less_eq)
  moreover have "Fits n len \<longleftrightarrow> Suc ?c * ?E \<le> 4072"
    unfolding Fits_def s mult_Suc by linarith
  then have "Fits n len \<longleftrightarrow> ?c < 4072 div ?E" using E less_eq_div_iff_mult_less_eq [OF E, of "Suc ?c" 4072] by linarith
  ultimately show ?thesis using f by (simp add: m Fanout_def ChildCount_def)
qed

theorem max_keys_exact_witness:
  "Fits (NewLeaf 5) 8 \<and> int (KeyCount (NewLeaf 5)) < MaxKeys KindBTreeLeaf 8
    \<and> MaxKeys KindBTreeLeaf 8 = 226 \<and> MaxKeys KindBTreeInternal 8 = 254"
proof -
  have m: "MaxKeys KindBTreeLeaf 8 = 226" "MaxKeys KindBTreeInternal 8 = 254" by (simp_all add: MaxKeys_def)
  show ?thesis
    using max_keys_exact [of "NewLeaf 5" 8] NewLeaf_sound [of 5] m by (simp add: NodeLeaf_def)
qed

end
