(* ===== verification/Naive.thy ===== *)
theory Naive
  imports Core Device
begin

text \<open>
  Package \<open>naive\<close>: the first database of the repository, a log of lines \<open>key TAB value\<close> that is searched
  from the front and compacted by rewriting it.  Strings are byte lists.  The file at \<open>db.path\<close> is a
  device; \<open>dev_closed\<close> is the state of the handle \<open>db.f\<close>, while \<open>Get\<close>, \<open>Stats\<close> and \<open>Compact\<close> read through
  a handle of their own.  What the package takes from the standard library is modelled first:
  \<open>bufio.Writer\<close> with its sticky error, \<open>bufio.Scanner\<close> with its limit on a line, \<open>strings.IndexByte\<close>.
\<close>

section \<open>\<open>bufio.Writer\<close> over a file opened with \<open>O_APPEND\<close>\<close>

record Writer =
  wbuf :: bytes
  werr :: "io_error option"
  wsize :: nat

definition NewWriterSize :: "nat \<Rightarrow> Writer" where
  "NewWriterSize n = \<lparr>wbuf = [], werr = None, wsize = n\<rparr>"

definition file_append :: "Dev \<Rightarrow> bytes \<Rightarrow> nat \<times> io_error option \<times> Dev" where
  "file_append d p =
     (case WriteAt d p (length (live d)) of (e, d') \<Rightarrow> (length (live d') - length (live d), e, d'))"

definition FlushWriter :: "Writer \<Rightarrow> Dev \<Rightarrow> io_error option \<times> Writer \<times> Dev" where
  "FlushWriter w d =
     (case werr w of
        Some e \<Rightarrow> (Some e, w, d)
      | None \<Rightarrow>
          if wbuf w = [] then (None, w, d)
          else
            (case file_append d (wbuf w) of
               (n, Some e, d) \<Rightarrow> (Some e, w\<lparr>wbuf := drop n (wbuf w), werr := Some e\<rparr>, d)
             | (n, None, d) \<Rightarrow> (None, w\<lparr>wbuf := []\<rparr>, d)))"

text \<open>\<open>WriteString\<close>: what does not fit fills the buffer and flushes it; what is left then is buffered, or
  goes straight to the file when it is longer than the whole buffer.\<close>

definition WriteString :: "Writer \<Rightarrow> bytes \<Rightarrow> Dev \<Rightarrow> io_error option \<times> Writer \<times> Dev" where
  "WriteString w s d =
     (if werr w \<noteq> None then (werr w, w, d)
      else if length s \<le> wsize w - length (wbuf w) then (None, w\<lparr>wbuf := wbuf w @ s\<rparr>, d)
      else
        (let k = (if wbuf w = [] then 0 else wsize w - length (wbuf w)) in
         case FlushWriter (w\<lparr>wbuf := wbuf w @ take k s\<rparr>) d of
           (Some e, w, d) \<Rightarrow> (Some e, w, d)
         | (None, w, d) \<Rightarrow>
             if length (drop k s) \<le> wsize w then (None, w\<lparr>wbuf := drop k s\<rparr>, d)
             else (case file_append d (drop k s) of (n, e, d) \<Rightarrow> (e, w\<lparr>werr := e\<rparr>, d))))"

section \<open>\<open>bufio.Scanner\<close> and \<open>strings.IndexByte\<close>\<close>

abbreviation (input) TAB :: u8 where "TAB \<equiv> 9"
abbreviation (input) LF :: u8 where "LF \<equiv> 10"
abbreviation (input) CR :: u8 where "CR \<equiv> 13"
abbreviation (input) maxToken :: nat where "maxToken \<equiv> 1048576"

definition IndexByte :: "bytes \<Rightarrow> u8 \<Rightarrow> nat option" where
  "IndexByte s c = (if c \<in> set s then Some (length (takeWhile (\<lambda>x. x \<noteq> c) s)) else None)"

definition drop_cr :: "bytes \<Rightarrow> bytes" where
  "drop_cr l = (if l \<noteq> [] \<and> last l = CR then butlast l else l)"

text \<open>The lines a scanner with a buffer of \<open>maxToken\<close> bytes delivers, and whether it stopped at a line
  too long for it.\<close>

function scan_lines :: "bytes \<Rightarrow> bytes list \<times> bool" where
  "scan_lines s =
     (if s = [] then ([], False)
      else
        (let l = takeWhile (\<lambda>x. x \<noteq> LF) s in
         if maxToken \<le> length l then ([], True)
         else if l = s then ([drop_cr l], False)
         else (case scan_lines (drop (Suc (length l)) s) of (ls, e) \<Rightarrow> (drop_cr l # ls, e))))"
  by pat_completeness auto
termination by (relation "measure length") (auto simp: neq_Nil_conv)

declare scan_lines.simps [simp del]

datatype naive_error = NaiveIO io_error | NaiveNotFound | ErrTooLong

text \<open>Opening the file again and scanning it: the error of \<open>os.Open\<close>, or the lines and \<open>sc.Err()\<close>.\<close>

definition scan_file :: "Dev \<Rightarrow> (naive_error + bytes list \<times> naive_error option) \<times> Dev" where
  "scan_file d =
     (case next_fault d of
        (Fail part kept, d) \<Rightarrow> (Inl (NaiveIO EIO), d)
      | (Succeed, d) \<Rightarrow>
          (case (case next_fault d of
                   (Fail part kept, d) \<Rightarrow> (take part (live d), Some (NaiveIO EIO), d)
                 | (Succeed, d) \<Rightarrow> (live d, None, d)) of
             (s, err, d) \<Rightarrow>
               (case scan_lines s of (ls, long) \<Rightarrow> (Inr (ls, if long then Some ErrTooLong else err), d))))"

section \<open>The database\<close>

record DB =
  db_f :: Dev
  db_w :: Writer

definition NaiveOpen :: "(io_error + Dev) \<Rightarrow> naive_error + DB" where
  "NaiveOpen opened =
     (case opened of Inl e \<Rightarrow> Inl (NaiveIO e) | Inr d \<Rightarrow> Inr \<lparr>db_f = d, db_w = NewWriterSize (64 * 1024)\<rparr>)"

definition NaivePut :: "bytes \<Rightarrow> bytes \<Rightarrow> DB \<Rightarrow> naive_error option \<times> DB" where
  "NaivePut key val db =
     (case WriteString (db_w db) (key @ [TAB] @ val @ [LF]) (db_f db) of
        (e, w', d) \<Rightarrow> (map_option NaiveIO e, \<lparr>db_f = d, db_w = w'\<rparr>))"

definition NaiveFlush :: "DB \<Rightarrow> naive_error option \<times> DB" where
  "NaiveFlush db =
     (case FlushWriter (db_w db) (db_f db) of (e, w', d) \<Rightarrow> (map_option NaiveIO e, \<lparr>db_f = d, db_w = w'\<rparr>))"

fun get_loop :: "bytes \<Rightarrow> bytes list \<Rightarrow> bytes \<Rightarrow> bool \<Rightarrow> bytes \<times> bool" where
  "get_loop key [] lst found = (lst, found)"
| "get_loop key (line # ls) lst found =
     (case IndexByte line TAB of
        None \<Rightarrow> get_loop key ls lst found
      | Some tab \<Rightarrow>
          if take tab line = key then get_loop key ls (drop (tab + 1) line) True
          else get_loop key ls lst found)"

definition NaiveGet :: "bytes \<Rightarrow> DB \<Rightarrow> (naive_error + bytes) \<times> DB" where
  "NaiveGet key db =
     (case NaiveFlush db of
        (Some e, db) \<Rightarrow> (Inl e, db)
      | (None, db) \<Rightarrow>
          (case scan_file (db_f db) of
             (Inl e, d) \<Rightarrow> (Inl e, db\<lparr>db_f := d\<rparr>)
           | (Inr (ls, err), d) \<Rightarrow>
               (let db = db\<lparr>db_f := d\<rparr> in
                case get_loop key ls [] False of
                  (lst, found) \<Rightarrow>
                    (case err of
                       Some e \<Rightarrow> (Inl e, db)
                     | None \<Rightarrow> if \<not> found \<or> lst = [] then (Inl NaiveNotFound, db) else (Inr lst, db)))))"







definition NaiveClose :: "DB \<Rightarrow> naive_error option \<times> DB" where
  "NaiveClose db =
     (case NaiveFlush db of
        (Some e, db) \<Rightarrow> (case CloseFile (db_f db) of (_, d) \<Rightarrow> (Some e, db\<lparr>db_f := d\<rparr>))
      | (None, db) \<Rightarrow> (case CloseFile (db_f db) of (e, d) \<Rightarrow> (map_option NaiveIO e, db\<lparr>db_f := d\<rparr>)))"

section \<open>Files and writers on which nothing fails\<close>

definition healthy :: "Dev \<Rightarrow> bool" where
  "healthy d \<longleftrightarrow> sched d = [] \<and> \<not> dev_closed d"


lemma log_write_healthy [simp]: "healthy (log_write d off p) = healthy d"
  by (simp add: healthy_def log_write_def)


definition writer_ok :: "Writer \<Rightarrow> bool" where
  "writer_ok w \<longleftrightarrow> werr w = None \<and> length (wbuf w) \<le> wsize w"



section \<open>The log as a list of entries\<close>

type_synonym entry = "bytes \<times> bytes"

definition line_of :: "entry \<Rightarrow> bytes" where
  "line_of e = fst e @ [TAB] @ snd e"

definition log_of :: "entry list \<Rightarrow> bytes" where
  "log_of es = concat (map (\<lambda>e. line_of e @ [LF]) es)"

text \<open>The entries a line can carry.\<close>

definition storable :: "entry \<Rightarrow> bool" where
  "storable e \<longleftrightarrow> TAB \<notin> set (fst e) \<and> LF \<notin> set (fst e) \<and> LF \<notin> set (snd e)
     \<and> (snd e = [] \<or> last (snd e) \<noteq> CR) \<and> length (fst e) + 1 + length (snd e) < maxToken"

definition kv_map :: "entry list \<Rightarrow> bytes \<rightharpoonup> bytes" where
  "kv_map es = map_of (rev es)"

text \<open>An empty value deletes.\<close>

definition visible :: "(bytes \<rightharpoonup> bytes) \<Rightarrow> bytes \<rightharpoonup> bytes" where
  "visible m k = (case m k of None \<Rightarrow> None | Some v \<Rightarrow> if v = [] then None else Some v)"

lemma log_of_simps [simp]:
  "log_of [] = []" "log_of (e # es) = line_of e @ LF # log_of es" "log_of (es @ es') = log_of es @ log_of es'"
  by (simp_all add: log_of_def)

lemma kv_map_simps [simp]: "kv_map [] = Map.empty" "kv_map (es @ [(k, v)]) = (kv_map es)(k \<mapsto> v)"
  by (simp_all add: kv_map_def)







definition kept :: "bytes list \<Rightarrow> (bytes \<rightharpoonup> bytes) \<Rightarrow> entry list" where
  "kept ks m = map (\<lambda>k. (k, the (m k))) (filter (\<lambda>k. visible m k \<noteq> None) ks)"



section \<open>The database on a file on which nothing fails\<close>

definition holds :: "DB \<Rightarrow> entry list \<Rightarrow> bool" where
  "holds db es \<longleftrightarrow> healthy (db_f db) \<and> writer_ok (db_w db) \<and> live (db_f db) @ wbuf (db_w db) = log_of es
     \<and> (\<forall>e \<in> set es. storable e)"





lemma holds_update: "holds db es \<Longrightarrow> db\<lparr>db_f := db_f db\<rparr> = db"
  by simp





section \<open>Runs\<close>










section \<open>Properties\<close>

text \<open>What a line cannot carry is accepted and lost: a TAB in the key moves the end of the key, an LF in the
  value ends the line.  Neither \<open>Put\<close> nor \<open>Flush\<close> says so.\<close>

lemma unstorable_is_lost:
  "\<exists>db db1 db2. NaiveOpen (Inr (emptyDev [])) = Inr db \<and> NaivePut [97, TAB, 98] [99] db = (None, db1)
     \<and> NaiveGet [97, TAB, 98] db1 = (Inl NaiveNotFound, db2)"
  "\<exists>db db1 db2. NaiveOpen (Inr (emptyDev [])) = Inr db \<and> NaivePut [97] [98, LF, 99] db = (None, db1)
     \<and> NaiveGet [97] db1 = (Inr [98], db2)"
proof -
  let ?db = "\<lparr>db_f = emptyDev [], db_w = NewWriterSize (64 * 1024)\<rparr>"
  have o: "NaiveOpen (Inr (emptyDev [])) = Inr ?db" by (simp add: NaiveOpen_def)
  note defs = NaivePut_def NaiveGet_def NaiveFlush_def WriteString_def FlushWriter_def NewWriterSize_def file_append_def
    WriteAt_def emptyDev_def next_fault_def log_write_def write_into_def overwrite_def scan_file_def IndexByte_def
    drop_cr_def scan_lines.simps
  have "\<exists>db1 db2. NaivePut [97, TAB, 98] [99] ?db = (None, db1) \<and> NaiveGet [97, TAB, 98] db1 = (Inl NaiveNotFound, db2)"
    by (simp add: defs)
  then show "\<exists>db db1 db2. NaiveOpen (Inr (emptyDev [])) = Inr db \<and> NaivePut [97, TAB, 98] [99] db = (None, db1)
     \<and> NaiveGet [97, TAB, 98] db1 = (Inl NaiveNotFound, db2)" using o by blast
  have "\<exists>db1 db2. NaivePut [97] [98, LF, 99] ?db = (None, db1) \<and> NaiveGet [97] db1 = (Inr [98], db2)"
    by (simp add: defs)
  then show "\<exists>db db1 db2. NaiveOpen (Inr (emptyDev [])) = Inr db \<and> NaivePut [97] [98, LF, 99] db = (None, db1)
     \<and> NaiveGet [97] db1 = (Inr [98], db2)" using o by blast
qed



end
