(* ===== verification/Directories.thy ===== *)
theory Directories
  imports Prelude
begin

text \<open>
  Package \<open>fileio\<close>, making a directory entry durable: \<open>SyncParent\<close> follows the symbolic links of a path
  to the file they end at and syncs the directory that holds it.  The calls of the operating system
  are the functions of a record, one value for each path: what \<open>Lstat\<close>, \<open>Readlink\<close> and \<open>Open\<close> return,
  and whether syncing and closing the opened directory fail.  Paths are byte lists.
\<close>

section \<open>The operating system\<close>

datatype errno = EINVAL | ENOTSUP | EOPNOTSUPP | ELOOP | Errno nat

type_synonym path = bytes

record FS =
  fs_lstat :: "path \<Rightarrow> errno + bool"
  fs_readlink :: "path \<Rightarrow> errno + path"
  fs_open :: "path \<Rightarrow> errno option"
  fs_sync :: "path \<Rightarrow> errno option"
  fs_close :: "path \<Rightarrow> errno option"

abbreviation (input) SEP :: u8 where "SEP \<equiv> 47"

section \<open>The code\<close>

text \<open>The error of the close counts only when the sync returned none; a directory that cannot be synced
  at all is no error.\<close>

definition SyncDir :: "FS \<Rightarrow> path \<Rightarrow> errno option" where
  "SyncDir fs dir =
     (case fs_open fs dir of
        Some e \<Rightarrow> Some e
      | None \<Rightarrow>
          (let err = fs_sync fs dir;
               cerr = fs_close fs dir;
               err = (if err = None then cerr else err)
           in if err = Some EINVAL \<or> err = Some ENOTSUP \<or> err = Some EOPNOTSUPP then None else err))"

definition maxLinks :: nat where "maxLinks = 40"

definition LastIndexByte :: "bytes \<Rightarrow> u8 \<Rightarrow> nat option" where
  "LastIndexByte s c =
     (if c \<in> set s then Some (length s - 1 - length (takeWhile (\<lambda>x. x \<noteq> c) (rev s))) else None)"

definition rawDir :: "path \<Rightarrow> path" where
  "rawDir path =
     (case LastIndexByte path SEP of
        None \<Rightarrow> [46]
      | Some i \<Rightarrow> if i = 0 then [SEP] else take i path)"

definition IsAbs :: "path \<Rightarrow> bool" where
  "IsAbs path \<longleftrightarrow> (case path of [] \<Rightarrow> False | c # _ \<Rightarrow> c = SEP)"

function sync_parent_loop :: "FS \<Rightarrow> nat \<Rightarrow> path \<Rightarrow> errno option" where
  "sync_parent_loop fs hops path =
     (if hops > maxLinks then Some ELOOP
      else
        (let dir = rawDir path in
         case fs_lstat fs path of
           Inl e \<Rightarrow> Some e
         | Inr symlink \<Rightarrow>
             if \<not> symlink then SyncDir fs dir
             else
               (case fs_readlink fs path of
                  Inl e \<Rightarrow> Some e
                | Inr target \<Rightarrow>
                    sync_parent_loop fs (hops + 1) (if IsAbs target then target else dir @ [SEP] @ target))))"
  by pat_completeness auto
termination by (relation "measure (\<lambda>(fs, hops, path). Suc maxLinks - hops)") auto

declare sync_parent_loop.simps [simp del]

definition SyncParent :: "FS \<Rightarrow> path \<Rightarrow> errno option" where
  "SyncParent fs path = sync_parent_loop fs 0 path"

section \<open>Following links\<close>

text \<open>The path a symbolic link stands for, relative to the directory it is in.\<close>

definition follow :: "FS \<Rightarrow> path \<Rightarrow> path option" where
  "follow fs path =
     (case (fs_lstat fs path, fs_readlink fs path) of
        (Inr True, Inr target) \<Rightarrow> Some (if IsAbs target then target else rawDir path @ [SEP] @ target)
      | _ \<Rightarrow> None)"

primrec follow_n :: "FS \<Rightarrow> nat \<Rightarrow> path \<Rightarrow> path option" where
  "follow_n fs 0 path = Some path"
| "follow_n fs (Suc n) path = (case follow fs path of None \<Rightarrow> None | Some q \<Rightarrow> follow_n fs n q)"

text \<open>What there is to report at a path that does not lead on.\<close>

definition at_end :: "FS \<Rightarrow> path \<Rightarrow> errno option" where
  "at_end fs path =
     (case fs_lstat fs path of
        Inl e \<Rightarrow> Some e
      | Inr symlink \<Rightarrow>
          if symlink then (case fs_readlink fs path of Inl e \<Rightarrow> Some e | Inr _ \<Rightarrow> None) else SyncDir fs (rawDir path))"

lemma loop_unfold:
  "sync_parent_loop fs hops path =
     (if hops > 40 then Some ELOOP
      else case follow fs path of None \<Rightarrow> at_end fs path | Some q \<Rightarrow> sync_parent_loop fs (Suc hops) q)"
  by (subst sync_parent_loop.simps)
    (auto simp: maxLinks_def follow_def at_end_def Let_def split: sum.splits bool.splits)

primrec link_end :: "FS \<Rightarrow> nat \<Rightarrow> path \<Rightarrow> path" where
  "link_end fs 0 path = path"
| "link_end fs (Suc n) path = (case follow fs path of None \<Rightarrow> path | Some q \<Rightarrow> link_end fs n q)"

lemma loop_exact:
  "hops + n = 41 \<Longrightarrow> sync_parent_loop fs hops path =
     (if follow_n fs n path = None then at_end fs (link_end fs (n - 1) path) else Some ELOOP)"
proof (induction n arbitrary: hops path)
  case (Suc n)
  then have h: "hops \<le> 40" "Suc hops + n = 41" by simp_all
  show ?case
  proof (cases "follow fs path")
    case None
    then show ?thesis using h(1) by (subst loop_unfold, cases n) simp_all
  next
    case (Some q)
    then show ?thesis using h Suc.IH [OF h(2), of q] by (subst loop_unfold, cases n) simp_all
  qed
qed (simp add: loop_unfold)

lemma rawDir_file:
  assumes "SEP \<notin> set name"
  shows "rawDir (dir @ SEP # name) = (if dir = [] then [SEP] else dir)" "rawDir name = [46]"
proof -
  have "takeWhile (\<lambda>x. x \<noteq> SEP) (rev name @ SEP # rev dir) = rev name" using assms
    by (subst takeWhile_append2) auto
  then show "rawDir (dir @ SEP # name) = (if dir = [] then [SEP] else dir)"
    by (auto simp: rawDir_def LastIndexByte_def)
  show "rawDir name = [46]" using assms by (simp add: rawDir_def LastIndexByte_def)
qed

section \<open>Property\<close>

text \<open>Claim C36.  \<open>SyncParent\<close> always returns.  A path that is still a link after forty-one links is
  refused as a loop; any other leads, over at most forty links, to one that leads no further, and the
  answer is the error met there or, when a file is there, that of syncing the directory in front of
  the file's name, be it the root, the current directory, or what precedes the last separator.\<close>

theorem sync_parent_exact:
  "SyncParent fs path =
     (if follow_n fs 41 path = None then at_end fs (link_end fs 40 path) else Some ELOOP)
   \<and> rawDir (dir @ SEP # filter (\<lambda>c. c \<noteq> SEP) name) = (if dir = [] then [SEP] else dir)
   \<and> rawDir (filter (\<lambda>c. c \<noteq> SEP) name) = [46]"
  using loop_exact [of 0 41 fs path] rawDir_file(1) [of "filter (\<lambda>c. c \<noteq> SEP) name" dir]
    rawDir_file(2) [of "filter (\<lambda>c. c \<noteq> SEP) name"]
  by (simp add: SyncParent_def)

end
