(* ===== verification/Spec2Isabelle.thy ===== *)
theory Spec2Isabelle
  imports Codec NullBits Slots TreeText OrderedIndex StoreTheorems NodeTheorems Naive Directories
begin

text \<open>
  ScuteDB: a verification development for the storage engine under \<open>src/internal\<close>.

  \<^bold>\<open>The program.\<close>  Fixed 4096-byte pages (\<open>page\<close>) live in a file (\<open>fileio\<close>).  \<open>codec\<close>, \<open>nullbits\<close>
  and \<open>slots\<close> say how values, null flags and fixed-size records become bytes of a page; \<open>btree\<close> is the
  ordered index in memory, behind the interface of \<open>index\<close>; \<open>nodepage\<close> is a node of that tree laid out
  on a page; \<open>pagestore\<close> owns the file: it hands pages out and takes them back, and makes a crash at any
  moment leave a file that still makes sense.  \<open>naive\<close> is the line log that came before all this.

  \<^bold>\<open>Theories, from the bottom.\<close>
  \<^item> \<open>Prelude\<close>: byte slices with Go's panics, \<open>bytes.Compare\<close>, \<open>sort.Search\<close>, \<open>binary.BigEndian\<close>, and
    the lemmas on them, collected in \<open>slice_simps\<close>.  \<open>Core\<close> is \<open>core/core.go\<close>.
  \<^item> \<open>Codec\<close> (\<open>codec/varint.go\<close>, \<open>key.go\<close>, \<open>value.go\<close>): integers at their width; round trips, and keys
    whose bytewise order is the order of the numbers.
  \<^item> \<open>NullBits\<close> (\<open>nullbits\<close>): the bitmap, whose size wraps around for the largest field counts, and
    three-valued logic.
  \<^item> \<open>Pages\<close> (\<open>page/page.go\<close>, the page): header fields, collected in \<open>page_simps\<close>, and \<open>Append\<close>.
    \<open>Slots\<close> (\<open>slots/slots.go\<close>): layouts, with the wrap-around of 64-bit sums written out.
  \<^item> \<open>Device\<close> (\<open>fileio.OSFile\<close>) and \<open>PageFile\<close> (\<open>page.File\<close>): the file under faults.  \<open>Directories\<close>
    (\<open>fileio.SyncParent\<close>): following links to the directory to sync.
  \<^item> \<open>BTree\<close>, \<open>BTreeDelete\<close>, \<open>BTreeScan\<close> hold the code of \<open>btree/btree.go\<close> and \<open>delete.go\<close>; \<open>BTreeInv\<close>
    the invariant and the abstraction to a sorted list of entries; \<open>BTreePut\<close>, \<open>BTreeDelete\<close> and
    \<open>BTreeScan\<close> the correctness of insertion, deletion, and scans with the checker.
  \<^item> \<open>OrderedIndex\<close>: \<open>index.Index\<close> as the locale \<open>index\<close>, which extends the read-only \<open>index_reader\<close>, and
    the adapter of \<open>btree/adapter.go\<close> as its interpretation.
  \<^item> \<open>NodePage\<close>, \<open>NodeStore\<close>, \<open>NodeTheorems\<close> (\<open>nodepage/nodepage.go\<close>): the code with the node
    invariant \<open>node_ok\<close>, which \<open>Validate\<close> decides; what each store does to the cells, with the contract of
    the two append operations as the locale \<open>entry_node\<close>, interpreted on both; the properties.
  \<^item> \<open>StoreMeta\<close>, \<open>StoreOps\<close> (\<open>pagestore/pagestore.go\<close>): meta page and free list; the store and all its
    operations.  \<open>StoreDisk\<close>: what a file says, whatever a crash keeps of it.  \<open>StoreInv\<close>: the invariant
    of an open store and that every page operation keeps it.  \<open>StoreCheckpoint\<close>: the checkpoint, at each of
    its steps.  \<open>StoreRecovery\<close>: \<open>load\<close> and \<open>Verify\<close>.  \<open>StoreBirth\<close>: crashes during creation.
  \<^item> \<open>StoreSystem\<close>: the store under events (calls, process deaths, power losses, evictions, reopenings)
    as the step relation \<open>sys_step\<close>, and its specification \<open>tx_step\<close>, a transactional store of pages that
    knows nothing of files; runs that keep the discipline \<open>copy_on_write\<close> take the steps \<open>ct_step\<close>, in
    which only a checkpoint changes what is durable.  \<open>StoreRefine\<close>: the simulation between them, through the locale
    \<open>forward_simulation\<close>.  \<open>StoreRuns\<close>, \<open>StoreTheorems\<close>: what follows for every run from an empty file.
  \<^item> \<open>Naive\<close> (\<open>naive/naive.go\<close>): the line log over \<open>bufio\<close> refines a map.
  \<^item> \<open>Text\<close>: the verbs of \<open>fmt\<close>, \<open>Kind.String\<close> and the hex dump; \<open>NodeText\<close> (\<open>nodepage/describe.go\<close>),
    \<open>StoreText\<close> (\<open>pagestore/describe.go\<close>), \<open>TreeText\<close> (\<open>Tree.Dump\<close>): the texts for people, with what can
    go wrong in making them; the properties say that a node made with the package can always be
    described and that the page count a store prints is right.

  \<^bold>\<open>How state corresponds.\<close>  A struct is a record with the source's fields, a method that writes returns
  its receiver updated.  A node of the tree is a \<open>datatype\<close>; the pointers of the leaf chain, which alias
  nodes of the tree, are addresses looked up in it.  A page is the list of its bytes.  A \<open>(T, error)\<close>
  result is a sum; a run-time panic is \<open>None\<close>, so a theorem that names a result says there is no panic.
  Formatted errors are constructors that carry the values printed.  Machine integers are words, except
  \<open>int\<close> where the code cannot leave its range, or where the wrap is written out.

  \<^bold>\<open>The file model.\<close>  A reader sees the page cache; the drive holds the last synced image.  A power loss
  keeps any 512-byte sectors of the unconfirmed writes; a failed fsync persists any of them and forgets
  the rest, though the cache still shows them until eviction; the end of the process keeps the cache.
  An evicted page past the drive's image reads as zeros.
  Which calls fail, and how, is a schedule that every theorem on runs quantifies over.  The one
  assumption the code itself states, that a sector is written whole, is used where the meta page commits.

  \<^bold>\<open>Bounds and fuel.\<close>  No definition runs on fuel.  Loops are structural or have a measure (\<open>sort.Search\<close>:
  the interval; \<open>Grow\<close>: the pages to go; \<open>plan_lists\<close>: the list pages missing; reading the free list:
  the page numbers not yet seen; \<open>SyncParent\<close>: the links left of forty).  The walk along the leaf
  chain, which a damaged chain could make endless, is \<open>partial_function (option)\<close>, and the theorems on
  scans show that it returns.  The B+Tree's key counts and depths are unbounded naturals: memory ends
  before \<open>int\<close> does.

  \<^bold>\<open>The properties.\<close>  The index runs as a map, each operation keeps the tree sound, the checker is exact,
  scans deliver the range, the height is logarithmic.  The page store is transactional under every fault
  and crash, always recovers, commits at once, loses no page and uses none twice, and its checks accept
  exactly what is sound.  One thing is the client's to keep: \<open>Write\<close> goes to a page in place, so a page the
  last checkpoint uses must not be written before the next one, but copied to a newly allocated page;
  \<open>write_in_place_survives\<close> shows what happens otherwise, and the properties that speak of the old contents
  say which pages they hold for.  Nodes on pages stay sound, read back, search right and hold what is advertised.
  Encodings round trip and keep order.

  \<^bold>\<open>Not modelled.\<close>  \<open>Page.Describe\<close> and \<open>Store.DescribeMeta\<close>, which quote arbitrary bytes with the
  Unicode tables of \<open>strconv\<close>, and \<open>FanoutTable\<close>, which formats floating-point products.  The command
  \<open>cmd/scutedb-demo\<close>, which runs the packages and prints what they do: it keeps no state of its own.
  \<open>storage/storage.go\<close> only declares interfaces that nothing implements or calls yet.  Opening a file by
  its path is a call of the operating system, whose outcome is a parameter.  Concurrent use: the code has
  no locks and its documentation excludes it.
\<close>

end
